(* ===== verification/Prelude.thy ===== *)
theory Prelude
  imports Main "HOL-Library.Word" "HOL-Library.List_Lexorder" "HOL-Library.AList"
    "HOL-Library.Multiset"
begin

text \<open>
  Shared vocabulary of the development: the Go base types, the error values of the four Teak
  packages and of the code they call, \<open>errors.Is\<close>, Go's wrapping \<open>int\<close> arithmetic, and the
  generic lemmas on lists, association lists and sums that the component theories share.

  Representation choices.
  \<^item> \<open>uint64\<close>, \<open>uint32\<close> and \<open>byte\<close> are words of that width, so sums wrap as in Go.
  \<^item> A Go \<open>string\<close> and a \<open>[]byte\<close> are both byte lists; \<open>str\<close> turns a literal into one.
  \<^item> A \<open>time.Time\<close> is the integer number of nanoseconds since the Unix epoch, a
    \<open>time.Duration\<close> an integer number of nanoseconds.
  \<^item> A Go \<open>int\<close> (64 bits) is an \<open>int\<close>; where a sum can leave the range the model writes
    \<open>wrap_int\<close>.
  \<^item> A Go \<open>map\<close> is an association list without repeated keys; the order in which \<open>range\<close>
    visits it is a parameter of the operations that iterate.
  \<^item> A function with results \<open>(T, error)\<close> returns \<open>gerror + T\<close>: \<open>Inl\<close> is the error.
\<close>

named_theorems go_simps "unfolding rules of Go-level helpers"
named_theorems wire_simps "rewrite rules of the byte-level encodings"
named_theorems eval_simps "rules that evaluate the model on concrete inputs"
named_theorems disp_simps "field-wise effect of the dispatcher operations"

section \<open>Base types\<close>

type_synonym byte = "8 word"
type_synonym bytes = "8 word list"
type_synonym u32 = "32 word"
type_synonym u64 = "64 word"
type_synonym receipt = "128 word"
type_synonym time = int
type_synonym duration = int

definition str :: "string \<Rightarrow> bytes" where
  "str s = map of_char s"

lemma str_append [simp]: "str (a @ b) = str a @ str b"
  by (simp add: str_def)

lemma length_str [simp]: "length (str s) = length s"
  by (simp add: str_def)

abbreviation MaxUint64 :: u64 where
  "MaxUint64 \<equiv> - 1"

abbreviation MaxUint32 :: u32 where
  "MaxUint32 \<equiv> - 1"

lemma unat_MaxUint64 [simp]: "unat MaxUint64 = 2 ^ 64 - 1"
  by (simp add: unsigned_minus_1_eq_mask mask_eq_exp_minus_1)

lemma unat_MaxUint32 [simp]: "unat MaxUint32 = 2 ^ 32 - 1"
  by (simp add: unsigned_minus_1_eq_mask mask_eq_exp_minus_1)

lemma unat_inc: "(w :: u64) \<noteq> MaxUint64 \<Longrightarrow> unat (w + 1) = unat w + 1"
proof -
  assume "w \<noteq> MaxUint64"
  then have "unat w \<noteq> 2 ^ 64 - 1" by (metis unat_MaxUint64 word_unat_eq_iff)
  with unsigned_less [of w, where ?'a = nat] have "unat w + 1 < 2 ^ 64" by simp
  then show ?thesis by (simp add: unat_word_ariths)
qed

lemma less_inc: "(w :: u64) \<noteq> MaxUint64 \<Longrightarrow> w < w + 1"
  by (simp add: word_less_nat_alt unat_inc)

lemma case_if_pair:
  "(case (if c then (a, b) else (x, y)) of (u, w) \<Rightarrow> f u w) = f (if c then a else x) (if c then b else y)"
  by simp

section \<open>Errors\<close>

datatype store_error =
    StoreErrInvalidStreamName | StoreErrNotFound | StoreErrSeqExhausted | StoreErrClosed
  | StoreErrInvalidBatchSize | StoreErrBatchTooLarge | StoreErrUnsupportedSchema
  | StoreErrNoRewrite | StoreErrTailRegression | StoreErrStateConflict

datatype envelope_error =
    ErrCorruptEnvelope | ErrUnsupportedEnvelope | ErrValueTooLarge

datatype dispatch_error =
    DispatchErrClosed | DispatchErrInvalidCount | DispatchErrInvalidConfig
  | DispatchErrStaleDelivery | DispatchErrInvalidExtension

datatype teak_error =
    ErrClosed | ErrInvalidOptions | ErrInvalidName | ErrInvalidCount | ErrInvalidDelivery
  | ErrInvalidDeadLetter | ErrStaleDelivery | ErrInvalidExtension | ErrNotFound
  | ErrBatchTooLarge | ErrSequenceExhausted | ErrCorruptStorage

datatype badger_error = BadgerErrKeyNotFound | BadgerErrTxnTooBig | BadgerErrNoRewrite

datatype context_error = ContextCanceled | ContextDeadlineExceeded

text \<open>
  An error value is a package sentinel, an anonymous \<open>errors.New\<close> or foreign error, or the
  result of \<open>fmt.Errorf\<close>, which keeps the operands of its \<open>%w\<close> verbs. Operands of other
  verbs only contribute message text, which is not modelled.
\<close>

datatype gerror =
    StoreError store_error
  | EnvelopeError envelope_error
  | DispatchError dispatch_error
  | TeakError teak_error
  | BadgerError badger_error
  | ContextError context_error
  | CodecPanic
  | ErrorText string
  | Errorf "gerror list"

fun errors_is :: "gerror \<Rightarrow> gerror \<Rightarrow> bool" where
  "errors_is (Errorf ws) target = list_ex (\<lambda>w. errors_is w target) ws"
| "errors_is e target = (e = target)"

lemma errors_is_Errorf [simp]:
  "errors_is (Errorf ws) t \<longleftrightarrow> (\<exists>w \<in> set ws. errors_is w t)"
  by (simp add: list_ex_iff)

declare errors_is.simps(1) [simp del]

text \<open>\<open>if err != nil { return err }\<close>: the rest runs on the value of a successful call.\<close>

definition gbind :: "gerror + 'a \<Rightarrow> ('a \<Rightarrow> gerror + 'b) \<Rightarrow> gerror + 'b" where
  "gbind r f = (case r of Inl e \<Rightarrow> Inl e | Inr a \<Rightarrow> f a)"

lemma gbind_simps [simp]: "gbind (Inl e) f = Inl e" "gbind (Inr a) f = f a"
  by (simp_all add: gbind_def)

lemma gbind_Inr_iff: "gbind r f = Inr b \<longleftrightarrow> (\<exists>a. r = Inr a \<and> f a = Inr b)"
  by (cases r) auto

lemma gbind_Inl_iff: "gbind r f = Inl e \<longleftrightarrow> r = Inl e \<or> (\<exists>a. r = Inr a \<and> f a = Inl e)"
  by (cases r) auto

lemma gbind_cong [fundef_cong]:
  "r = r' \<Longrightarrow> (\<And>a. r' = Inr a \<Longrightarrow> f a = g a) \<Longrightarrow> gbind r f = gbind r' g"
  by (cases r') auto

section \<open>Go integers\<close>

definition wrap_int :: "int \<Rightarrow> int" where
  "wrap_int x = (x + 2 ^ 63) mod 2 ^ 64 - 2 ^ 63"

definition in_int :: "int \<Rightarrow> bool" where
  "in_int x \<longleftrightarrow> - (2 ^ 63) \<le> x \<and> x < 2 ^ 63"

lemma wrap_int_id: "in_int x \<Longrightarrow> wrap_int x = x"
  by (simp add: in_int_def wrap_int_def)

lemma wrap_int_overflow:
  assumes "2 ^ 63 \<le> x" "x < 2 ^ 64"
  shows "wrap_int x = x - 2 ^ 64"
proof -
  have "(x + 2 ^ 63) mod 2 ^ 64 = (x + 2 ^ 63 - 2 ^ 64) mod (2 ^ 64 :: int)"
    by (rule minus_mod_self2 [symmetric])
  also have "\<dots> = x + 2 ^ 63 - 2 ^ 64"
    using assms by (intro mod_pos_pos_trivial) auto
  finally show ?thesis by (simp add: wrap_int_def)
qed

section \<open>Association lists\<close>

abbreviation keys :: "('k \<times> 'v) list \<Rightarrow> 'k list" where
  "keys m \<equiv> map fst m"

abbreviation vals :: "('k \<times> 'v) list \<Rightarrow> 'v list" where
  "vals m \<equiv> map snd m"

lemma map_of_SomeD_vals: "map_of m k = Some v \<Longrightarrow> v \<in> set (vals m)"
  by (force dest: map_of_SomeD)

lemma update_fresh: "k \<notin> set (keys m) \<Longrightarrow> AList.update k v m = m @ [(k, v)]"
  by (induction m) auto

lemma delete_absent: "k \<notin> set (keys m) \<Longrightarrow> AList.delete k m = m"
  by (simp add: AList.delete_eq) (metis (mono_tags, lifting) filter_True image_eqI case_prod_beta)

lemma mset_delete:
  "distinct (keys m) \<Longrightarrow> map_of m k = Some v \<Longrightarrow> mset m = add_mset (k, v) (mset (AList.delete k m))"
proof (induction m)
  case Nil
  then show ?case by simp
next
  case (Cons p m)
  show ?case
  proof (cases "fst p = k")
    case True
    with Cons.prems have "p = (k, v)" "k \<notin> set (keys m)" by (auto simp: prod_eq_iff)
    then show ?thesis by (simp add: delete_absent)
  next
    case False
    with Cons show ?thesis by (cases p) auto
  qed
qed

lemma length_delete:
  "distinct (keys m) \<Longrightarrow> map_of m k = Some v \<Longrightarrow> length m = Suc (length (AList.delete k m))"
  by (drule (1) mset_delete) (metis size_add_mset size_mset)

section \<open>Sorted lists\<close>

lemma sorted_take_downward:
  assumes "sorted xs" "distinct xs" "y \<in> set (take n xs)" "x \<in> set xs" "x \<le> y"
  shows "x \<in> set (take n xs)"
proof -
  from assms(3) obtain j where j: "j < n" "j < length xs" "y = xs ! j"
    by (auto simp: in_set_conv_nth)
  from assms(4) obtain i where i: "i < length xs" "x = xs ! i" by (auto simp: in_set_conv_nth)
  have "i \<le> j"
  proof (rule ccontr)
    assume "\<not> i \<le> j"
    then have "xs ! j \<le> xs ! i" "xs ! j \<noteq> xs ! i"
      using assms(1,2) i j by (auto simp: sorted_iff_nth_mono nth_eq_iff_index_eq)
    with assms(5) i j show False by simp
  qed
  with i j show ?thesis by (auto simp: in_set_conv_nth intro!: exI [of _ i])
qed

lemma sorted_list_of_set_image:
  fixes f :: "'a :: linorder \<Rightarrow> 'b :: linorder"
  assumes "finite S" "\<And>x y. f x < f y \<longleftrightarrow> x < y"
  shows "sorted_list_of_set (f ` S) = map f (sorted_list_of_set S)"
proof -
  have le: "f x \<le> f y \<longleftrightarrow> x \<le> y" for x y using assms(2) [of y x] by (simp add: not_less [symmetric])
  have inj: "inj f" by (rule injI) (metis assms(2) less_irrefl linorder_neqE)
  have "sorted (map f (sorted_list_of_set S))"
    by (simp add: sorted_map le)
  moreover have "distinct (map f (sorted_list_of_set S))"
    using inj by (simp add: distinct_map inj_on_def)
  ultimately show ?thesis
    using sorted_list_of_set.idem_if_sorted_distinct [of "map f (sorted_list_of_set S)"] assms(1) by simp
qed

end
