(* ===== verification/Wire.thy ===== *)
theory Wire
  imports Prelude
begin

text \<open>
  The part of \<open>encoding/binary\<close> that Teak uses: big-endian unsigned integers. \<open>be_nat n x\<close> is
  the list of the bytes \<open>byte(x >> 8*(n-1))\<close>, \<dots>, \<open>byte(x)\<close>; \<open>be_val\<close> reads such a list back.
  \<open>be_val_less\<close> is the reason Teak's keys sort by sequence: on lists of one length the
  lexicographic order of the bytes is the numeric order of the values.
\<close>

fun be_nat :: "nat \<Rightarrow> nat \<Rightarrow> bytes" where
  "be_nat 0 x = []"
| "be_nat (Suc n) x = word_of_nat (x div 256 ^ n) # be_nat n x"

fun be_val :: "bytes \<Rightarrow> nat" where
  "be_val [] = 0"
| "be_val (b # bs) = unat b * 256 ^ length bs + be_val bs"

definition AppendUint64 :: "bytes \<Rightarrow> u64 \<Rightarrow> bytes" where
  "AppendUint64 out v = out @ be_nat 8 (unat v)"

definition AppendUint32 :: "bytes \<Rightarrow> u32 \<Rightarrow> bytes" where
  "AppendUint32 out v = out @ be_nat 4 (unat v)"

definition Uint64 :: "bytes \<Rightarrow> u64" where
  "Uint64 bs = word_of_nat (be_val (take 8 bs))"

definition Uint32 :: "bytes \<Rightarrow> u32" where
  "Uint32 bs = word_of_nat (be_val (take 4 bs))"

lemma length_be_nat [simp, wire_simps]: "length (be_nat n x) = n"
  by (induction n) auto

text \<open>The two widths that occur, unrolled for evaluation on literals.\<close>

lemma be_nat_4 [eval_simps]:
  "be_nat 4 x = [word_of_nat (x div 16777216), word_of_nat (x div 65536), word_of_nat (x div 256),
     word_of_nat x]"
proof -
  have "be_nat 4 x = be_nat (Suc (Suc (Suc (Suc 0)))) x" by (simp add: numeral_eq_Suc del: be_nat.simps)
  also have "\<dots> = [word_of_nat (x div 256 ^ 3), word_of_nat (x div 256 ^ 2), word_of_nat (x div 256 ^ 1),
      word_of_nat (x div 256 ^ 0)]"
    by (simp only: be_nat.simps One_nat_def numeral_3_eq_3 numeral_2_eq_2)
  finally show ?thesis by (simp del: be_nat.simps)
qed

lemma be_nat_8 [eval_simps]:
  "be_nat 8 x = word_of_nat (x div 72057594037927936) # word_of_nat (x div 281474976710656)
     # word_of_nat (x div 1099511627776) # word_of_nat (x div 4294967296) # be_nat 4 x"
proof -
  have "be_nat (Suc (Suc (Suc (Suc 4)))) x = word_of_nat (x div 256 ^ Suc (Suc (Suc 4)))
      # word_of_nat (x div 256 ^ Suc (Suc 4)) # word_of_nat (x div 256 ^ Suc 4)
      # word_of_nat (x div 256 ^ 4) # be_nat 4 x"
    by (simp only: be_nat.simps)
  then show ?thesis by (simp del: be_nat.simps)
qed

declare AppendUint64_def [eval_simps] AppendUint32_def [eval_simps]

lemma unat_byte: "unat (word_of_nat x :: byte) = x mod 256"
  by (simp add: unat_of_nat)

lemma be_val_be_nat: "be_val (be_nat n x) = x mod 256 ^ n"
proof (induction n)
  case 0
  then show ?case by simp
next
  case (Suc n)
  have "x mod 256 ^ Suc n = 256 ^ n * (x div 256 ^ n mod 256) + x mod 256 ^ n"
    using mod_mult2_eq [of x "256 ^ n" 256] by (simp add: mult.commute)
  with Suc show ?case by (simp add: unat_byte mult.commute)
qed

lemma unat_byte_less: "unat (b :: byte) < 256"
  using unsigned_less [of b, where ?'a = nat] by simp

lemma be_val_bound: "be_val bs < 256 ^ length bs"
proof (induction bs)
  case Nil
  then show ?case by simp
next
  case (Cons b bs)
  then have "be_val (b # bs) < Suc (unat b) * 256 ^ length bs" by simp
  also have "\<dots> \<le> 256 * 256 ^ length bs"
    using unat_byte_less [of b] by (intro mult_right_mono) auto
  finally show ?case by simp
qed

lemma be_nat_be_val_aux: "be_nat (length bs) (be_val bs + 256 ^ length bs * k) = bs"
proof (induction bs arbitrary: k)
  case Nil
  then show ?case by simp
next
  case (Cons b bs)
  let ?n = "length bs"
  have eq: "be_val (b # bs) + 256 ^ length (b # bs) * k = be_val bs + 256 ^ ?n * (unat b + 256 * k)"
    by (simp add: algebra_simps)
  have "(be_val bs + 256 ^ ?n * (unat b + 256 * k)) div 256 ^ ?n = unat b + 256 * k"
    using be_val_bound [of bs] by simp
  moreover have "(word_of_nat (unat b + 256 * k) :: byte) = b"
    using unat_byte_less [of b] by (simp add: word_unat_eq_iff unat_of_nat del: of_nat_add of_nat_mult)
  ultimately show ?case
    unfolding eq using Cons [of "unat b + 256 * k"] by simp
qed

lemma be_nat_be_val: "be_nat (length bs) (be_val bs) = bs"
  using be_nat_be_val_aux [of bs 0] by simp

lemma be_val_inj: "length xs = length ys \<Longrightarrow> be_val xs = be_val ys \<Longrightarrow> xs = ys"
  by (metis be_nat_be_val)

lemma be_val_less:
  "length xs = length ys \<Longrightarrow> xs < ys \<longleftrightarrow> be_val xs < be_val ys"
proof (induction xs ys rule: list_induct2)
  case Nil
  then show ?case by simp
next
  case (Cons x xs y ys)
  let ?m = "256 ^ length ys :: nat"
  have bx: "be_val xs < ?m" and by': "be_val ys < ?m"
    using be_val_bound [of xs] be_val_bound [of ys] Cons.hyps by simp_all
  consider "x < y" | "x = y" | "y < x" by fastforce
  then show ?case
  proof cases
    case 1
    then have "Suc (unat x) * ?m \<le> unat y * ?m"
      by (intro mult_right_mono) (auto simp: word_less_nat_alt)
    with 1 bx Cons.hyps show ?thesis by simp
  next
    case 2
    with Cons show ?thesis by simp
  next
    case 3
    then have "Suc (unat y) * ?m \<le> unat x * ?m"
      by (intro mult_right_mono) (auto simp: word_less_nat_alt)
    with 3 by' Cons.hyps show ?thesis by auto
  qed
qed

lemma Uint64_append [wire_simps]: "Uint64 (be_nat 8 (unat v) @ rest) = v"
  using unsigned_less [of v, where ?'a = nat] by (simp add: Uint64_def be_val_be_nat)

lemma Uint32_append [wire_simps]: "Uint32 (be_nat 4 (unat v) @ rest) = v"
  using unsigned_less [of v, where ?'a = nat] by (simp add: Uint32_def be_val_be_nat)

lemma Uint64_be: "Uint64 (be_nat 8 (unat v)) = v"
  using Uint64_append [of v "[]"] by simp

lemma unat_Uint64: "8 \<le> length bs \<Longrightarrow> unat (Uint64 bs) = be_val (take 8 bs)"
  using be_val_bound [of "take 8 bs"] by (simp add: Uint64_def unat_of_nat)

lemma unat_Uint32: "4 \<le> length bs \<Longrightarrow> unat (Uint32 bs) = be_val (take 4 bs)"
  using be_val_bound [of "take 4 bs"] by (simp add: Uint32_def unat_of_nat)

lemma be_nat_Uint64: "8 \<le> length bs \<Longrightarrow> be_nat 8 (unat (Uint64 bs)) = take 8 bs"
  using be_nat_be_val [of "take 8 bs"] by (simp add: unat_Uint64)

lemma be_nat_Uint32: "4 \<le> length bs \<Longrightarrow> be_nat 4 (unat (Uint32 bs)) = take 4 bs"
  using be_nat_be_val [of "take 4 bs"] by (simp add: unat_Uint32)

lemma be_nat8_inj: "be_nat 8 (unat (a :: u64)) = be_nat 8 (unat b) \<longleftrightarrow> a = b"
  by (metis Uint64_be)

lemma be_nat8_less: "be_nat 8 (unat (a :: u64)) < be_nat 8 (unat b) \<longleftrightarrow> a < b"
  using unsigned_less [of a, where ?'a = nat] unsigned_less [of b, where ?'a = nat]
  by (simp add: be_val_less be_val_be_nat word_less_nat_alt)

section \<open>Fields of a record format\<close>

text \<open>
  A field of a sequential format: \<open>put\<close> writes a value, \<open>get\<close> reads one and returns the rest
  of the input. \<open>get_put\<close> and \<open>put_get\<close> are the two directions of the round trip; together they
  make the field prefix-free, so that fields can be put one after another.
\<close>

locale wire_field =
  fixes put :: "'v \<Rightarrow> bytes"
    and get :: "bytes \<Rightarrow> ('v \<times> bytes) option"
    and ok :: "'v \<Rightarrow> bool"
  assumes get_put: "ok v \<Longrightarrow> get (put v @ rest) = Some (v, rest)"
    and put_get: "get bs = Some (v, rest) \<Longrightarrow> ok v \<and> bs = put v @ rest"
begin

lemma put_inj: "ok v \<Longrightarrow> ok w \<Longrightarrow> put v @ r = put w @ s \<Longrightarrow> v = w \<and> r = s"
  by (metis get_put option.inject prod.inject)

lemma get_iff: "get bs = Some (v, rest) \<longleftrightarrow> ok v \<and> bs = put v @ rest"
  using get_put put_get by blast

lemma get_shorter: "get bs = Some (v, rest) \<Longrightarrow> length rest \<le> length bs"
  by (auto dest: put_get)

end

end
