(* ===== verification/Keys.thy ===== *)
theory Keys
  imports Wire
begin

text \<open>
  \<open>src/internal/store/keys.go\<close> and the name rule of \<open>store.go\<close>: the layout of Teak's keys in
  the shared key space. The lemmas show the three facts the store builds on: a sequence key
  parses back to its sequence and to nothing else, the byte order of the keys of one prefix is
  the order of the sequences, and the keys with a given prefix are an interval of the byte
  order, so a forward scan meets all of them before any other key. The locale \<open>key_family\<close>
  collects what a per-stream prefix promises; it is interpreted for the pending and the
  dead-letter prefix.
\<close>

definition seqLen :: nat where "seqLen = 8"

definition pendingPrefix :: "bytes \<Rightarrow> bytes" where
  "pendingPrefix stream = str ''t/'' @ stream @ str ''/d/''"

definition sequenceKey :: "bytes \<Rightarrow> u64 \<Rightarrow> bytes" where
  "sequenceKey prefix seq = AppendUint64 prefix seq"

definition pendingKey :: "bytes \<Rightarrow> u64 \<Rightarrow> bytes" where
  "pendingKey stream seq = sequenceKey (pendingPrefix stream) seq"

definition deadPrefix :: "bytes \<Rightarrow> bytes" where
  "deadPrefix stream = str ''t/'' @ stream @ str ''/x/''"

definition deadKey :: "bytes \<Rightarrow> u64 \<Rightarrow> bytes" where
  "deadKey stream seq = sequenceKey (deadPrefix stream) seq"

definition metaKey :: "bytes \<Rightarrow> bytes \<Rightarrow> bytes" where
  "metaKey stream name = str ''t/'' @ stream @ str ''/m/'' @ name"

definition tailMetaKey :: bytes where "tailMetaKey = str ''tail''"
definition schemaMetaKey :: bytes where "schemaMetaKey = str ''schema''"

definition parseSequence :: "bytes \<Rightarrow> bytes \<Rightarrow> u64 option" where
  "parseSequence prefix key =
     (if length key \<noteq> length prefix + seqLen \<or> take (length prefix) key \<noteq> prefix then None
      else Some (Uint64 (drop (length prefix) key)))"

definition valid_name_char :: "byte \<Rightarrow> bool" where
  "valid_name_char c \<longleftrightarrow>
     (of_char CHR ''a'' \<le> c \<and> c \<le> of_char CHR ''z'') \<or> (of_char CHR ''A'' \<le> c \<and> c \<le> of_char CHR ''Z'')
     \<or> (of_char CHR ''0'' \<le> c \<and> c \<le> of_char CHR ''9'')
     \<or> c = of_char CHR ''.'' \<or> c = of_char CHR ''_'' \<or> c = of_char CHR ''-''"

definition ValidateStreamName :: "bytes \<Rightarrow> gerror option" where
  "ValidateStreamName name =
     (if name = [] \<or> 100 < length name then Some (Errorf [StoreError StoreErrInvalidStreamName])
      else if list_all valid_name_char name then None
      else Some (Errorf [StoreError StoreErrInvalidStreamName]))"

text \<open>\<open>bytes.HasPrefix\<close>, the test of \<open>Iterator.ValidForPrefix\<close>.\<close>

definition has_prefix :: "bytes \<Rightarrow> bytes \<Rightarrow> bool" where
  "has_prefix p k \<longleftrightarrow> take (length p) k = p"

section \<open>Parsing and order\<close>

lemma sequenceKey_eq: "sequenceKey p s = p @ be_nat 8 (unat s)"
  by (simp add: sequenceKey_def AppendUint64_def)

lemma has_prefix_append [simp]: "has_prefix p (p @ k)"
  by (simp add: has_prefix_def)

lemma has_prefix_iff: "has_prefix p k \<longleftrightarrow> (\<exists>r. k = p @ r)"
  unfolding has_prefix_def by (metis append_eq_conv_conj append_take_drop_id)

lemma has_prefix_sequenceKey [simp]: "has_prefix p (sequenceKey p s)"
  by (simp add: sequenceKey_eq)

lemma parseSequence_iff: "parseSequence p k = Some s \<longleftrightarrow> k = sequenceKey p s"
proof
  assume "parseSequence p k = Some s"
  then have "length (drop (length p) k) = 8" "take (length p) k = p" "s = Uint64 (drop (length p) k)"
    by (auto simp: parseSequence_def seqLen_def split: if_splits)
  then show "k = sequenceKey p s"
    using be_nat_Uint64 [of "drop (length p) k"]
    by (metis append_take_drop_id order_refl sequenceKey_eq take_all)
qed (simp add: parseSequence_def sequenceKey_eq seqLen_def Uint64_be)

lemma parseSequence_key [simp]: "parseSequence p (sequenceKey p s) = Some s"
  by (simp add: parseSequence_iff)

lemma parseSequence_prefix: "parseSequence p k = Some s \<Longrightarrow> has_prefix p k"
  by (simp add: parseSequence_iff)

lemma sequenceKey_inj [simp]: "sequenceKey p s = sequenceKey p t \<longleftrightarrow> s = t"
  by (metis option.inject parseSequence_key)

lemma append_less_append [simp]: "(p :: bytes) @ a < p @ b \<longleftrightarrow> a < b"
  by (induction p) auto

lemma append_le_append [simp]: "(p :: bytes) @ a \<le> p @ b \<longleftrightarrow> a \<le> b"
  by (induction p) auto

lemma sequenceKey_less [simp]: "sequenceKey p s < sequenceKey p t \<longleftrightarrow> s < t"
  by (simp add: sequenceKey_eq be_nat8_less)

lemma sequenceKey_le [simp]: "sequenceKey p s \<le> sequenceKey p t \<longleftrightarrow> s \<le> t"
  by (meson linorder_not_le sequenceKey_less)

lemma prefix_le: "has_prefix p k \<Longrightarrow> p \<le> k"
  using append_le_append [of p "[]"] by (auto simp: has_prefix_iff)

text \<open>Between a lower bound of a prefix and a key with that prefix lie only keys with that prefix.\<close>

lemma has_prefix_interval:
  "p \<le> k \<Longrightarrow> k \<le> k' \<Longrightarrow> has_prefix p k' \<Longrightarrow> has_prefix p k"
proof (induction p arbitrary: k k')
  case Nil
  then show ?case by (simp add: has_prefix_def)
next
  case (Cons a p)
  then obtain r where k': "k' = a # p @ r" by (auto simp: has_prefix_iff)
  with Cons.prems obtain b l where k: "k = b # l" by (cases k) auto
  with Cons.prems(1,2) k' have "b = a" "p \<le> l" "l \<le> p @ r" by auto
  with Cons.IH [of l "p @ r"] k show ?case by (simp add: has_prefix_def)
qed

lemma takeWhile_prefix_eq_filter:
  assumes "sorted ks" "\<forall>k \<in> set ks. p \<le> k"
  shows "takeWhile (has_prefix p) ks = filter (has_prefix p) ks"
  using assms
proof (induction ks)
  case Nil
  then show ?case by simp
next
  case (Cons k ks)
  show ?case
  proof (cases "has_prefix p k")
    case True
    with Cons show ?thesis by simp
  next
    case False
    have "\<not> has_prefix p k'" if "k' \<in> set ks" for k'
      using False Cons.prems that has_prefix_interval [of p k k'] by auto
    with False show ?thesis by (simp add: filter_empty_conv)
  qed
qed

section \<open>Streams do not share keys\<close>

definition slash :: byte where "slash = of_char CHR ''/''"

definition valid_name :: "bytes \<Rightarrow> bool" where
  "valid_name n \<longleftrightarrow> ValidateStreamName n = None"

lemma slash_not_valid: "\<not> valid_name_char slash"
  by (simp add: valid_name_char_def slash_def)

lemma valid_name_no_slash: "valid_name n \<Longrightarrow> slash \<notin> set n"
  using slash_not_valid
  by (auto simp: valid_name_def ValidateStreamName_def list_all_iff split: if_splits)

lemma separator_split:
  "x \<notin> set a \<Longrightarrow> x \<notin> set b \<Longrightarrow> a @ x # r = b @ x # s \<longleftrightarrow> a = b \<and> r = s"
proof (induction a arbitrary: b)
  case Nil
  then show ?case by (cases b) auto
next
  case (Cons y a)
  then show ?case by (cases b) auto
qed

lemma str_slash: "str (CHR ''/'' # cs) = slash # str cs"
  by (simp add: str_def slash_def)

lemma pendingPrefix_eq: "pendingPrefix n = str ''t/'' @ n @ slash # str ''d/''"
  by (simp add: pendingPrefix_def str_slash)

lemma deadPrefix_eq: "deadPrefix n = str ''t/'' @ n @ slash # str ''x/''"
  by (simp add: deadPrefix_def str_slash)

lemma metaKey_eq: "metaKey n m = str ''t/'' @ n @ slash # str ''m/'' @ m"
  by (simp add: metaKey_def str_slash)

lemma kind_distinct:
  "str ''d/'' @ r \<noteq> str ''x/'' @ s" "str ''d/'' @ r \<noteq> str ''m/'' @ s" "str ''x/'' @ r \<noteq> str ''m/'' @ s"
  by (simp_all add: str_def)

lemma pending_dead_disjoint:
  "valid_name a \<Longrightarrow> valid_name b \<Longrightarrow> has_prefix (pendingPrefix a) k \<Longrightarrow> \<not> has_prefix (deadPrefix b) k"
  using kind_distinct(1)
  by (auto simp: has_prefix_iff pendingPrefix_eq deadPrefix_eq separator_split valid_name_no_slash)

lemma pending_meta_disjoint:
  "valid_name a \<Longrightarrow> valid_name b \<Longrightarrow> \<not> has_prefix (pendingPrefix a) (metaKey b m)"
  using kind_distinct(2)
  by (auto simp: has_prefix_iff pendingPrefix_eq metaKey_eq separator_split valid_name_no_slash
      dest: sym)

lemma dead_meta_disjoint:
  "valid_name a \<Longrightarrow> valid_name b \<Longrightarrow> \<not> has_prefix (deadPrefix a) (metaKey b m)"
  using kind_distinct(3)
  by (auto simp: has_prefix_iff deadPrefix_eq metaKey_eq separator_split valid_name_no_slash
      dest: sym)

lemma metaKey_inj:
  "valid_name a \<Longrightarrow> valid_name b \<Longrightarrow> metaKey a m = metaKey b m' \<longleftrightarrow> a = b \<and> m = m'"
  by (auto simp: metaKey_eq separator_split valid_name_no_slash)

lemma tail_schema_distinct [simp]: "tailMetaKey \<noteq> schemaMetaKey" "schemaMetaKey \<noteq> tailMetaKey"
  by (simp_all add: tailMetaKey_def schemaMetaKey_def str_def)

locale key_family =
  fixes pre :: "bytes \<Rightarrow> bytes"
  assumes separate: "valid_name a \<Longrightarrow> valid_name b \<Longrightarrow> has_prefix (pre a) k \<Longrightarrow> has_prefix (pre b) k \<Longrightarrow> a = b"
    and no_meta: "valid_name a \<Longrightarrow> valid_name b \<Longrightarrow> \<not> has_prefix (pre a) (metaKey b m)"
begin

lemma key_inj:
  "valid_name a \<Longrightarrow> valid_name b \<Longrightarrow> sequenceKey (pre a) s = sequenceKey (pre b) t \<longleftrightarrow> a = b \<and> s = t"
  using separate [of a b "sequenceKey (pre a) s"] by (metis has_prefix_sequenceKey sequenceKey_inj)

lemma key_not_meta:
  "valid_name a \<Longrightarrow> valid_name b \<Longrightarrow> sequenceKey (pre a) s \<noteq> metaKey b m"
  using no_meta [of a b m] by (metis has_prefix_sequenceKey)

lemma foreign_key:
  "valid_name a \<Longrightarrow> valid_name b \<Longrightarrow> a \<noteq> b \<Longrightarrow> \<not> has_prefix (pre a) (sequenceKey (pre b) s)"
  using separate [of a b "sequenceKey (pre b) s"] by auto

end

interpretation pending_keys: key_family pendingPrefix
proof
  show "a = b" if "valid_name a" "valid_name b" "has_prefix (pendingPrefix a) k"
    "has_prefix (pendingPrefix b) k" for a b k
    using that by (auto simp: has_prefix_iff pendingPrefix_eq separator_split valid_name_no_slash)
qed (rule pending_meta_disjoint)

interpretation dead_keys: key_family deadPrefix
proof
  show "a = b" if "valid_name a" "valid_name b" "has_prefix (deadPrefix a) k"
    "has_prefix (deadPrefix b) k" for a b k
    using that by (auto simp: has_prefix_iff deadPrefix_eq separator_split valid_name_no_slash)
qed (rule dead_meta_disjoint)

lemma pending_dead_key:
  "valid_name a \<Longrightarrow> valid_name b \<Longrightarrow> pendingKey a s \<noteq> deadKey b t"
  using pending_dead_disjoint [of a b "pendingKey a s"]
  by (metis deadKey_def has_prefix_sequenceKey pendingKey_def)

declare pendingPrefix_def [eval_simps] deadPrefix_def [eval_simps] pendingKey_def [eval_simps]
  deadKey_def [eval_simps] metaKey_def [eval_simps] sequenceKey_def [eval_simps]
  tailMetaKey_def [eval_simps] schemaMetaKey_def [eval_simps] seqLen_def [eval_simps]
  parseSequence_def [eval_simps] has_prefix_def [eval_simps] str_def [eval_simps]

end
