(* ===== verification/Badger.thy ===== *)
theory Badger
  imports Keys
begin

text \<open>
  BadgerDB is not part of the repository, so it is a parameter: a record \<open>badger\<close> of the
  operations that \<open>store.go\<close> calls, over a type of databases and a type of transactions about
  which nothing is known. An iterator is the list of the items it still has to visit, each
  item a key and the result of \<open>ValueCopy\<close>; \<open>Seek\<close> makes such a list, \<open>Valid\<close> is
  non-emptiness and \<open>Next\<close> the tail.

  What Teak relies on is the locale \<open>badger_store\<close>: a transaction is a snapshot with its own
  writes, a commit installs it entirely or leaves the database as it was, iteration is in
  byte order. Every operation may fail with any error. The law of a commit is stated for any
  transaction and database; \<open>Update\<close>, its only user, commits a transaction on the database it was
  started from. \<open>badger_reliable\<close> adds that
  nothing fails except the lookup of a missing key; only statements that an operation succeeds
  use it. \<open>mem_badger\<close>, a database of association lists, satisfies both.
\<close>

record ('db, 'txn) badger =
  b_newTransaction :: "'db \<Rightarrow> 'txn"
  b_commit :: "'txn \<Rightarrow> 'db \<Rightarrow> gerror option \<times> 'db"
  b_get :: "'txn \<Rightarrow> bytes \<Rightarrow> gerror + (gerror + bytes)"
  b_set :: "'txn \<Rightarrow> bytes \<Rightarrow> bytes \<Rightarrow> gerror + 'txn"
  b_delete :: "'txn \<Rightarrow> bytes \<Rightarrow> gerror + 'txn"
  b_seek :: "'txn \<Rightarrow> bool \<Rightarrow> bytes \<Rightarrow> (bytes \<times> (gerror + bytes)) list"

type_synonym iterator = "(bytes \<times> (gerror + bytes)) list"

text \<open>\<open>DB.Update\<close>: run the function in a fresh transaction, commit unless it returned an error.
  \<open>DB.View\<close>: run it in a transaction that is discarded.\<close>

definition Update :: "('db, 'txn) badger \<Rightarrow> 'db \<Rightarrow> ('txn \<Rightarrow> gerror + 'a \<times> 'txn) \<Rightarrow> (gerror + 'a) \<times> 'db" where
  "Update B db f =
     (case f (b_newTransaction B db) of
        Inl e \<Rightarrow> (Inl e, db)
      | Inr (a, t) \<Rightarrow>
          (case b_commit B t db of
             (None, db') \<Rightarrow> (Inr a, db')
           | (Some e, db') \<Rightarrow> (Inl e, db')))"

definition View :: "('db, 'txn) badger \<Rightarrow> 'db \<Rightarrow> ('txn \<Rightarrow> gerror + 'a) \<Rightarrow> gerror + 'a" where
  "View B db f = f (b_newTransaction B db)"

fun ValidForPrefix :: "bytes \<Rightarrow> iterator \<Rightarrow> bool" where
  "ValidForPrefix p [] = False"
| "ValidForPrefix p ((k, v) # it) = has_prefix p k"

locale badger_store =
  fixes B :: "('db, 'txn) badger"
    and db_view :: "'db \<Rightarrow> bytes \<rightharpoonup> bytes"
    and txn_view :: "'txn \<Rightarrow> bytes \<rightharpoonup> bytes"
  assumes view_finite: "finite (dom (txn_view t))"
    and new_view: "txn_view (b_newTransaction B db) = db_view db"
    and get_found: "b_get B t k = Inr item \<Longrightarrow> k \<in> dom (txn_view t)"
    and get_value: "b_get B t k = Inr (Inr v) \<Longrightarrow> txn_view t k = Some v"
    and get_missing: "b_get B t k = Inl e \<Longrightarrow> errors_is e (BadgerError BadgerErrKeyNotFound) \<Longrightarrow>
      txn_view t k = None"
    and set_view: "b_set B t k v = Inr t' \<Longrightarrow> txn_view t' = (txn_view t)(k \<mapsto> v)"
    and delete_view: "b_delete B t k = Inr t' \<Longrightarrow> txn_view t' = (txn_view t)(k := None)"
    and commit_done: "b_commit B t db = (None, db') \<Longrightarrow> db_view db' = txn_view t"
    and commit_failed: "b_commit B t db = (Some e, db') \<Longrightarrow> db_view db' = db_view db"
    and seek_keys: "keys (b_seek B t False k) = sorted_list_of_set {x \<in> dom (txn_view t). k \<le> x}"
    and seek_keys_reverse:
      "keys (b_seek B t True k) = rev (sorted_list_of_set {x \<in> dom (txn_view t). x \<le> k})"
    and seek_value: "(x, Inr v) \<in> set (b_seek B t r k) \<Longrightarrow> txn_view t x = Some v"
begin

lemma Update_failed: "Update B db f = (Inl e, db') \<Longrightarrow> db_view db' = db_view db"
  by (auto simp: Update_def commit_failed split: sum.splits prod.splits option.splits)

lemma Update_done:
  assumes "Update B db f = (Inr a, db')"
  obtains t where "f (b_newTransaction B db) = Inr (a, t)" "db_view db' = txn_view t"
  using assms by (auto simp: Update_def commit_done split: sum.splits prod.splits option.splits)

lemma seek_sorted: "sorted (keys (b_seek B t False k))"
  by (simp add: seek_keys)

lemma seek_set: "set (keys (b_seek B t False k)) = {x \<in> dom (txn_view t). k \<le> x}"
  using view_finite [of t] by (simp add: seek_keys)

lemma seek_ge: "x \<in> set (keys (b_seek B t False k)) \<Longrightarrow> k \<le> x"
  unfolding seek_set by simp

lemma prefix_scan:
  assumes "p \<le> k"
  shows "takeWhile (has_prefix p) (keys (b_seek B t False k)) =
    sorted_list_of_set {x \<in> dom (txn_view t). has_prefix p x \<and> k \<le> x}"
proof -
  let ?ks = "keys (b_seek B t False k)"
  have "takeWhile (has_prefix p) ?ks = filter (has_prefix p) ?ks"
    using assms
    by (intro takeWhile_prefix_eq_filter seek_sorted ballI) (blast dest: seek_ge intro: order_trans)
  also have "\<dots> = sorted_list_of_set (set (filter (has_prefix p) ?ks))"
    by (rule sorted_list_of_set.idem_if_sorted_distinct [symmetric])
      (simp_all add: seek_keys sorted_filter [where f = id, simplified])
  also have "set (filter (has_prefix p) ?ks) = {x \<in> dom (txn_view t). has_prefix p x \<and> k \<le> x}"
    using seek_set [of t k] by auto
  finally show ?thesis .
qed

end

locale badger_reliable = badger_store +
  assumes get_total: "b_get B t k =
      (case txn_view t k of None \<Rightarrow> Inl (BadgerError BadgerErrKeyNotFound) | Some v \<Rightarrow> Inr (Inr v))"
    and set_total: "\<exists>t'. b_set B t k v = Inr t'"
    and delete_total: "\<exists>t'. b_delete B t k = Inr t'"
    and commit_total: "\<exists>db'. b_commit B t db = (None, db')"
    and seek_total: "item \<in> set (b_seek B t r k) \<Longrightarrow> \<exists>x v. item = (x, Inr v)"
begin

lemma set_ok: obtains t' where "b_set B t k v = Inr t'" "txn_view t' = (txn_view t)(k \<mapsto> v)"
  using set_total set_view by blast

lemma delete_ok: obtains t' where "b_delete B t k = Inr t'" "txn_view t' = (txn_view t)(k := None)"
  using delete_total delete_view by blast

lemma Update_ok:
  assumes "f (b_newTransaction B db) = Inr (a, t)"
  obtains db' where "Update B db f = (Inr a, db')" "db_view db' = txn_view t"
proof -
  from commit_total obtain db' where c: "b_commit B t db = (None, db')" by blast
  with assms have "Update B db f = (Inr a, db')" by (simp add: Update_def)
  with c show thesis by (intro that) (auto dest: commit_done)
qed

end

section \<open>A database of association lists\<close>

type_synonym kv = "(bytes \<times> bytes) list"

definition mem_seek :: "kv \<Rightarrow> bool \<Rightarrow> bytes \<Rightarrow> iterator" where
  "mem_seek t r k =
     map (\<lambda>x. (x, Inr (the (map_of t x))))
       (if r then rev (sort (remdups (filter (\<lambda>x. x \<le> k) (keys t))))
        else sort (remdups (filter (\<lambda>x. k \<le> x) (keys t))))"

definition mem_badger :: "(kv, kv) badger" where
  "mem_badger =
     \<lparr>b_newTransaction = (\<lambda>db. db),
      b_commit = (\<lambda>t db. (None, t)),
      b_get = (\<lambda>t k. case map_of t k of None \<Rightarrow> Inl (BadgerError BadgerErrKeyNotFound) | Some v \<Rightarrow> Inr (Inr v)),
      b_set = (\<lambda>t k v. Inr (AList.update k v t)),
      b_delete = (\<lambda>t k. Inr (AList.delete k t)),
      b_seek = mem_seek\<rparr>"

lemma mem_range: "{x \<in> dom (map_of t). P x} = set (filter P (keys t))"
  by (auto simp: dom_map_of_conv_image_fst)

lemma mem_sorted:
  "sorted_list_of_set {x \<in> dom (map_of t). P x} = sort (remdups (filter P (keys t)))"
  by (simp only: mem_range sorted_list_of_set_sort_remdups)

interpretation mem: badger_reliable mem_badger map_of map_of
proof
  fix t :: kv and k v t' item e db db' r x
  show "finite (dom (map_of t))" by (rule finite_dom_map_of)
  show "b_get mem_badger t k = Inr item \<Longrightarrow> k \<in> dom (map_of t)"
    by (auto simp: mem_badger_def split: option.splits)
  show "b_set mem_badger t k v = Inr t' \<Longrightarrow> map_of t' = (map_of t)(k \<mapsto> v)"
    by (auto simp: mem_badger_def update_conv')
  show "b_delete mem_badger t k = Inr t' \<Longrightarrow> map_of t' = (map_of t)(k := None)"
    by (auto simp: mem_badger_def delete_conv')
  show "keys (b_seek mem_badger t False k) = sorted_list_of_set {x \<in> dom (map_of t). k \<le> x}"
    by (simp add: mem_badger_def mem_seek_def mem_sorted comp_def del: dom_map_of_conv_image_fst)
  show "keys (b_seek mem_badger t True k) = rev (sorted_list_of_set {x \<in> dom (map_of t). x \<le> k})"
    by (simp add: mem_badger_def mem_seek_def mem_sorted comp_def del: dom_map_of_conv_image_fst)
  show "(x, Inr v) \<in> set (b_seek mem_badger t r k) \<Longrightarrow> map_of t x = Some v"
    by (auto simp: mem_badger_def mem_seek_def dest: weak_map_of_SomeI split: if_splits)
  show "item \<in> set (b_seek mem_badger t r k) \<Longrightarrow> \<exists>x v. item = (x, Inr v)" for item
    by (auto simp: mem_badger_def mem_seek_def split: if_splits)
qed (auto simp: mem_badger_def split: option.splits)

declare mem_badger_def [eval_simps] mem_seek_def [eval_simps] Update_def [eval_simps] View_def [eval_simps]

end
