(* ===== verification/Envelope.thy ===== *)
theory Envelope
  imports Wire
begin

text \<open>
  \<open>src/internal/store/envelope.go\<close>: the versioned binary envelopes of pending and dead-letter
  records. The reader methods of \<open>envelopeReader\<close> return the value and the remaining data, or
  \<open>None\<close> where the Go method reports \<open>false\<close> (every caller then returns at once, so the state
  of a failed reader is never observed). Times are stored as \<open>uint64(UnixNano())\<close>, which is the
  instant modulo \<open>2 ^ 64\<close>, and read back as \<open>time.Unix(0, int64(created))\<close>.

  The theory ends with the contract \<open>envelope_codec\<close> that the store relies on, interpreted for
  both envelope kinds.
\<close>

definition schemaVersion :: byte where "schemaVersion = 1"
definition envelopeVersion :: byte where "envelopeVersion = 1"
definition pendingHeader :: nat where "pendingHeader = 1 + 8 + 8 + 4 + 8"
definition deadHeader :: nat where "deadHeader = 1 + 8 + 8 + 8 + 4 + 8 + 4"

record pendingEnvelope =
  pe_CreatedAt :: time
  pe_OriginStream :: bytes
  pe_OriginSeq :: u64
  pe_Payload :: bytes

record deadEnvelope =
  de_CreatedAt :: time
  de_DeadLetteredAt :: time
  de_OriginStream :: bytes
  de_OriginSeq :: u64
  de_Payload :: bytes
  de_Reason :: bytes

definition UnixNano :: "time \<Rightarrow> u64" where
  "UnixNano t = word_of_int t"

definition time_Unix0 :: "u64 \<Rightarrow> time" where
  "time_Unix0 w = sint w"

section \<open>Encoding\<close>

definition encodePending :: "pendingEnvelope \<Rightarrow> gerror + bytes" where
  "encodePending value =
     (if unat MaxUint32 < length (pe_OriginStream value) \<or> unat MaxUint32 < length (pe_Payload value)
      then Inl (EnvelopeError ErrValueTooLarge)
      else
        let out = [envelopeVersion];
            out = AppendUint64 out (UnixNano (pe_CreatedAt value));
            out = AppendUint64 out (pe_OriginSeq value);
            out = AppendUint32 out (word_of_nat (length (pe_OriginStream value)));
            out = out @ pe_OriginStream value;
            out = AppendUint64 out (word_of_nat (length (pe_Payload value)));
            out = out @ pe_Payload value
        in Inr out)"

definition encodeDead :: "deadEnvelope \<Rightarrow> gerror + bytes" where
  "encodeDead value =
     (if unat MaxUint32 < length (de_OriginStream value) \<or> unat MaxUint32 < length (de_Payload value)
         \<or> unat MaxUint32 < length (de_Reason value)
      then Inl (EnvelopeError ErrValueTooLarge)
      else
        let out = [envelopeVersion];
            out = AppendUint64 out (UnixNano (de_CreatedAt value));
            out = AppendUint64 out (UnixNano (de_DeadLetteredAt value));
            out = AppendUint64 out (de_OriginSeq value);
            out = AppendUint32 out (word_of_nat (length (de_OriginStream value)));
            out = out @ de_OriginStream value;
            out = AppendUint64 out (word_of_nat (length (de_Payload value)));
            out = out @ de_Payload value;
            out = AppendUint32 out (word_of_nat (length (de_Reason value)));
            out = out @ de_Reason value
        in Inr out)"

section \<open>Reading\<close>

definition reader_uint64 :: "bytes \<Rightarrow> (u64 \<times> bytes) option" where
  "reader_uint64 data =
     (if length data < 8 then None else Some (Uint64 (take 8 data), drop 8 data))"

definition reader_string32 :: "bytes \<Rightarrow> (bytes \<times> bytes) option" where
  "reader_string32 data =
     (if length data < 4 then None
      else let len = Uint32 (take 4 data); data = drop 4 data
           in if length data < unat len then None
              else Some (take (unat len) data, drop (unat len) data))"

definition reader_bytes64 :: "bytes \<Rightarrow> (bytes \<times> bytes) option" where
  "reader_bytes64 data =
     (case reader_uint64 data of
        None \<Rightarrow> None
      | Some (len, data) \<Rightarrow>
          if length data < unat len then None
          else Some (take (unat len) data, drop (unat len) data))"

definition decodePending :: "bytes \<Rightarrow> gerror + pendingEnvelope" where
  "decodePending data =
     (case data of
        [] \<Rightarrow> Inl (EnvelopeError ErrCorruptEnvelope)
      | version # data \<Rightarrow>
          if version \<noteq> envelopeVersion then Inl (Errorf [EnvelopeError ErrUnsupportedEnvelope])
          else case reader_uint64 data of
            None \<Rightarrow> Inl (EnvelopeError ErrCorruptEnvelope)
          | Some (created, data) \<Rightarrow>
          (case reader_uint64 data of
            None \<Rightarrow> Inl (EnvelopeError ErrCorruptEnvelope)
          | Some (originSeq, data) \<Rightarrow>
          (case reader_string32 data of
            None \<Rightarrow> Inl (EnvelopeError ErrCorruptEnvelope)
          | Some (origin, data) \<Rightarrow>
          (case reader_bytes64 data of
            None \<Rightarrow> Inl (EnvelopeError ErrCorruptEnvelope)
          | Some (payload, data) \<Rightarrow>
              if data \<noteq> [] then Inl (EnvelopeError ErrCorruptEnvelope)
              else Inr \<lparr>pe_CreatedAt = time_Unix0 created, pe_OriginStream = origin,
                        pe_OriginSeq = originSeq, pe_Payload = payload\<rparr>))))"

definition decodeDead :: "bytes \<Rightarrow> gerror + deadEnvelope" where
  "decodeDead data =
     (case data of
        [] \<Rightarrow> Inl (EnvelopeError ErrCorruptEnvelope)
      | version # data \<Rightarrow>
          if version \<noteq> envelopeVersion then Inl (Errorf [EnvelopeError ErrUnsupportedEnvelope])
          else case reader_uint64 data of
            None \<Rightarrow> Inl (EnvelopeError ErrCorruptEnvelope)
          | Some (created, data) \<Rightarrow>
          (case reader_uint64 data of
            None \<Rightarrow> Inl (EnvelopeError ErrCorruptEnvelope)
          | Some (deadAt, data) \<Rightarrow>
          (case reader_uint64 data of
            None \<Rightarrow> Inl (EnvelopeError ErrCorruptEnvelope)
          | Some (originSeq, data) \<Rightarrow>
          (case reader_string32 data of
            None \<Rightarrow> Inl (EnvelopeError ErrCorruptEnvelope)
          | Some (origin, data) \<Rightarrow>
          (case reader_bytes64 data of
            None \<Rightarrow> Inl (EnvelopeError ErrCorruptEnvelope)
          | Some (payload, data) \<Rightarrow>
          (case reader_string32 data of
            None \<Rightarrow> Inl (EnvelopeError ErrCorruptEnvelope)
          | Some (reason, data) \<Rightarrow>
              if data \<noteq> [] then Inl (EnvelopeError ErrCorruptEnvelope)
              else Inr \<lparr>de_CreatedAt = time_Unix0 created, de_DeadLetteredAt = time_Unix0 deadAt,
                        de_OriginStream = origin, de_OriginSeq = originSeq,
                        de_Payload = payload, de_Reason = reason\<rparr>))))))"

section \<open>The fields as prefix-free codecs\<close>

definition put_uint64 :: "u64 \<Rightarrow> bytes" where
  "put_uint64 v = AppendUint64 [] v"

definition put_string32 :: "bytes \<Rightarrow> bytes" where
  "put_string32 s = AppendUint32 [] (word_of_nat (length s)) @ s"

definition put_bytes64 :: "bytes \<Rightarrow> bytes" where
  "put_bytes64 s = AppendUint64 [] (word_of_nat (length s)) @ s"

interpretation u64_field: wire_field put_uint64 reader_uint64 "\<lambda>_. True"
proof
  fix v :: u64 and rest
  show "reader_uint64 (put_uint64 v @ rest) = Some (v, rest)"
    using Uint64_append [of v "[]"]
    by (simp add: reader_uint64_def put_uint64_def AppendUint64_def)
next
  fix bs v rest
  assume "reader_uint64 bs = Some (v, rest)"
  then show "True \<and> bs = put_uint64 v @ rest"
    by (auto simp: reader_uint64_def put_uint64_def AppendUint64_def be_nat_Uint64 split: if_splits)
qed

interpretation str32_field: wire_field put_string32 reader_string32 "\<lambda>s. length s < 2 ^ 32"
proof
  fix s :: bytes and rest
  assume "length s < 2 ^ 32"
  then have "unat (word_of_nat (length s) :: u32) = length s"
    by (simp add: unat_of_nat)
  moreover have "Uint32 (be_nat 4 (unat (word_of_nat (length s) :: u32))) = word_of_nat (length s)"
    using Uint32_append [of "word_of_nat (length s)" "[]"] by simp
  ultimately show "reader_string32 (put_string32 s @ rest) = Some (s, rest)"
    by (simp add: reader_string32_def put_string32_def AppendUint32_def Let_def)
next
  fix bs s rest
  assume a: "reader_string32 bs = Some (s, rest)"
  define len where "len = Uint32 (take 4 bs)"
  from a have ln: "4 \<le> length bs" "unat len \<le> length bs - 4"
    and s: "s = take (unat len) (drop 4 bs)" "rest = drop (unat len) (drop 4 bs)"
    by (auto simp: reader_string32_def Let_def len_def split: if_splits)
  from ln s(1) have "length s = unat len" by simp
  then have "word_of_nat (length s) = len" "length s < 2 ^ 32"
    using unsigned_less [of len, where ?'a = nat] by simp_all
  moreover have "be_nat 4 (unat len) = take 4 bs"
    using be_nat_Uint32 [of "take 4 bs"] ln by (simp add: len_def)
  moreover have "bs = take 4 bs @ s @ rest"
    unfolding s by (simp only: append_take_drop_id)
  ultimately show "length s < 2 ^ 32 \<and> bs = put_string32 s @ rest"
    by (simp add: put_string32_def AppendUint32_def)
qed

interpretation bytes64_field: wire_field put_bytes64 reader_bytes64 "\<lambda>s. length s < 2 ^ 64"
proof
  fix s :: bytes and rest
  assume "length s < 2 ^ 64"
  then have "unat (word_of_nat (length s) :: u64) = length s"
    by (simp add: unat_of_nat)
  moreover have "reader_uint64 (put_uint64 (word_of_nat (length s)) @ s @ rest)
      = Some (word_of_nat (length s), s @ rest)"
    by (rule u64_field.get_put) simp
  ultimately show "reader_bytes64 (put_bytes64 s @ rest) = Some (s, rest)"
    by (simp add: reader_bytes64_def put_bytes64_def put_uint64_def)
next
  fix bs s rest
  assume "reader_bytes64 bs = Some (s, rest)"
  then obtain len data where sz: "reader_uint64 bs = Some (len, data)" "unat len \<le> length data"
    and s: "s = take (unat len) data" "rest = drop (unat len) data"
    by (auto simp: reader_bytes64_def split: option.splits if_splits prod.splits)
  then have "length s = unat len" by simp
  then have "word_of_nat (length s) = len" "length s < 2 ^ 64"
    using unsigned_less [of len, where ?'a = nat] by simp_all
  moreover have "bs = put_uint64 len @ data"
    using u64_field.put_get [OF sz(1)] by simp
  ultimately show "length s < 2 ^ 64 \<and> bs = put_bytes64 s @ rest"
    using s by (simp add: put_bytes64_def put_uint64_def)
qed

lemmas field_get_put = u64_field.get_put [OF TrueI] str32_field.get_put bytes64_field.get_put
lemmas field_get_iff = u64_field.get_iff str32_field.get_iff bytes64_field.get_iff

lemma put_uint64_eq: "put_uint64 v @ r = put_uint64 w @ s \<longleftrightarrow> v = w \<and> r = s"
  using u64_field.put_inj [of v r w s] by auto

lemma put_uint64_eq0: "put_uint64 v = put_uint64 w \<longleftrightarrow> v = w"
  using put_uint64_eq [where r = "[]" and s = "[]"] by simp

lemma put_string32_eq:
  "length v < 2 ^ 32 \<Longrightarrow> length w < 2 ^ 32 \<Longrightarrow>
     put_string32 v @ r = put_string32 w @ s \<longleftrightarrow> v = w \<and> r = s"
  using str32_field.put_inj [of v w r s] by auto

lemma put_bytes64_eq:
  "length v < 2 ^ 64 \<Longrightarrow> length w < 2 ^ 64 \<Longrightarrow>
     put_bytes64 v @ r = put_bytes64 w @ s \<longleftrightarrow> v = w \<and> r = s"
  using bytes64_field.put_inj [of v w r s] by auto

lemmas field_inj = put_uint64_eq put_uint64_eq0 put_string32_eq put_bytes64_eq
  put_string32_eq [where s = "[]", simplified] put_bytes64_eq [where s = "[]", simplified]

section \<open>What the two codecs promise\<close>

text \<open>
  \<open>norm\<close> is the value a decoder gives back: the instants reduced to the range of \<open>UnixNano\<close>.
  \<open>small\<close> is the size limit of the format.
\<close>

locale envelope_codec =
  fixes enc :: "'e \<Rightarrow> gerror + bytes"
    and dec :: "bytes \<Rightarrow> gerror + 'e"
    and norm :: "'e \<Rightarrow> 'e"
    and small :: "'e \<Rightarrow> bool"
  assumes enc_small: "isl (enc e) \<longleftrightarrow> \<not> small e"
    and dec_enc: "enc e = Inr bs \<Longrightarrow> dec bs = Inr (norm e)"
    and enc_dec: "dec bs = Inr e \<Longrightarrow> small e \<Longrightarrow> enc e = Inr bs"
    and dec_norm: "dec bs = Inr e \<Longrightarrow> norm e = e"
    and dec_append: "dec bs = Inr e \<Longrightarrow> dec (bs @ x) = Inr e' \<Longrightarrow> x = []"
    and dec_errors: "dec bs = Inl err \<Longrightarrow>
      errors_is err (EnvelopeError ErrCorruptEnvelope) \<or> errors_is err (EnvelopeError ErrUnsupportedEnvelope)"
begin

lemma enc_total: "small e \<Longrightarrow> \<exists>bs. enc e = Inr bs \<and> dec bs = Inr (norm e)"
  using enc_small [of e] dec_enc [of e] by (cases "enc e") auto

lemma enc_ok_iff: "(\<exists>bs. enc e = Inr bs) \<longleftrightarrow> small e"
  using enc_small [of e] by (cases "enc e") auto

lemma enc_inj: "enc e = Inr bs \<Longrightarrow> enc e' = Inr bs \<Longrightarrow> norm e = norm e'"
  by (metis dec_enc sum.inject(2))

lemma norm_idem: "small e \<Longrightarrow> norm (norm e) = norm e"
  using enc_total dec_norm by blast

lemma reencode: "dec bs = Inr e \<Longrightarrow> enc e = Inr bs' \<Longrightarrow> dec bs' = Inr e"
  by (simp add: dec_enc dec_norm)

end

definition small_pending :: "pendingEnvelope \<Rightarrow> bool" where
  "small_pending e \<longleftrightarrow> length (pe_OriginStream e) < 2 ^ 32 \<and> length (pe_Payload e) < 2 ^ 32"

definition small_dead :: "deadEnvelope \<Rightarrow> bool" where
  "small_dead e \<longleftrightarrow> length (de_OriginStream e) < 2 ^ 32 \<and> length (de_Payload e) < 2 ^ 32
     \<and> length (de_Reason e) < 2 ^ 32"

definition norm_time :: "time \<Rightarrow> time" where
  "norm_time t = time_Unix0 (UnixNano t)"

definition norm_pending :: "pendingEnvelope \<Rightarrow> pendingEnvelope" where
  "norm_pending e = e\<lparr>pe_CreatedAt := norm_time (pe_CreatedAt e)\<rparr>"

definition norm_dead :: "deadEnvelope \<Rightarrow> deadEnvelope" where
  "norm_dead e = e\<lparr>de_CreatedAt := norm_time (de_CreatedAt e),
                   de_DeadLetteredAt := norm_time (de_DeadLetteredAt e)\<rparr>"

lemma UnixNano_time_Unix0 [simp]: "UnixNano (time_Unix0 w) = w"
  by (simp add: UnixNano_def time_Unix0_def)

lemma norm_time_Unix0 [simp]: "norm_time (time_Unix0 w) = time_Unix0 w"
  by (simp add: norm_time_def)

lemma norm_time_id: "in_int t \<Longrightarrow> norm_time t = t"
  by (simp add: norm_time_def UnixNano_def time_Unix0_def in_int_def sint_sbintrunc'
      signed_take_bit_int_eq_self)

lemma norm_time_range: "in_int (norm_time t)"
  using sint_ge [of "UnixNano t"] sint_lt [of "UnixNano t"] by (simp add: norm_time_def time_Unix0_def in_int_def)

lemma encodePending_eq:
  "encodePending e =
     (if small_pending e
      then Inr (envelopeVersion # put_uint64 (UnixNano (pe_CreatedAt e)) @ put_uint64 (pe_OriginSeq e)
                @ put_string32 (pe_OriginStream e) @ put_bytes64 (pe_Payload e))
      else Inl (EnvelopeError ErrValueTooLarge))"
  by (auto simp: encodePending_def small_pending_def Let_def AppendUint64_def AppendUint32_def
      put_uint64_def put_string32_def put_bytes64_def)

lemma encodeDead_eq:
  "encodeDead e =
     (if small_dead e
      then Inr (envelopeVersion # put_uint64 (UnixNano (de_CreatedAt e))
                @ put_uint64 (UnixNano (de_DeadLetteredAt e)) @ put_uint64 (de_OriginSeq e)
                @ put_string32 (de_OriginStream e) @ put_bytes64 (de_Payload e) @ put_string32 (de_Reason e))
      else Inl (EnvelopeError ErrValueTooLarge))"
  by (auto simp: encodeDead_def small_dead_def Let_def AppendUint64_def AppendUint32_def
      put_uint64_def put_string32_def put_bytes64_def)

lemma decodePending_iff:
  "decodePending bs = Inr e \<longleftrightarrow>
     (\<exists>c. bs = envelopeVersion # put_uint64 c @ put_uint64 (pe_OriginSeq e)
            @ put_string32 (pe_OriginStream e) @ put_bytes64 (pe_Payload e)
        \<and> pe_CreatedAt e = time_Unix0 c
        \<and> length (pe_OriginStream e) < 2 ^ 32 \<and> length (pe_Payload e) < 2 ^ 64)"
proof
  assume "decodePending bs = Inr e"
  then show "\<exists>c. bs = envelopeVersion # put_uint64 c @ put_uint64 (pe_OriginSeq e)
            @ put_string32 (pe_OriginStream e) @ put_bytes64 (pe_Payload e)
        \<and> pe_CreatedAt e = time_Unix0 c
        \<and> length (pe_OriginStream e) < 2 ^ 32 \<and> length (pe_Payload e) < 2 ^ 64"
    by (auto simp: decodePending_def field_get_iff field_inj split: list.splits if_splits option.splits)
next
  assume "\<exists>c. bs = envelopeVersion # put_uint64 c @ put_uint64 (pe_OriginSeq e)
            @ put_string32 (pe_OriginStream e) @ put_bytes64 (pe_Payload e)
        \<and> pe_CreatedAt e = time_Unix0 c
        \<and> length (pe_OriginStream e) < 2 ^ 32 \<and> length (pe_Payload e) < 2 ^ 64"
  then show "decodePending bs = Inr e"
    using bytes64_field.get_put [of "pe_Payload e" "[]"]
    by (auto simp: decodePending_def field_get_put)
qed

lemma decodeDead_iff:
  "decodeDead bs = Inr e \<longleftrightarrow>
     (\<exists>c d. bs = envelopeVersion # put_uint64 c @ put_uint64 d @ put_uint64 (de_OriginSeq e)
            @ put_string32 (de_OriginStream e) @ put_bytes64 (de_Payload e) @ put_string32 (de_Reason e)
        \<and> de_CreatedAt e = time_Unix0 c \<and> de_DeadLetteredAt e = time_Unix0 d
        \<and> length (de_OriginStream e) < 2 ^ 32 \<and> length (de_Payload e) < 2 ^ 64
        \<and> length (de_Reason e) < 2 ^ 32)"
    (is "?l \<longleftrightarrow> ?r")
proof
  assume ?l
  then show ?r
    by (auto simp: decodeDead_def field_get_iff field_inj split: list.splits if_splits option.splits)
next
  assume ?r
  then show ?l
    using str32_field.get_put [of "de_Reason e" "[]"]
    by (auto simp: decodeDead_def field_get_put)
qed

text \<open>A field list parses in one way only, so a decodable envelope is no proper prefix of another.\<close>

lemma decodePending_append:
  "decodePending bs = Inr e \<Longrightarrow> decodePending (bs @ x) = Inr e' \<Longrightarrow> x = []"
  unfolding decodePending_iff
  by (auto simp: field_inj)

lemma decodeDead_append:
  "decodeDead bs = Inr e \<Longrightarrow> decodeDead (bs @ x) = Inr e' \<Longrightarrow> x = []"
  unfolding decodeDead_iff
  by (auto simp: field_inj)

lemma decodePending_errors:
  "decodePending bs = Inl err \<Longrightarrow>
     errors_is err (EnvelopeError ErrCorruptEnvelope) \<or> errors_is err (EnvelopeError ErrUnsupportedEnvelope)"
  by (auto simp: decodePending_def split: list.splits if_splits option.splits prod.splits)

lemma decodeDead_errors:
  "decodeDead bs = Inl err \<Longrightarrow>
     errors_is err (EnvelopeError ErrCorruptEnvelope) \<or> errors_is err (EnvelopeError ErrUnsupportedEnvelope)"
  by (auto simp: decodeDead_def split: list.splits if_splits option.splits prod.splits)

interpretation pending_codec: envelope_codec encodePending decodePending norm_pending small_pending
proof
  show "isl (encodePending e) \<longleftrightarrow> \<not> small_pending e" for e
    by (simp add: encodePending_eq)
  show "decodePending bs = Inr (norm_pending e)" if "encodePending e = Inr bs" for e bs
    using that by (auto simp: encodePending_eq decodePending_iff norm_pending_def norm_time_def
        small_pending_def split: if_splits)
  show "encodePending e = Inr bs" if "decodePending bs = Inr e" "small_pending e" for e bs
    using that by (auto simp: encodePending_eq decodePending_iff)
  show "norm_pending e = e" if "decodePending bs = Inr e" for e bs
    using that by (auto simp: decodePending_iff norm_pending_def)
qed (fact decodePending_append decodePending_errors)+

interpretation dead_codec: envelope_codec encodeDead decodeDead norm_dead small_dead
proof
  show "isl (encodeDead e) \<longleftrightarrow> \<not> small_dead e" for e
    by (simp add: encodeDead_eq)
  show "decodeDead bs = Inr (norm_dead e)" if "encodeDead e = Inr bs" for e bs
    using that by (auto simp: encodeDead_eq decodeDead_iff norm_dead_def norm_time_def
        small_dead_def split: if_splits)
  show "encodeDead e = Inr bs" if "decodeDead bs = Inr e" "small_dead e" for e bs
    using that by (auto simp: encodeDead_eq decodeDead_iff)
  show "norm_dead e = e" if "decodeDead bs = Inr e" for e bs
    using that by (auto simp: decodeDead_iff norm_dead_def)
qed (fact decodeDead_append decodeDead_errors)+

declare schemaVersion_def [eval_simps] envelopeVersion_def [eval_simps] UnixNano_def [eval_simps]
  encodePending_def [eval_simps] encodeDead_def [eval_simps]

end
