(* ===== verification/Store.thy ===== *)
theory Store
  imports Badger Envelope
begin

text \<open>
  \<open>src/internal/store/store.go\<close>: the persistence layer. A \<open>stream\<close> is the process handle of one
  named queue; the Badger database is threaded through the operations. \<open>s_beforeCommit\<close> is the
  failure-injection hook of the Go type, run at the end of each transaction.

  \<open>qstate\<close> is what a stream durably is: a tail, the pending and the dead-letter records. The
  theory \<open>Store_Refinement\<close> shows that the operations below implement the obvious operations
  on \<open>qstate\<close>.
\<close>

section \<open>Data\<close>

definition maxBatchValueSize :: int where "maxBatchValueSize = 32 * 2 ^ 20"

record store_record =
  r_Seq :: u64
  r_CreatedAt :: time
  r_OriginStream :: bytes
  r_OriginSeq :: u64
  r_Payload :: bytes

record dead_record =
  d_Seq :: u64
  d_CreatedAt :: time
  d_DeadLetteredAt :: time
  d_OriginStream :: bytes
  d_OriginSeq :: u64
  d_Payload :: bytes
  d_Reason :: bytes

record counts =
  c_Tail :: u64
  c_Pending :: u64
  c_DeadLetter :: u64
  c_OldestSeq :: u64
  c_OldestTime :: time

record stream =
  s_name :: bytes
  s_tail :: u64
  s_beforeCommit :: "(bytes \<Rightarrow> gerror option) option"

definition zeroTime :: time where
  "zeroTime = - 62135596800 * 10 ^ 9"

definition beforeCommit :: "stream \<Rightarrow> bytes \<Rightarrow> gerror option" where
  "beforeCommit s operation = (case s_beforeCommit s of None \<Rightarrow> None | Some f \<Rightarrow> f operation)"

text \<open>The end of each transaction function: \<open>return s.beforeCommit(op)\<close> or \<open>return nil\<close>.\<close>

definition finish_txn :: "stream \<Rightarrow> bytes \<Rightarrow> 'a \<Rightarrow> 'txn \<Rightarrow> gerror + 'a \<times> 'txn" where
  "finish_txn s operation a t =
     (case beforeCommit s operation of Some e \<Rightarrow> Inl e | None \<Rightarrow> Inr (a, t))"

section \<open>Opening a stream\<close>

definition maxStoredSequence :: "('db, 'txn) badger \<Rightarrow> 'txn \<Rightarrow> bytes \<Rightarrow> gerror + u64 option" where
  "maxStoredSequence B txn prefix =
     (let iterator = b_seek B txn True (sequenceKey prefix MaxUint64)
      in if \<not> ValidForPrefix prefix iterator then Inr None
         else case parseSequence prefix (fst (hd iterator)) of
                None \<Rightarrow> Inl (EnvelopeError ErrCorruptEnvelope)
              | Some seq \<Rightarrow> Inr (Some seq))"

definition currentSequence :: "iterator \<Rightarrow> bytes \<Rightarrow> gerror + u64 option" where
  "currentSequence iterator prefix =
     (if \<not> ValidForPrefix prefix iterator then Inr None
      else case parseSequence prefix (fst (hd iterator)) of
             None \<Rightarrow> Inl (EnvelopeError ErrCorruptEnvelope)
           | Some seq \<Rightarrow> Inr (Some seq))"

lemma currentSequence_None: "currentSequence it p = Inr None \<longleftrightarrow> \<not> ValidForPrefix p it"
  by (auto simp: currentSequence_def split: option.splits)

lemma ValidForPrefix_nonempty: "ValidForPrefix p it \<Longrightarrow> it \<noteq> []"
  by auto

function validate_merge :: "bytes \<Rightarrow> bytes \<Rightarrow> iterator \<Rightarrow> iterator \<Rightarrow> gerror + unit" where
  "validate_merge pendingKeys deadKeys pending dead =
     (if ValidForPrefix pendingKeys pending \<or> ValidForPrefix deadKeys dead
      then gbind (currentSequence pending pendingKeys) (\<lambda>pendingSeq.
           gbind (currentSequence dead deadKeys) (\<lambda>deadSeq.
             case (pendingSeq, deadSeq) of
               (None, _) \<Rightarrow> validate_merge pendingKeys deadKeys pending (tl dead)
             | (Some p, None) \<Rightarrow> validate_merge pendingKeys deadKeys (tl pending) dead
             | (Some p, Some d) \<Rightarrow>
                 if p = d then Inl (Errorf [StoreError StoreErrStateConflict])
                 else if p < d then validate_merge pendingKeys deadKeys (tl pending) dead
                 else validate_merge pendingKeys deadKeys pending (tl dead)))
      else Inr ())"
  by pat_completeness auto
termination
proof (relation "measure (\<lambda>(pk, dk, p, d). length p + length d)", goal_cases)
  case 1
  show ?case by simp
qed (auto simp: currentSequence_def dest: ValidForPrefix_nonempty split: if_splits option.splits)

declare validate_merge.simps [simp del]

definition validateStoredStates :: "('db, 'txn) badger \<Rightarrow> 'txn \<Rightarrow> bytes \<Rightarrow> gerror + unit" where
  "validateStoredStates B txn stream =
     validate_merge (pendingPrefix stream) (deadPrefix stream)
       (b_seek B txn False (pendingPrefix stream)) (b_seek B txn False (deadPrefix stream))"

definition load_schema :: "('db, 'txn) badger \<Rightarrow> 'txn \<Rightarrow> bytes \<Rightarrow> gerror + 'txn" where
  "load_schema B txn name =
     (case b_get B txn (metaKey name schemaMetaKey) of
        Inl err \<Rightarrow>
          if errors_is err (BadgerError BadgerErrKeyNotFound)
          then b_set B txn (metaKey name schemaMetaKey) [schemaVersion]
          else Inl err
      | Inr item \<Rightarrow>
          gbind item (\<lambda>value.
            if length value \<noteq> 1 \<or> hd value \<noteq> schemaVersion
            then Inl (Errorf [StoreError StoreErrUnsupportedSchema]) else Inr txn))"

text \<open>The durable tail, and whether its key was found.\<close>

definition load_tail :: "('db, 'txn) badger \<Rightarrow> 'txn \<Rightarrow> bytes \<Rightarrow> gerror + u64 \<times> bool" where
  "load_tail B txn name =
     (case b_get B txn (metaKey name tailMetaKey) of
        Inl err \<Rightarrow>
          if errors_is err (BadgerError BadgerErrKeyNotFound) then Inr (0, False) else Inl err
      | Inr item \<Rightarrow>
          gbind item (\<lambda>value.
            if length value \<noteq> seqLen then Inl (Errorf [EnvelopeError ErrCorruptEnvelope])
            else Inr (Uint64 value, True)))"

fun check_tail :: "('db, 'txn) badger \<Rightarrow> 'txn \<Rightarrow> u64 \<Rightarrow> bool \<Rightarrow> bytes list \<Rightarrow> gerror + unit" where
  "check_tail B txn tail tailFound [] = Inr ()"
| "check_tail B txn tail tailFound (prefix # prefixes) =
     gbind (maxStoredSequence B txn prefix) (\<lambda>found.
       case found of
         Some maximum \<Rightarrow>
           if \<not> tailFound \<or> tail < maximum then Inl (Errorf [StoreError StoreErrTailRegression])
           else check_tail B txn tail tailFound prefixes
       | None \<Rightarrow> check_tail B txn tail tailFound prefixes)"

definition load_txn :: "('db, 'txn) badger \<Rightarrow> bytes \<Rightarrow> 'txn \<Rightarrow> gerror + u64 \<times> 'txn" where
  "load_txn B name txn =
     gbind (load_schema B txn name) (\<lambda>txn.
     gbind (load_tail B txn name) (\<lambda>(tail, tailFound).
     gbind (check_tail B txn tail tailFound [pendingPrefix name, deadPrefix name]) (\<lambda>_.
     gbind (validateStoredStates B txn name) (\<lambda>_.
       Inr (tail, txn)))))"

definition load :: "('db, 'txn) badger \<Rightarrow> bytes \<Rightarrow> 'db \<Rightarrow> (gerror + u64) \<times> 'db" where
  "load B name db = Update B db (load_txn B name)"

section \<open>Appending\<close>

fun exceedsBatchLimit :: "int \<Rightarrow> bytes list \<Rightarrow> bool" where
  "exceedsBatchLimit totalSize [] = False"
| "exceedsBatchLimit totalSize (payload # payloads) =
     (if maxBatchValueSize - totalSize < int (length payload) then True
      else exceedsBatchLimit (totalSize + int (length payload)) payloads)"

fun encodeBatch :: "u64 \<Rightarrow> time \<Rightarrow> nat \<Rightarrow> bytes list \<Rightarrow> gerror + (store_record \<times> bytes) list" where
  "encodeBatch tail now index [] = Inr []"
| "encodeBatch tail now index (payload # payloads) =
     gbind (encodePending \<lparr>pe_CreatedAt = now, pe_OriginStream = [], pe_OriginSeq = 0,
                           pe_Payload = payload\<rparr>) (\<lambda>value.
     gbind (encodeBatch tail now (Suc index) payloads) (\<lambda>rest.
       Inr ((\<lparr>r_Seq = tail + word_of_nat index + 1, r_CreatedAt = now, r_OriginStream = [],
              r_OriginSeq = 0, r_Payload = payload\<rparr>, value) # rest)))"

fun setBatch :: "('db, 'txn) badger \<Rightarrow> bytes \<Rightarrow> (store_record \<times> bytes) list \<Rightarrow> 'txn \<Rightarrow> gerror + 'txn" where
  "setBatch B name [] txn = Inr txn"
| "setBatch B name ((record, encoded) # rest) txn =
     gbind (b_set B txn (pendingKey name (r_Seq record)) encoded) (setBatch B name rest)"

definition append_txn ::
  "('db, 'txn) badger \<Rightarrow> stream \<Rightarrow> (store_record \<times> bytes) list \<Rightarrow> u64 \<Rightarrow> 'txn \<Rightarrow> gerror + unit \<times> 'txn" where
  "append_txn B s batch newTail txn =
     gbind (setBatch B (s_name s) batch txn) (\<lambda>txn.
     gbind (b_set B txn (metaKey (s_name s) tailMetaKey) (AppendUint64 [] newTail)) (\<lambda>txn.
       finish_txn s (str ''append'') () txn))"

definition AppendBatch ::
  "('db, 'txn) badger \<Rightarrow> stream \<Rightarrow> 'db \<Rightarrow> bytes list \<Rightarrow> time \<Rightarrow> (gerror + store_record list) \<times> stream \<times> 'db" where
  "AppendBatch B s db payloads now =
     (if payloads = [] then (Inr [], s, db)
      else if MaxUint64 - s_tail s < word_of_nat (length payloads)
      then (Inl (StoreError StoreErrSeqExhausted), s, db)
      else if exceedsBatchLimit 0 payloads then (Inl (StoreError StoreErrBatchTooLarge), s, db)
      else case encodeBatch (s_tail s) now 0 payloads of
        Inl err \<Rightarrow> (Inl err, s, db)
      | Inr batch \<Rightarrow>
          let newTail = r_Seq (fst (last batch))
          in case Update B db (append_txn B s batch newTail) of
               (Inl err, db') \<Rightarrow>
                 ((if errors_is err (BadgerError BadgerErrTxnTooBig)
                   then Inl (Errorf [StoreError StoreErrBatchTooLarge]) else Inl (Errorf [err])), s, db')
             | (Inr _, db') \<Rightarrow> (Inr (map fst batch), s\<lparr>s_tail := newTail\<rparr>, db'))"

definition Append ::
  "('db, 'txn) badger \<Rightarrow> stream \<Rightarrow> 'db \<Rightarrow> bytes \<Rightarrow> time \<Rightarrow> (gerror + store_record) \<times> stream \<times> 'db" where
  "Append B s db payload now =
     (case AppendBatch B s db [payload] now of
        (Inl err, s', db') \<Rightarrow> (Inl err, s', db')
      | (Inr records, s', db') \<Rightarrow> (Inr (records ! 0), s', db'))"

section \<open>Scanning\<close>

text \<open>One iteration either ends the loop or appends a record, so the loop recurses on the
  number of records still wanted.\<close>

fun scan_loop :: "bytes \<Rightarrow> nat \<Rightarrow> iterator \<Rightarrow> gerror + store_record list" where
  "scan_loop prefix 0 iterator = Inr []"
| "scan_loop prefix (Suc n) iterator =
     (if \<not> ValidForPrefix prefix iterator then Inr []
      else case parseSequence prefix (fst (hd iterator)) of
             None \<Rightarrow> Inl (EnvelopeError ErrCorruptEnvelope)
           | Some seq \<Rightarrow>
               gbind (snd (hd iterator)) (\<lambda>value.
               case decodePending value of
                 Inl err \<Rightarrow> Inl (Errorf [err])
               | Inr envelope \<Rightarrow>
                   gbind (scan_loop prefix n (tl iterator)) (\<lambda>records.
                     Inr (\<lparr>r_Seq = seq, r_CreatedAt = pe_CreatedAt envelope,
                           r_OriginStream = pe_OriginStream envelope,
                           r_OriginSeq = pe_OriginSeq envelope,
                           r_Payload = pe_Payload envelope\<rparr> # records))))"

definition ScanBatch ::
  "('db, 'txn) badger \<Rightarrow> bytes \<Rightarrow> 'db \<Rightarrow> u64 \<Rightarrow> int \<Rightarrow> gerror + store_record list" where
  "ScanBatch B name db from limit =
     (if limit \<le> 0 then Inl (StoreError StoreErrInvalidBatchSize)
      else View B db (\<lambda>txn.
        scan_loop (pendingPrefix name) (nat limit) (b_seek B txn False (pendingKey name from))))"

section \<open>Completing\<close>

fun commit_txn :: "('db, 'txn) badger \<Rightarrow> bytes \<Rightarrow> u64 list \<Rightarrow> 'txn \<Rightarrow> gerror + 'txn" where
  "commit_txn B name [] txn = Inr txn"
| "commit_txn B name (seq # seqs) txn =
     (case b_get B txn (pendingKey name seq) of
        Inl err \<Rightarrow>
          if errors_is err (BadgerError BadgerErrKeyNotFound)
          then Inl (Errorf [StoreError StoreErrNotFound]) else Inl err
      | Inr _ \<Rightarrow> gbind (b_delete B txn (pendingKey name seq)) (commit_txn B name seqs))"

definition Commit ::
  "('db, 'txn) badger \<Rightarrow> stream \<Rightarrow> u64 list \<Rightarrow> 'db \<Rightarrow> gerror option \<times> 'db" where
  "Commit B s seqs db =
     (if seqs = [] then (None, db)
      else case Update B db (\<lambda>txn. gbind (commit_txn B (s_name s) seqs txn)
                                    (finish_txn s (str ''commit'') ())) of
        (Inl err, db') \<Rightarrow>
          (Some (if errors_is err (BadgerError BadgerErrTxnTooBig)
                 then Errorf [StoreError StoreErrBatchTooLarge] else err), db')
      | (Inr _, db') \<Rightarrow> (None, db'))"

definition deadletter_txn ::
  "('db, 'txn) badger \<Rightarrow> stream \<Rightarrow> u64 \<Rightarrow> bytes \<Rightarrow> time \<Rightarrow> 'txn \<Rightarrow> gerror + unit \<times> 'txn" where
  "deadletter_txn B s seq reason now txn =
     (case b_get B txn (pendingKey (s_name s) seq) of
        Inl err \<Rightarrow>
          if errors_is err (BadgerError BadgerErrKeyNotFound)
          then Inl (Errorf [StoreError StoreErrNotFound]) else Inl err
      | Inr item \<Rightarrow>
     (case b_get B txn (deadKey (s_name s) seq) of
        Inr _ \<Rightarrow> Inl (Errorf [StoreError StoreErrStateConflict])
      | Inl err \<Rightarrow>
          if \<not> errors_is err (BadgerError BadgerErrKeyNotFound) then Inl err
          else
            gbind item (\<lambda>value.
            gbind (decodePending value) (\<lambda>pending.
              let (originStream, originSeq) =
                    (if pe_OriginStream pending = [] then (s_name s, seq)
                     else (pe_OriginStream pending, pe_OriginSeq pending))
              in
              gbind (encodeDead \<lparr>de_CreatedAt = pe_CreatedAt pending, de_DeadLetteredAt = now,
                                 de_OriginStream = originStream, de_OriginSeq = originSeq,
                                 de_Payload = pe_Payload pending, de_Reason = reason\<rparr>) (\<lambda>dead.
              gbind (b_set B txn (deadKey (s_name s) seq) dead) (\<lambda>txn.
              gbind (b_delete B txn (pendingKey (s_name s) seq)) (\<lambda>txn.
                finish_txn s (str ''dead-letter'') () txn)))))))"

definition DeadLetter ::
  "('db, 'txn) badger \<Rightarrow> stream \<Rightarrow> u64 \<Rightarrow> bytes \<Rightarrow> time \<Rightarrow> 'db \<Rightarrow> gerror option \<times> 'db" where
  "DeadLetter B s seq reason now db =
     (case Update B db (deadletter_txn B s seq reason now) of
        (Inl err, db') \<Rightarrow> (Some err, db')
      | (Inr _, db') \<Rightarrow> (None, db'))"

definition requeue_txn ::
  "('db, 'txn) badger \<Rightarrow> stream \<Rightarrow> u64 \<Rightarrow> u64 \<Rightarrow> 'txn \<Rightarrow> gerror + store_record \<times> 'txn" where
  "requeue_txn B s seq newSeq txn =
     (case b_get B txn (deadKey (s_name s) seq) of
        Inl err \<Rightarrow>
          if errors_is err (BadgerError BadgerErrKeyNotFound)
          then Inl (Errorf [StoreError StoreErrNotFound]) else Inl err
      | Inr item \<Rightarrow>
          gbind item (\<lambda>value.
          gbind (decodeDead value) (\<lambda>dead.
            let pending = \<lparr>pe_CreatedAt = de_CreatedAt dead, pe_OriginStream = de_OriginStream dead,
                           pe_OriginSeq = de_OriginSeq dead, pe_Payload = de_Payload dead\<rparr>
            in
            gbind (encodePending pending) (\<lambda>encoded.
            gbind (b_set B txn (pendingKey (s_name s) newSeq) encoded) (\<lambda>txn.
            gbind (b_set B txn (metaKey (s_name s) tailMetaKey) (AppendUint64 [] newSeq)) (\<lambda>txn.
            gbind (b_delete B txn (deadKey (s_name s) seq)) (\<lambda>txn.
              finish_txn s (str ''requeue'')
                \<lparr>r_Seq = newSeq, r_CreatedAt = pe_CreatedAt pending,
                 r_OriginStream = pe_OriginStream pending, r_OriginSeq = pe_OriginSeq pending,
                 r_Payload = pe_Payload pending\<rparr> txn)))))))"

definition Requeue ::
  "('db, 'txn) badger \<Rightarrow> stream \<Rightarrow> u64 \<Rightarrow> 'db \<Rightarrow> (gerror + store_record) \<times> stream \<times> 'db" where
  "Requeue B s seq db =
     (if s_tail s = MaxUint64 then (Inl (StoreError StoreErrSeqExhausted), s, db)
      else let newSeq = s_tail s + 1
           in case Update B db (requeue_txn B s seq newSeq) of
                (Inl err, db') \<Rightarrow> (Inl err, s, db')
              | (Inr result, db') \<Rightarrow> (Inr result, s\<lparr>s_tail := newSeq\<rparr>, db'))"

section \<open>Inspecting\<close>

fun deadletters_loop :: "bytes \<Rightarrow> nat \<Rightarrow> iterator \<Rightarrow> gerror + dead_record list" where
  "deadletters_loop prefix 0 iterator = Inr []"
| "deadletters_loop prefix (Suc n) iterator =
     (if \<not> ValidForPrefix prefix iterator then Inr []
      else case parseSequence prefix (fst (hd iterator)) of
             None \<Rightarrow> Inl (EnvelopeError ErrCorruptEnvelope)
           | Some seq \<Rightarrow>
               gbind (snd (hd iterator)) (\<lambda>value.
               case decodeDead value of
                 Inl err \<Rightarrow> Inl (Errorf [err])
               | Inr envelope \<Rightarrow>
                   gbind (deadletters_loop prefix n (tl iterator)) (\<lambda>records.
                     Inr (\<lparr>d_Seq = seq, d_CreatedAt = de_CreatedAt envelope,
                           d_DeadLetteredAt = de_DeadLetteredAt envelope,
                           d_OriginStream = de_OriginStream envelope,
                           d_OriginSeq = de_OriginSeq envelope,
                           d_Payload = de_Payload envelope, d_Reason = de_Reason envelope\<rparr> # records))))"

definition DeadLetters ::
  "('db, 'txn) badger \<Rightarrow> bytes \<Rightarrow> 'db \<Rightarrow> u64 \<Rightarrow> int \<Rightarrow> gerror + dead_record list" where
  "DeadLetters B name db from limit =
     (if limit \<le> 0 then Inl (StoreError StoreErrInvalidBatchSize)
      else View B db (\<lambda>txn.
        deadletters_loop (deadPrefix name) (nat limit) (b_seek B txn False (deadKey name from))))"

text \<open>The two counting loops of \<open>Counts\<close>: over the pending prefix, where the first record also
  sets the oldest sequence and time, and over the dead-letter prefix.\<close>

fun count_pending :: "bytes \<Rightarrow> iterator \<Rightarrow> counts \<Rightarrow> gerror + counts" where
  "count_pending prefix [] c = Inr c"
| "count_pending prefix ((key, item) # iterator) c =
     (if \<not> has_prefix prefix key then Inr c
      else let c = c\<lparr>c_Pending := c_Pending c + 1\<rparr>
           in if c_OldestSeq c = 0
              then case parseSequence prefix key of
                     None \<Rightarrow> Inl (EnvelopeError ErrCorruptEnvelope)
                   | Some seq \<Rightarrow>
                       gbind item (\<lambda>value.
                       gbind (decodePending value) (\<lambda>envelope.
                         count_pending prefix iterator
                           (c\<lparr>c_OldestSeq := seq, c_OldestTime := pe_CreatedAt envelope\<rparr>)))
              else count_pending prefix iterator c)"

fun count_dead :: "bytes \<Rightarrow> iterator \<Rightarrow> counts \<Rightarrow> counts" where
  "count_dead prefix [] c = c"
| "count_dead prefix ((key, item) # iterator) c =
     (if \<not> has_prefix prefix key then c
      else count_dead prefix iterator (c\<lparr>c_DeadLetter := c_DeadLetter c + 1\<rparr>))"

definition Counts :: "('db, 'txn) badger \<Rightarrow> stream \<Rightarrow> 'db \<Rightarrow> gerror + counts" where
  "Counts B s db =
     View B db (\<lambda>txn.
       gbind (count_pending (pendingPrefix (s_name s)) (b_seek B txn False (pendingPrefix (s_name s)))
                \<lparr>c_Tail = s_tail s, c_Pending = 0, c_DeadLetter = 0, c_OldestSeq = 0,
                 c_OldestTime = zeroTime\<rparr>) (\<lambda>c.
         Inr (count_dead (deadPrefix (s_name s)) (b_seek B txn False (deadPrefix (s_name s))) c)))"

section \<open>The storage root\<close>

record 'db root =
  ro_db :: 'db
  ro_closed :: bool
  ro_streams :: "(bytes \<times> stream) list"

definition Root_Stream :: "('db, 'txn) badger \<Rightarrow> bytes \<Rightarrow> 'db root \<Rightarrow> (gerror + stream) \<times> 'db root" where
  "Root_Stream B name r =
     (case ValidateStreamName name of
        Some err \<Rightarrow> (Inl err, r)
      | None \<Rightarrow>
          if ro_closed r then (Inl (StoreError StoreErrClosed), r)
          else case map_of (ro_streams r) name of
            Some stream \<Rightarrow> (Inr stream, r)
          | None \<Rightarrow>
              (case load B name (ro_db r) of
                 (Inl err, db') \<Rightarrow> (Inl err, r\<lparr>ro_db := db'\<rparr>)
               | (Inr tail, db') \<Rightarrow>
                   let stream = \<lparr>s_name = name, s_tail = tail, s_beforeCommit = None\<rparr>
                   in (Inr stream, r\<lparr>ro_db := db',
                                     ro_streams := AList.update name stream (ro_streams r)\<rparr>)))"

declare maxBatchValueSize_def [eval_simps] beforeCommit_def [eval_simps] finish_txn_def [eval_simps]
  append_txn_def [eval_simps] AppendBatch_def [eval_simps] Append_def [eval_simps]
  ScanBatch_def [eval_simps] Commit_def [eval_simps] deadletter_txn_def [eval_simps]
  DeadLetter_def [eval_simps] requeue_txn_def [eval_simps] Requeue_def [eval_simps]

lemmas loop_numeral [eval_simps] =
  scan_loop.simps(2) [of _ "pred_numeral k" for k, folded numeral_eq_Suc]
  deadletters_loop.simps(2) [of _ "pred_numeral k" for k, folded numeral_eq_Suc]

end
