(* ===== verification/Store_Refinement.thy ===== *)
theory Store_Refinement
  imports Store
begin

text \<open>
  The contract of the persistence layer. \<open>qstate\<close> is the durable state of one stream as its
  users see it; \<open>abs_stream\<close> reads it off the database. \<open>stream_wf\<close> is the representation
  invariant: every key under the stream's prefixes is a sequence key between 1 and the tail
  with a decodable envelope, no sequence is both pending and dead, and the tail key holds the
  tail. Each operation keeps \<open>stream_wf\<close>, implements the operation of the same name on
  \<open>qstate\<close> when it succeeds, and changes nothing when it fails; other streams are never touched.
\<close>

section \<open>The abstract queue\<close>

record qstate =
  q_tail :: u64
  q_pending :: "u64 \<rightharpoonup> pendingEnvelope"
  q_dead :: "u64 \<rightharpoonup> deadEnvelope"

definition fresh_envelope :: "time \<Rightarrow> bytes \<Rightarrow> pendingEnvelope" where
  "fresh_envelope now payload =
     \<lparr>pe_CreatedAt = norm_time now, pe_OriginStream = [], pe_OriginSeq = 0, pe_Payload = payload\<rparr>"

text \<open>The sequences \<open>tail + 1, tail + 2, \<dots>\<close> that an append of \<open>n\<close> records assigns.\<close>

definition next_seqs :: "u64 \<Rightarrow> nat \<Rightarrow> u64 list" where
  "next_seqs tail n = map (\<lambda>i. tail + word_of_nat i + 1) [0..<n]"

definition q_append :: "time \<Rightarrow> bytes list \<Rightarrow> qstate \<Rightarrow> qstate" where
  "q_append now payloads q =
     q\<lparr>q_tail := q_tail q + word_of_nat (length payloads),
       q_pending := q_pending q ++
         map_of (zip (next_seqs (q_tail q) (length payloads)) (map (fresh_envelope now) payloads))\<rparr>"

definition q_commit :: "u64 list \<Rightarrow> qstate \<Rightarrow> qstate" where
  "q_commit seqs q = q\<lparr>q_pending := q_pending q |` (- set seqs)\<rparr>"

definition dead_of :: "bytes \<Rightarrow> u64 \<Rightarrow> bytes \<Rightarrow> time \<Rightarrow> pendingEnvelope \<Rightarrow> deadEnvelope" where
  "dead_of name seq reason now e =
     \<lparr>de_CreatedAt = pe_CreatedAt e, de_DeadLetteredAt = norm_time now,
      de_OriginStream = (if pe_OriginStream e = [] then name else pe_OriginStream e),
      de_OriginSeq = (if pe_OriginStream e = [] then seq else pe_OriginSeq e),
      de_Payload = pe_Payload e, de_Reason = reason\<rparr>"

definition q_deadletter :: "bytes \<Rightarrow> u64 \<Rightarrow> bytes \<Rightarrow> time \<Rightarrow> qstate \<Rightarrow> qstate" where
  "q_deadletter name seq reason now q =
     (case q_pending q seq of
        None \<Rightarrow> q
      | Some e \<Rightarrow> q\<lparr>q_pending := (q_pending q)(seq := None),
                    q_dead := (q_dead q)(seq \<mapsto> dead_of name seq reason now e)\<rparr>)"

definition pending_of :: "deadEnvelope \<Rightarrow> pendingEnvelope" where
  "pending_of d =
     \<lparr>pe_CreatedAt = de_CreatedAt d, pe_OriginStream = de_OriginStream d,
      pe_OriginSeq = de_OriginSeq d, pe_Payload = de_Payload d\<rparr>"

definition q_requeue :: "u64 \<Rightarrow> qstate \<Rightarrow> qstate" where
  "q_requeue seq q =
     (case q_dead q seq of
        None \<Rightarrow> q
      | Some d \<Rightarrow> q\<lparr>q_tail := q_tail q + 1,
                    q_pending := (q_pending q)(q_tail q + 1 \<mapsto> pending_of d),
                    q_dead := (q_dead q)(seq := None)\<rparr>)"

definition record_of :: "u64 \<Rightarrow> pendingEnvelope \<Rightarrow> store_record" where
  "record_of seq e =
     \<lparr>r_Seq = seq, r_CreatedAt = pe_CreatedAt e, r_OriginStream = pe_OriginStream e,
      r_OriginSeq = pe_OriginSeq e, r_Payload = pe_Payload e\<rparr>"

definition dead_record_of :: "u64 \<Rightarrow> deadEnvelope \<Rightarrow> dead_record" where
  "dead_record_of seq d =
     \<lparr>d_Seq = seq, d_CreatedAt = de_CreatedAt d, d_DeadLetteredAt = de_DeadLetteredAt d,
      d_OriginStream = de_OriginStream d, d_OriginSeq = de_OriginSeq d, d_Payload = de_Payload d,
      d_Reason = de_Reason d\<rparr>"

section \<open>Abstraction and invariant\<close>

definition pend :: "(bytes \<rightharpoonup> bytes) \<Rightarrow> bytes \<Rightarrow> u64 \<rightharpoonup> pendingEnvelope" where
  "pend v n seq =
     (case v (pendingKey n seq) of
        None \<Rightarrow> None
      | Some bs \<Rightarrow> (case decodePending bs of Inl _ \<Rightarrow> None | Inr e \<Rightarrow> Some e))"

definition dlet :: "(bytes \<rightharpoonup> bytes) \<Rightarrow> bytes \<Rightarrow> u64 \<rightharpoonup> deadEnvelope" where
  "dlet v n seq =
     (case v (deadKey n seq) of
        None \<Rightarrow> None
      | Some bs \<Rightarrow> (case decodeDead bs of Inl _ \<Rightarrow> None | Inr e \<Rightarrow> Some e))"

definition abs_stream :: "(bytes \<rightharpoonup> bytes) \<Rightarrow> stream \<Rightarrow> qstate" where
  "abs_stream v s = \<lparr>q_tail = s_tail s, q_pending = pend v (s_name s), q_dead = dlet v (s_name s)\<rparr>"

definition pending_wf :: "(bytes \<rightharpoonup> bytes) \<Rightarrow> bytes \<Rightarrow> u64 \<Rightarrow> bool" where
  "pending_wf v n tail \<longleftrightarrow>
     (\<forall>k bs. v k = Some bs \<longrightarrow> has_prefix (pendingPrefix n) k \<longrightarrow>
        (\<exists>seq e. k = pendingKey n seq \<and> 0 < seq \<and> seq \<le> tail \<and> decodePending bs = Inr e))"

definition dead_wf :: "(bytes \<rightharpoonup> bytes) \<Rightarrow> bytes \<Rightarrow> u64 \<Rightarrow> bool" where
  "dead_wf v n tail \<longleftrightarrow>
     (\<forall>k bs. v k = Some bs \<longrightarrow> has_prefix (deadPrefix n) k \<longrightarrow>
        (\<exists>seq e. k = deadKey n seq \<and> 0 < seq \<and> seq \<le> tail \<and> decodeDead bs = Inr e))"

definition states_disjoint :: "(bytes \<rightharpoonup> bytes) \<Rightarrow> bytes \<Rightarrow> bool" where
  "states_disjoint v n \<longleftrightarrow> (\<forall>seq. v (pendingKey n seq) = None \<or> v (deadKey n seq) = None)"

definition tail_wf :: "(bytes \<rightharpoonup> bytes) \<Rightarrow> bytes \<Rightarrow> u64 \<Rightarrow> bool" where
  "tail_wf v n tail \<longleftrightarrow>
     v (metaKey n tailMetaKey) = Some (be_nat 8 (unat tail))
     \<or> v (metaKey n tailMetaKey) = None \<and> tail = 0"

definition stream_wf :: "(bytes \<rightharpoonup> bytes) \<Rightarrow> stream \<Rightarrow> bool" where
  "stream_wf v s \<longleftrightarrow>
     valid_name (s_name s) \<and> pending_wf v (s_name s) (s_tail s) \<and> dead_wf v (s_name s) (s_tail s)
     \<and> states_disjoint v (s_name s) \<and> tail_wf v (s_name s) (s_tail s)
     \<and> v (metaKey (s_name s) schemaMetaKey) = Some [schemaVersion]"

text \<open>A key belongs to a stream when it lies under one of its three prefixes.\<close>

definition owned_by :: "bytes \<Rightarrow> bytes \<Rightarrow> bool" where
  "owned_by n k \<longleftrightarrow> (\<exists>seq. k = pendingKey n seq) \<or> (\<exists>seq. k = deadKey n seq) \<or> (\<exists>m. k = metaKey n m)"

definition same_elsewhere :: "bytes \<Rightarrow> (bytes \<rightharpoonup> bytes) \<Rightarrow> (bytes \<rightharpoonup> bytes) \<Rightarrow> bool" where
  "same_elsewhere n v v' \<longleftrightarrow> (\<forall>k. \<not> owned_by n k \<longrightarrow> v' k = v k)"

section \<open>What a successful operation does\<close>

text \<open>What a successful append did: \<open>s'\<close> and \<open>v'\<close> against the handle and view before.\<close>

definition append_effect ::
  "stream \<Rightarrow> (bytes \<rightharpoonup> bytes) \<Rightarrow> bytes list \<Rightarrow> time \<Rightarrow> store_record list \<Rightarrow> stream \<Rightarrow> (bytes \<rightharpoonup> bytes) \<Rightarrow> bool" where
  "append_effect s v ps now recs s' v' \<longleftrightarrow>
     stream_wf v' s' \<and> abs_stream v' s' = q_append now ps (abs_stream v s)
     \<and> map r_Seq recs = next_seqs (s_tail s) (length ps) \<and> map r_Payload recs = ps
     \<and> same_elsewhere (s_name s) v v' \<and> unat (s_tail s) + length ps < 2 ^ 64
     \<and> s' = s\<lparr>s_tail := s_tail s + word_of_nat (length ps)\<rparr>"

definition commit_effect :: "stream \<Rightarrow> (bytes \<rightharpoonup> bytes) \<Rightarrow> u64 list \<Rightarrow> (bytes \<rightharpoonup> bytes) \<Rightarrow> bool" where
  "commit_effect s v seqs v' \<longleftrightarrow>
     stream_wf v' s \<and> abs_stream v' s = q_commit seqs (abs_stream v s)
     \<and> distinct seqs \<and> set seqs \<subseteq> dom (q_pending (abs_stream v s))
     \<and> same_elsewhere (s_name s) v v'"

definition deadletter_effect ::
  "stream \<Rightarrow> (bytes \<rightharpoonup> bytes) \<Rightarrow> u64 \<Rightarrow> bytes \<Rightarrow> time \<Rightarrow> (bytes \<rightharpoonup> bytes) \<Rightarrow> bool" where
  "deadletter_effect s v seq reason now v' \<longleftrightarrow>
     stream_wf v' s \<and> abs_stream v' s = q_deadletter (s_name s) seq reason now (abs_stream v s)
     \<and> seq \<in> dom (q_pending (abs_stream v s)) \<and> seq \<notin> dom (q_dead (abs_stream v s))
     \<and> same_elsewhere (s_name s) v v'"

definition requeue_effect ::
  "stream \<Rightarrow> (bytes \<rightharpoonup> bytes) \<Rightarrow> u64 \<Rightarrow> store_record \<Rightarrow> stream \<Rightarrow> (bytes \<rightharpoonup> bytes) \<Rightarrow> bool" where
  "requeue_effect s v seq record s' v' \<longleftrightarrow>
     stream_wf v' s' \<and> abs_stream v' s' = q_requeue seq (abs_stream v s)
     \<and> s' = s\<lparr>s_tail := s_tail s + 1\<rparr> \<and> s_tail s \<noteq> MaxUint64
     \<and> (\<exists>d. q_dead (abs_stream v s) seq = Some d \<and> record = record_of (s_tail s + 1) (pending_of d))
     \<and> same_elsewhere (s_name s) v v'"

section \<open>Lookups after updates\<close>

lemma key_distinct [simp]:
  assumes "valid_name n"
  shows "pendingKey n a \<noteq> deadKey n b" "deadKey n b \<noteq> pendingKey n a"
    "pendingKey n a \<noteq> metaKey n m" "metaKey n m \<noteq> pendingKey n a"
    "deadKey n a \<noteq> metaKey n m" "metaKey n m \<noteq> deadKey n a"
  using assms pending_dead_key [of n n a b] pending_keys.key_not_meta [of n n a m]
    dead_keys.key_not_meta [of n n a m]
  by (auto simp: pendingKey_def deadKey_def)

lemma pendingKey_inj [simp]: "pendingKey n a = pendingKey n b \<longleftrightarrow> a = b"
  by (simp add: pendingKey_def)

lemma deadKey_inj [simp]: "deadKey n a = deadKey n b \<longleftrightarrow> a = b"
  by (simp add: deadKey_def)

lemma metaKey_inj_same [simp]: "metaKey n a = metaKey n b \<longleftrightarrow> a = b"
  by (simp add: metaKey_eq)

lemma prefix_pendingKey [simp]: "has_prefix (pendingPrefix n) (pendingKey n a)"
  by (simp add: pendingKey_def)

lemma prefix_deadKey [simp]: "has_prefix (deadPrefix n) (deadKey n a)"
  by (simp add: deadKey_def)

lemma foreign_prefix [simp]:
  assumes "valid_name n"
  shows "\<not> has_prefix (pendingPrefix n) (deadKey n a)" "\<not> has_prefix (deadPrefix n) (pendingKey n a)"
    "\<not> has_prefix (pendingPrefix n) (metaKey n m)" "\<not> has_prefix (deadPrefix n) (metaKey n m)"
  using assms pending_dead_disjoint [of n n "deadKey n a"] pending_dead_disjoint [of n n "pendingKey n a"]
    pending_keys.no_meta dead_keys.no_meta
  by auto

lemma pend_upd [simp]:
  "pend (v(pendingKey n a := x)) n =
     (pend v n)(a := (case x of None \<Rightarrow> None | Some bs \<Rightarrow> (case decodePending bs of Inl _ \<Rightarrow> None | Inr e \<Rightarrow> Some e)))"
  "valid_name n \<Longrightarrow> pend (v(deadKey n a := x)) n = pend v n"
  "valid_name n \<Longrightarrow> pend (v(metaKey n m := x)) n = pend v n"
  by (auto simp: pend_def fun_eq_iff)

lemma dlet_upd [simp]:
  "dlet (v(deadKey n a := x)) n =
     (dlet v n)(a := (case x of None \<Rightarrow> None | Some bs \<Rightarrow> (case decodeDead bs of Inl _ \<Rightarrow> None | Inr e \<Rightarrow> Some e)))"
  "valid_name n \<Longrightarrow> dlet (v(pendingKey n a := x)) n = dlet v n"
  "valid_name n \<Longrightarrow> dlet (v(metaKey n m := x)) n = dlet v n"
  by (auto simp: dlet_def fun_eq_iff)

lemma owned_by_simps [simp]:
  "owned_by n (pendingKey n a)" "owned_by n (deadKey n a)" "owned_by n (metaKey n m)"
  by (auto simp: owned_by_def)

lemma same_elsewhere_refl [simp]: "same_elsewhere n v v"
  by (simp add: same_elsewhere_def)

lemma same_elsewhere_upd [simp]:
  "owned_by n k \<Longrightarrow> same_elsewhere n v (v'(k := x)) \<longleftrightarrow> same_elsewhere n v v'"
  by (auto simp: same_elsewhere_def)

lemma owned_by_other:
  "valid_name n \<Longrightarrow> valid_name m \<Longrightarrow> n \<noteq> m \<Longrightarrow> owned_by m k \<Longrightarrow> \<not> owned_by n k"
  using pending_keys.key_inj [of n m] dead_keys.key_inj [of n m] metaKey_inj [of n m]
    pending_dead_key [of n m] pending_dead_key [of m n]
    pending_keys.key_not_meta [of n m] pending_keys.key_not_meta [of m n]
    dead_keys.key_not_meta [of n m] dead_keys.key_not_meta [of m n]
  unfolding owned_by_def pendingKey_def deadKey_def by metis

lemma same_elsewhere_abs:
  assumes "same_elsewhere n v v'" "valid_name n" "valid_name (s_name s)" "n \<noteq> s_name s"
  shows "abs_stream v' s = abs_stream v s"
proof -
  have "v' k = v k" if "owned_by (s_name s) k" for k
    using assms owned_by_other [OF assms(2,3,4) that] by (auto simp: same_elsewhere_def)
  then show ?thesis by (simp add: abs_stream_def pend_def dlet_def fun_eq_iff)
qed

lemma pending_wfD: "pending_wf v n tail \<Longrightarrow> v (pendingKey n seq) = Some bs \<Longrightarrow>
    \<exists>e. decodePending bs = Inr e \<and> 0 < seq \<and> seq \<le> tail"
  by (force simp: pending_wf_def)

lemma dead_wfD: "dead_wf v n tail \<Longrightarrow> v (deadKey n seq) = Some bs \<Longrightarrow>
    \<exists>e. decodeDead bs = Inr e \<and> 0 < seq \<and> seq \<le> tail"
  by (force simp: dead_wf_def)

lemma pend_iff:
  "pending_wf v n tail \<Longrightarrow> pend v n seq \<noteq> None \<longleftrightarrow> v (pendingKey n seq) \<noteq> None"
  by (auto simp: pend_def dest!: pending_wfD split: option.splits)

lemma dlet_iff:
  "dead_wf v n tail \<Longrightarrow> dlet v n seq \<noteq> None \<longleftrightarrow> v (deadKey n seq) \<noteq> None"
  by (auto simp: dlet_def dest!: dead_wfD split: option.splits)

section \<open>Keeping the invariant under single updates\<close>

lemma pending_wf_mono: "pending_wf v n t \<Longrightarrow> t \<le> t' \<Longrightarrow> pending_wf v n t'"
  unfolding pending_wf_def by (meson order_trans)

lemma dead_wf_mono: "dead_wf v n t \<Longrightarrow> t \<le> t' \<Longrightarrow> dead_wf v n t'"
  unfolding dead_wf_def by (meson order_trans)

lemma pending_wf_set:
  "pending_wf v n t \<Longrightarrow> 0 < q \<Longrightarrow> q \<le> t \<Longrightarrow> decodePending bs = Inr e \<Longrightarrow>
     pending_wf (v(pendingKey n q \<mapsto> bs)) n t"
  unfolding pending_wf_def by auto

lemma dead_wf_set:
  "dead_wf v n t \<Longrightarrow> 0 < q \<Longrightarrow> q \<le> t \<Longrightarrow> decodeDead bs = Inr e \<Longrightarrow>
     dead_wf (v(deadKey n q \<mapsto> bs)) n t"
  unfolding dead_wf_def by auto

lemma pending_wf_delete: "pending_wf v n t \<Longrightarrow> pending_wf (v(k := None)) n t"
  unfolding pending_wf_def by auto

lemma dead_wf_delete: "dead_wf v n t \<Longrightarrow> dead_wf (v(k := None)) n t"
  unfolding dead_wf_def by auto

lemma pending_wf_other:
  "pending_wf v n t \<Longrightarrow> \<not> has_prefix (pendingPrefix n) k \<Longrightarrow> pending_wf (v(k := x)) n t"
  unfolding pending_wf_def by auto

lemma dead_wf_other:
  "dead_wf v n t \<Longrightarrow> \<not> has_prefix (deadPrefix n) k \<Longrightarrow> dead_wf (v(k := x)) n t"
  unfolding dead_wf_def by auto

lemma states_disjoint_set_pending:
  "valid_name n \<Longrightarrow> states_disjoint v n \<Longrightarrow> v (deadKey n q) = None \<Longrightarrow>
     states_disjoint (v(pendingKey n q := x)) n"
  unfolding states_disjoint_def by auto

lemma states_disjoint_set_dead:
  "valid_name n \<Longrightarrow> states_disjoint v n \<Longrightarrow> v (pendingKey n q) = None \<Longrightarrow>
     states_disjoint (v(deadKey n q := x)) n"
  unfolding states_disjoint_def by auto

lemma states_disjoint_delete: "states_disjoint v n \<Longrightarrow> states_disjoint (v(k := None)) n"
  unfolding states_disjoint_def by auto

lemma states_disjoint_meta:
  "valid_name n \<Longrightarrow> states_disjoint v n \<Longrightarrow> states_disjoint (v(metaKey n m := x)) n"
  unfolding states_disjoint_def by auto

lemmas wf_intros = pending_wf_set dead_wf_set pending_wf_delete dead_wf_delete pending_wf_other
  dead_wf_other states_disjoint_set_pending states_disjoint_set_dead states_disjoint_delete
  states_disjoint_meta

lemma dead_above_tail: "dead_wf v n t \<Longrightarrow> t < q \<Longrightarrow> v (deadKey n q) = None"
  by (rule ccontr) (auto dest!: dead_wfD)

lemma pending_above_tail: "pending_wf v n t \<Longrightarrow> t < q \<Longrightarrow> v (pendingKey n q) = None"
  by (rule ccontr) (auto dest!: pending_wfD)

section \<open>Sequence allocation\<close>

lemma finish_txn_Inr: "finish_txn s op a t = Inr (b, t') \<Longrightarrow> b = a \<and> t' = t"
  by (auto simp: finish_txn_def split: option.splits)

lemma no_overflow:
  assumes "\<not> MaxUint64 - tail < word_of_nat n" "n < 2 ^ 64"
  shows "unat tail + n < 2 ^ 64"
proof -
  have "unat (word_of_nat n :: u64) \<le> unat (MaxUint64 - tail)"
    using assms(1) by (simp only: word_less_nat_alt not_less)
  moreover have "unat (word_of_nat n :: u64) = n"
    using assms(2) by (simp add: unat_of_nat)
  moreover have "unat (MaxUint64 - tail) = 2 ^ 64 - 1 - unat tail"
    by (subst unat_sub) simp_all
  ultimately show ?thesis using unsigned_less [of tail, where ?'a = nat] by simp
qed

lemma unat_next_seq:
  "unat (tail :: u64) + i + 1 < 2 ^ 64 \<Longrightarrow> unat (tail + word_of_nat i + 1) = unat tail + i + 1"
  by (simp add: unat_word_ariths unat_of_nat)

lemma next_seq_gt: "unat (tail :: u64) + i + 1 < 2 ^ 64 \<Longrightarrow> tail < tail + word_of_nat i + 1"
  by (simp add: word_less_nat_alt unat_next_seq)

lemma next_seq_le:
  assumes "unat (tail :: u64) + n < 2 ^ 64" "i < n"
  shows "tail + word_of_nat i + 1 \<le> tail + word_of_nat n"
proof -
  have "unat (tail + word_of_nat n) = unat tail + n"
    using assms by (simp add: unat_word_ariths unat_of_nat)
  with assms unat_next_seq [of tail i] show ?thesis by (simp add: word_le_nat_alt)
qed

lemma set_next_seqs: "seq \<in> set (next_seqs tail n) \<longleftrightarrow> (\<exists>i < n. seq = tail + word_of_nat i + 1)"
  by (auto simp: next_seqs_def)

lemma next_seqs_bounds:
  "unat tail + n < 2 ^ 64 \<Longrightarrow> seq \<in> set (next_seqs tail n) \<Longrightarrow> tail < seq \<and> seq \<le> tail + word_of_nat n"
  by (auto simp: set_next_seqs next_seq_gt next_seq_le)

lemma distinct_next_seqs: "unat tail + n < 2 ^ 64 \<Longrightarrow> distinct (next_seqs tail n)"
  unfolding next_seqs_def distinct_map
proof (intro conjI inj_onI)
  fix i j
  assume b: "unat tail + n < 2 ^ 64" and "i \<in> set [0..<n]" "j \<in> set [0..<n]"
    and eq: "tail + word_of_nat i + 1 = tail + word_of_nat j + 1"
  then have i: "unat tail + i + 1 < 2 ^ 64" and j: "unat tail + j + 1 < 2 ^ 64" by simp_all
  show "i = j"
    using arg_cong [OF eq, of unat] unfolding unat_next_seq [OF i] unat_next_seq [OF j] by simp
qed simp

lemma length_next_seqs [simp]: "length (next_seqs tail n) = n"
  by (simp add: next_seqs_def)

lemma last_next_seqs: "last (next_seqs tail (Suc n)) = tail + word_of_nat (Suc n)"
  by (simp add: next_seqs_def)

section \<open>What an encoded batch is\<close>

lemma encodeBatch_seqs:
  "encodeBatch tail now i ps = Inr batch \<Longrightarrow>
     map (\<lambda>p. r_Seq (fst p)) batch = map (\<lambda>j. tail + word_of_nat j + 1) [i..<i + length ps]"
proof (induction ps arbitrary: i batch)
  case Nil
  then show ?case by simp
next
  case (Cons p ps)
  then show ?case by (auto simp: gbind_Inr_iff upt_conv_Cons simp del: upt_Suc)
qed

lemma encodeBatch_next_seqs:
  "encodeBatch tail now 0 ps = Inr batch \<Longrightarrow> map (\<lambda>p. r_Seq (fst p)) batch = next_seqs tail (length ps)"
  using encodeBatch_seqs [of tail now 0 ps batch] by (simp add: next_seqs_def)

lemma encodeBatch_records:
  "encodeBatch tail now i ps = Inr batch \<Longrightarrow>
     map fst batch = map2 (\<lambda>j p. \<lparr>r_Seq = tail + word_of_nat j + 1, r_CreatedAt = now,
        r_OriginStream = [], r_OriginSeq = 0, r_Payload = p\<rparr>) [i..<i + length ps] ps"
proof (induction ps arbitrary: i batch)
  case Nil
  then show ?case by simp
next
  case (Cons p ps)
  then show ?case by (auto simp: gbind_Inr_iff upt_conv_Cons simp del: upt_Suc)
qed

lemma encodeBatch_decodes:
  "encodeBatch tail now i ps = Inr batch \<Longrightarrow>
     list_all2 (\<lambda>(r, bs) e. decodePending bs = Inr e) batch (map (fresh_envelope now) ps)"
proof (induction ps arbitrary: i batch)
  case Nil
  then show ?case by simp
next
  case (Cons p ps)
  then show ?case
    by (auto simp: gbind_Inr_iff fresh_envelope_def norm_pending_def dest!: pending_codec.dec_enc)
qed

definition batch_view ::
  "bytes \<Rightarrow> (store_record \<times> bytes) list \<Rightarrow> (bytes \<rightharpoonup> bytes) \<Rightarrow> (bytes \<rightharpoonup> bytes)" where
  "batch_view n batch v = fold (\<lambda>(r, bs) v. v(pendingKey n (r_Seq r) \<mapsto> bs)) batch v"

lemma batch_view_simps [simp]:
  "batch_view n [] v = v"
  "batch_view n ((r, bs) # batch) v = batch_view n batch (v(pendingKey n (r_Seq r) \<mapsto> bs))"
  by (simp_all add: batch_view_def)

lemma batch_view_other:
  "k \<notin> pendingKey n ` set (map (\<lambda>p. r_Seq (fst p)) batch) \<Longrightarrow> batch_view n batch v k = v k"
  by (induction batch arbitrary: v) auto

lemma batch_view_in:
  "k \<in> pendingKey n ` set (map (\<lambda>p. r_Seq (fst p)) batch) \<Longrightarrow>
     \<exists>p \<in> set batch. k = pendingKey n (r_Seq (fst p)) \<and> batch_view n batch v k = Some (snd p)"
proof (induction batch arbitrary: v)
  case Nil
  then show ?case by simp
next
  case (Cons p batch)
  obtain r bs where p: "p = (r, bs)" by (cases p)
  show ?case
  proof (cases "k \<in> pendingKey n ` set (map (\<lambda>p. r_Seq (fst p)) batch)")
    case True
    from Cons.IH [OF this] show ?thesis unfolding p batch_view_simps by auto
  next
    case False
    with Cons.prems p have "k = pendingKey n (r_Seq r)" by auto
    with batch_view_other [OF False] show ?thesis unfolding p batch_view_simps by auto
  qed
qed

lemma pend_batch_view:
  assumes "distinct (map (\<lambda>p. r_Seq (fst p)) batch)"
    and "list_all2 (\<lambda>(r, bs) e. decodePending bs = Inr e) batch envs"
  shows "pend (batch_view n batch v) n = pend v n ++ map_of (zip (map (\<lambda>p. r_Seq (fst p)) batch) envs)"
  using assms(2,1)
proof (induction arbitrary: v rule: list_all2_induct)
  case Nil
  then show ?case by simp
next
  case (Cons p batch e envs)
  obtain r bs where p: "p = (r, bs)" by (cases p)
  have new: "r_Seq r \<notin> dom (map_of (zip (map (\<lambda>p. r_Seq (fst p)) batch) envs))"
    using Cons.prems p Cons.hyps(2)
    by (auto simp: dom_map_of_zip list_all2_lengthD)
  have dist: "distinct (map (\<lambda>p. r_Seq (fst p)) batch)" using Cons.prems by simp
  have "pend (batch_view n (p # batch) v) n
      = pend (v(pendingKey n (r_Seq r) \<mapsto> bs)) n ++ map_of (zip (map (\<lambda>p. r_Seq (fst p)) batch) envs)"
    unfolding p batch_view_simps by (rule Cons.IH [OF dist])
  also have "\<dots> = (pend v n ++ map_of (zip (map (\<lambda>p. r_Seq (fst p)) batch) envs))(r_Seq r \<mapsto> e)"
    using Cons.hyps(1) p map_add_upd_left [OF new, of "pend v n" e] by simp
  finally show ?case
    unfolding p by (simp only: list.map zip_Cons_Cons map_of.simps fst_conv snd_conv map_add_upd)
qed

lemma dlet_batch_view: "valid_name n \<Longrightarrow> dlet (batch_view n batch v) n = dlet v n"
  by (induction batch arbitrary: v) auto

lemma same_elsewhere_batch_view: "same_elsewhere n v (batch_view n batch v)"
  by (auto simp: same_elsewhere_def owned_by_def intro: batch_view_other)

lemma batch_wf:
  assumes "valid_name n" "pending_wf v n t" "dead_wf v n t" "states_disjoint v n"
    and "\<And>r bs. (r, bs) \<in> set batch \<Longrightarrow>
      0 < r_Seq r \<and> r_Seq r \<le> t \<and> v (deadKey n (r_Seq r)) = None \<and> (\<exists>e. decodePending bs = Inr e)"
  shows "pending_wf (batch_view n batch v) n t \<and> dead_wf (batch_view n batch v) n t
    \<and> states_disjoint (batch_view n batch v) n"
  using assms
proof (induction batch arbitrary: v)
  case Nil
  then show ?case by simp
next
  case (Cons p batch)
  obtain r bs where p: "p = (r, bs)" by (cases p)
  let ?v = "v(pendingKey n (r_Seq r) \<mapsto> bs)"
  have r: "0 < r_Seq r" "r_Seq r \<le> t" "v (deadKey n (r_Seq r)) = None" "\<exists>e. decodePending bs = Inr e"
    using Cons.prems(5) [of r bs] p by auto
  have "pending_wf ?v n t" "dead_wf ?v n t" "states_disjoint ?v n"
    using Cons.prems(1-4) r by (auto intro: wf_intros)
  moreover have "0 < r_Seq r' \<and> r_Seq r' \<le> t \<and> ?v (deadKey n (r_Seq r')) = None \<and> (\<exists>e. decodePending bs' = Inr e)"
    if "(r', bs') \<in> set batch" for r' bs'
    using Cons.prems(1,5) that by auto
  ultimately show ?case
    unfolding p batch_view_simps by (rule Cons.IH [OF Cons.prems(1)])
qed

end
