(* ===== verification/Store_Correct.thy ===== *)
theory Store_Correct
  imports Store_Refinement
begin

text \<open>
  The operations of \<open>store.go\<close> over any Badger that keeps its promises: each is a refinement of
  the abstract operation on \<open>qstate\<close>, atomic, confined to its own stream, and it keeps
  \<open>stream_wf\<close>.
\<close>

context badger_store
begin

section \<open>Append\<close>

lemma setBatch_view: "setBatch B n batch t = Inr t' \<Longrightarrow> txn_view t' = batch_view n batch (txn_view t)"
proof (induction batch arbitrary: t)
  case Nil
  then show ?case by simp
next
  case (Cons p batch)
  obtain r bs where p: "p = (r, bs)" by (cases p)
  with Cons.prems obtain t1 where t1: "b_set B t (pendingKey n (r_Seq r)) bs = Inr t1"
    "setBatch B n batch t1 = Inr t'"
    by (auto simp: gbind_Inr_iff)
  from Cons.IH [OF t1(2)] show ?case
    unfolding p batch_view_simps set_view [OF t1(1)] .
qed

lemma append_txn_view:
  assumes "append_txn B s batch newTail t = Inr (u, t')"
  shows "txn_view t' = (batch_view (s_name s) batch (txn_view t))
           (metaKey (s_name s) tailMetaKey \<mapsto> be_nat 8 (unat newTail))"
  using assms
  by (auto simp: append_txn_def gbind_Inr_iff AppendUint64_def
      dest!: setBatch_view set_view finish_txn_Inr)

lemma AppendBatch_failed:
  assumes "AppendBatch B s db ps now = (Inl e, s', db')"
  shows "s' = s \<and> db_view db' = db_view db"
  using assms
  by (auto simp: AppendBatch_def Let_def split: if_splits sum.splits prod.splits
      dest!: Update_failed)

lemma AppendBatch_done:
  assumes "AppendBatch B s db ps now = (Inr recs, s', db')" "ps \<noteq> []"
  obtains batch where
    "\<not> MaxUint64 - s_tail s < word_of_nat (length ps)"
    "encodeBatch (s_tail s) now 0 ps = Inr batch"
    "recs = map fst batch" "s' = s\<lparr>s_tail := s_tail s + word_of_nat (length ps)\<rparr>"
    "db_view db' = (batch_view (s_name s) batch (db_view db))
       (metaKey (s_name s) tailMetaKey \<mapsto> be_nat 8 (unat (s_tail s + word_of_nat (length ps))))"
proof -
  from assms obtain batch where g: "\<not> MaxUint64 - s_tail s < word_of_nat (length ps)"
    and enc: "encodeBatch (s_tail s) now 0 ps = Inr batch" and r: "recs = map fst batch"
    and s': "s' = s\<lparr>s_tail := r_Seq (fst (last batch))\<rparr>"
    and u: "Update B db (append_txn B s batch (r_Seq (fst (last batch)))) = (Inr (), db')"
    by (auto simp: AppendBatch_def Let_def split: if_splits sum.splits prod.splits)
  have seqs: "map (\<lambda>p. r_Seq (fst p)) batch = next_seqs (s_tail s) (length ps)"
    using enc by (rule encodeBatch_next_seqs)
  then have "batch \<noteq> []" using assms(2) by (metis length_map length_next_seqs length_0_conv)
  then have "r_Seq (fst (last batch)) = last (next_seqs (s_tail s) (length ps))"
    using seqs by (metis last_map)
  then have tl: "r_Seq (fst (last batch)) = s_tail s + word_of_nat (length ps)"
    using assms(2) last_next_seqs by (cases ps) auto
  from u obtain t where "append_txn B s batch (r_Seq (fst (last batch))) (b_newTransaction B db) = Inr ((), t)"
    "db_view db' = txn_view t"
    by (rule Update_done)
  with append_txn_view have "db_view db' = (batch_view (s_name s) batch (db_view db))
       (metaKey (s_name s) tailMetaKey \<mapsto> be_nat 8 (unat (r_Seq (fst (last batch)))))"
    by (metis new_view)
  with that g enc r s' tl show thesis by simp
qed

lemma append_wf:
  assumes wf: "stream_wf v s" and fits: "unat (s_tail s) + n < 2 ^ 64"
    and seqs: "map (\<lambda>p. r_Seq (fst p)) batch = next_seqs (s_tail s) n"
    and dec: "\<And>r bs. (r, bs) \<in> set batch \<Longrightarrow> \<exists>e. decodePending bs = Inr e"
  shows "stream_wf ((batch_view (s_name s) batch v)
           (metaKey (s_name s) tailMetaKey \<mapsto> be_nat 8 (unat (s_tail s + word_of_nat n))))
         (s\<lparr>s_tail := s_tail s + word_of_nat n\<rparr>)"
proof -
  let ?n = "s_name s" and ?t = "s_tail s"
  let ?t' = "?t + word_of_nat n" and ?v = "batch_view ?n batch v"
  have val: "valid_name ?n" and pw: "pending_wf v ?n ?t" and dw: "dead_wf v ?n ?t"
    and dj: "states_disjoint v ?n" and sc: "v (metaKey ?n schemaMetaKey) = Some [schemaVersion]"
    using wf by (auto simp: stream_wf_def)
  have grow: "?t \<le> ?t'"
    using fits by (simp add: word_le_nat_alt unat_word_ariths unat_of_nat)
  have "0 < r_Seq r \<and> r_Seq r \<le> ?t' \<and> v (deadKey ?n (r_Seq r)) = None \<and> (\<exists>e. decodePending bs = Inr e)"
    if "(r, bs) \<in> set batch" for r bs
  proof -
    have "r_Seq r \<in> set (map (\<lambda>p. r_Seq (fst p)) batch)" using that by force
    with fits seqs have b: "?t < r_Seq r" "r_Seq r \<le> ?t'" using next_seqs_bounds by auto
    then have "0 < r_Seq r" by (meson order_le_less_trans word_zero_le)
    with b dead_above_tail [OF dw b(1)] dec [OF that] show ?thesis by simp
  qed
  with val pending_wf_mono [OF pw grow] dead_wf_mono [OF dw grow] dj
  have b: "pending_wf ?v ?n ?t' \<and> dead_wf ?v ?n ?t' \<and> states_disjoint ?v ?n"
    by (rule batch_wf)
  have "?v (metaKey ?n schemaMetaKey) = v (metaKey ?n schemaMetaKey)"
    using val by (intro batch_view_other) auto
  with b sc val show ?thesis
    by (auto simp: stream_wf_def tail_wf_def intro: wf_intros)
qed


lemma AppendBatch_nonempty:
  assumes wf: "stream_wf (db_view db) s" and len: "length ps < 2 ^ 64" and ne: "ps \<noteq> []"
    and run: "AppendBatch B s db ps now = (Inr recs, s', db')"
  shows "append_effect s (db_view db) ps now recs s' (db_view db')"
proof -
  let ?v = "db_view db" and ?n = "s_name s"
  from AppendBatch_done [OF run ne] obtain batch where
    g: "\<not> MaxUint64 - s_tail s < word_of_nat (length ps)"
    and enc: "encodeBatch (s_tail s) now 0 ps = Inr batch" and r: "recs = map fst batch"
    and s': "s' = s\<lparr>s_tail := s_tail s + word_of_nat (length ps)\<rparr>"
    and v': "db_view db' = (batch_view ?n batch ?v)
       (metaKey ?n tailMetaKey \<mapsto> be_nat 8 (unat (s_tail s + word_of_nat (length ps))))" .
  note fits = no_overflow [OF g len] and seqs = encodeBatch_next_seqs [OF enc]
    and dec = encodeBatch_decodes [OF enc]
  have val: "valid_name ?n" using wf by (simp add: stream_wf_def)
  have "stream_wf (db_view db') s'"
    unfolding v' s'
  proof (rule append_wf [OF wf fits seqs])
    show "\<exists>e. decodePending bs = Inr e" if "(rec, bs) \<in> set batch" for rec bs
      using that dec by (metis (mono_tags, lifting) case_prod_conv in_set_conv_nth list_all2_conv_all_nth)
  qed
  moreover have "pend (db_view db') ?n
      = pend ?v ?n ++ map_of (zip (next_seqs (s_tail s) (length ps)) (map (fresh_envelope now) ps))"
    unfolding v' pend_upd(3) [OF val]
    using pend_batch_view [OF _ dec, of ?n ?v] distinct_next_seqs [OF fits] seqs by simp
  moreover have "dlet (db_view db') ?n = dlet ?v ?n"
    unfolding v' dlet_upd(3) [OF val] by (rule dlet_batch_view [OF val])
  moreover have "map r_Payload recs = ps"
    unfolding r encodeBatch_records [OF enc] by (simp add: comp_def case_prod_beta)
  moreover have "same_elsewhere ?n ?v (db_view db')"
    unfolding v' by (simp add: same_elsewhere_batch_view)
  ultimately show ?thesis
    using fits seqs by (simp add: append_effect_def abs_stream_def q_append_def s' r comp_def)
qed

lemma AppendBatch_refines:
  assumes "stream_wf (db_view db) s" "length ps < 2 ^ 64"
    and "AppendBatch B s db ps now = (Inr recs, s', db')"
  shows "append_effect s (db_view db) ps now recs s' (db_view db')"
proof (cases "ps = []")
  case True
  with assms show ?thesis
    using unsigned_less [of "s_tail s", where ?'a = nat]
    by (simp add: append_effect_def AppendBatch_def q_append_def next_seqs_def)
next
  case False
  with assms show ?thesis by (intro AppendBatch_nonempty)
qed

section \<open>Commit\<close>

lemma commit_txn_view:
  "commit_txn B n seqs t = Inr t' \<Longrightarrow>
     txn_view t' = (\<lambda>k. if k \<in> pendingKey n ` set seqs then None else txn_view t k)
     \<and> distinct seqs \<and> (\<forall>seq \<in> set seqs. pendingKey n seq \<in> dom (txn_view t))"
proof (induction seqs arbitrary: t)
  case Nil
  then show ?case by simp
next
  case (Cons seq seqs)
  from Cons.prems obtain item t1 where g: "b_get B t (pendingKey n seq) = Inr item"
    and d: "b_delete B t (pendingKey n seq) = Inr t1" and c: "commit_txn B n seqs t1 = Inr t'"
    by (auto simp: gbind_Inr_iff split: sum.splits if_splits)
  from Cons.IH [OF c] get_found [OF g] show ?case
    unfolding delete_view [OF d] by (auto simp: fun_eq_iff split: if_splits)
qed

lemma Commit_failed: "Commit B s seqs db = (Some e, db') \<Longrightarrow> db_view db' = db_view db"
  by (auto simp: Commit_def dest!: Update_failed split: if_splits sum.splits prod.splits)

lemma Commit_view:
  assumes "Commit B s seqs db = (None, db')"
  shows "db_view db' = (\<lambda>k. if k \<in> pendingKey (s_name s) ` set seqs then None else db_view db k)
    \<and> distinct seqs \<and> (\<forall>seq \<in> set seqs. pendingKey (s_name s) seq \<in> dom (db_view db))"
proof (cases "seqs = []")
  case True
  with assms show ?thesis by (simp add: Commit_def)
next
  case False
  with assms have "Update B db (\<lambda>t. gbind (commit_txn B (s_name s) seqs t)
                                    (finish_txn s (str ''commit'') ())) = (Inr (), db')"
    by (auto simp: Commit_def split: sum.splits prod.splits)
  then obtain t where c: "commit_txn B (s_name s) seqs (b_newTransaction B db) = Inr t"
    and v: "db_view db' = txn_view t"
    by (rule Update_done) (auto simp: gbind_Inr_iff dest!: finish_txn_Inr)
  show ?thesis using commit_txn_view [OF c] unfolding v new_view .
qed

lemma Commit_refines:
  assumes wf: "stream_wf (db_view db) s" and run: "Commit B s seqs db = (None, db')"
  shows "commit_effect s (db_view db) seqs (db_view db')"
proof -
  let ?v = "db_view db" and ?n = "s_name s"
  have v': "db_view db' = (\<lambda>k. if k \<in> pendingKey ?n ` set seqs then None else ?v k)"
    and d: "distinct seqs" and p: "\<forall>seq \<in> set seqs. pendingKey ?n seq \<in> dom ?v"
    using Commit_view [OF run] by blast+
  have val: "valid_name ?n" and pw: "pending_wf ?v ?n (s_tail s)" using wf by (auto simp: stream_wf_def)
  have "stream_wf (db_view db') s"
    using wf val unfolding v' stream_wf_def pending_wf_def dead_wf_def states_disjoint_def tail_wf_def
    by auto
  moreover have "set seqs \<subseteq> dom (pend ?v ?n)"
    using p pend_iff [OF pw] by (auto simp: domIff)
  moreover have "pend (db_view db') ?n = pend ?v ?n |` (- set seqs)"
    unfolding v' by (auto simp: fun_eq_iff pend_def restrict_map_def)
  moreover have "dlet (db_view db') ?n = dlet ?v ?n"
    unfolding v' using val by (auto simp: fun_eq_iff dlet_def)
  moreover have "same_elsewhere ?n ?v (db_view db')"
    unfolding v' by (auto simp: same_elsewhere_def)
  ultimately show ?thesis
    using d by (simp add: commit_effect_def abs_stream_def q_commit_def)
qed

section \<open>Dead letter and requeue\<close>

lemma deadletter_txn_view:
  assumes "deadletter_txn B s seq reason now t = Inr (u, t')"
  obtains raw e dead where
    "txn_view t (pendingKey (s_name s) seq) = Some raw" "decodePending raw = Inr e"
    "txn_view t (deadKey (s_name s) seq) = None"
    "decodeDead dead = Inr (dead_of (s_name s) seq reason now e)"
    "txn_view t' = (txn_view t)(deadKey (s_name s) seq \<mapsto> dead, pendingKey (s_name s) seq := None)"
proof -
  let ?n = "s_name s"
  let ?env = "\<lambda>e. \<lparr>de_CreatedAt = pe_CreatedAt e, de_DeadLetteredAt = now,
        de_OriginStream = (if pe_OriginStream e = [] then ?n else pe_OriginStream e),
        de_OriginSeq = (if pe_OriginStream e = [] then seq else pe_OriginSeq e),
        de_Payload = pe_Payload e, de_Reason = reason\<rparr>"
  from assms obtain item where i: "b_get B t (pendingKey ?n seq) = Inr item"
    by (auto simp: deadletter_txn_def split: sum.splits if_splits)
  with assms obtain err where x: "b_get B t (deadKey ?n seq) = Inl err"
    "errors_is err (BadgerError BadgerErrKeyNotFound)"
    by (auto simp: deadletter_txn_def split: sum.splits if_splits)
  have "gbind item (\<lambda>raw. gbind (decodePending raw) (\<lambda>e. gbind (encodeDead (?env e)) (\<lambda>dead.
      gbind (b_set B t (deadKey ?n seq) dead) (\<lambda>t. gbind (b_delete B t (pendingKey ?n seq))
        (finish_txn s (str ''dead-letter'') ()))))) = Inr (u, t')"
    using assms i x by (simp add: deadletter_txn_def Let_def case_if_pair)
  then obtain raw e dead t1 where g: "item = Inr raw" and d: "decodePending raw = Inr e"
    and enc: "encodeDead (?env e) = Inr dead"
    and s: "b_set B t (deadKey ?n seq) dead = Inr t1" "b_delete B t1 (pendingKey ?n seq) = Inr t'"
    unfolding gbind_Inr_iff by (blast dest: finish_txn_Inr)
  note g = i [unfolded g]
  have "norm_time (pe_CreatedAt e) = pe_CreatedAt e"
    using d by (auto simp: decodePending_iff)
  with dead_codec.dec_enc [OF enc] have "decodeDead dead = Inr (dead_of ?n seq reason now e)"
    by (simp add: norm_dead_def dead_of_def)
  then show thesis
    using that [OF get_value [OF g] d get_missing [OF x]] set_view [OF s(1)] delete_view [OF s(2)] by simp
qed

lemma DeadLetter_failed: "DeadLetter B s seq reason now db = (Some e, db') \<Longrightarrow> db_view db' = db_view db"
  by (auto simp: DeadLetter_def dest!: Update_failed split: sum.splits prod.splits)

lemma DeadLetter_refines:
  assumes wf: "stream_wf (db_view db) s" and run: "DeadLetter B s seq reason now db = (None, db')"
  shows "deadletter_effect s (db_view db) seq reason now (db_view db')"
proof -
  let ?v = "db_view db" and ?n = "s_name s"
  from run have "Update B db (deadletter_txn B s seq reason now) = (Inr (), db')"
    by (auto simp: DeadLetter_def split: sum.splits prod.splits)
  then obtain raw e dead where p: "?v (pendingKey ?n seq) = Some raw" "decodePending raw = Inr e"
    and x: "?v (deadKey ?n seq) = None" and d: "decodeDead dead = Inr (dead_of ?n seq reason now e)"
    and v': "db_view db' = ?v(deadKey ?n seq \<mapsto> dead, pendingKey ?n seq := None)"
    by (rule Update_done) (auto elim!: deadletter_txn_view simp: new_view)
  have val: "valid_name ?n" and pw: "pending_wf ?v ?n (s_tail s)" and dw: "dead_wf ?v ?n (s_tail s)"
    using wf by (auto simp: stream_wf_def)
  have b: "0 < seq" "seq \<le> s_tail s" using pending_wfD [OF pw p(1)] by auto
  have "states_disjoint (db_view db') ?n"
    using wf val unfolding v' stream_wf_def states_disjoint_def by auto
  moreover have "pending_wf (db_view db') ?n (s_tail s)"
    unfolding v' using pw val by (intro pending_wf_delete pending_wf_other) auto
  moreover have "dead_wf (db_view db') ?n (s_tail s)"
    unfolding v' using dw b d by (intro dead_wf_delete dead_wf_set)
  ultimately have "stream_wf (db_view db') s"
    using wf val unfolding v' by (auto simp: stream_wf_def tail_wf_def)
  moreover have "pend ?v ?n seq = Some e" "dlet ?v ?n seq = None" using p x by (auto simp: pend_def dlet_def)
  ultimately show ?thesis
    unfolding deadletter_effect_def abs_stream_def v'
    using val d by (simp add: q_deadletter_def domIff)
qed

lemma requeue_txn_view:
  assumes "requeue_txn B s seq newSeq t = Inr (record, t')"
  obtains raw d encoded where
    "txn_view t (deadKey (s_name s) seq) = Some raw" "decodeDead raw = Inr d"
    "decodePending encoded = Inr (pending_of d)" "record = record_of newSeq (pending_of d)"
    "txn_view t' = (txn_view t)(pendingKey (s_name s) newSeq \<mapsto> encoded,
        metaKey (s_name s) tailMetaKey \<mapsto> be_nat 8 (unat newSeq), deadKey (s_name s) seq := None)"
proof -
  let ?n = "s_name s"
  from assms obtain raw d encoded t1 t2 where
    g: "b_get B t (deadKey ?n seq) = Inr (Inr raw)" and d: "decodeDead raw = Inr d"
    and enc: "encodePending (pending_of d) = Inr encoded"
    and s: "b_set B t (pendingKey ?n newSeq) encoded = Inr t1"
      "b_set B t1 (metaKey ?n tailMetaKey) (be_nat 8 (unat newSeq)) = Inr t2"
      "b_delete B t2 (deadKey ?n seq) = Inr t'"
    and r: "record = record_of newSeq (pending_of d)"
    by (auto simp: requeue_txn_def gbind_Inr_iff Let_def pending_of_def record_of_def AppendUint64_def
        split: sum.splits if_splits dest!: finish_txn_Inr)
  have "norm_pending (pending_of d) = pending_of d"
    using d by (auto simp: decodeDead_iff norm_pending_def pending_of_def)
  with pending_codec.dec_enc [OF enc] have "decodePending encoded = Inr (pending_of d)" by simp
  then show thesis
    using that [OF get_value [OF g] d _ r]
      set_view [OF s(1)] set_view [OF s(2)] delete_view [OF s(3)] by simp
qed

lemma Requeue_failed: "Requeue B s seq db = (Inl e, s', db') \<Longrightarrow> s' = s \<and> db_view db' = db_view db"
  by (auto simp: Requeue_def Let_def dest!: Update_failed split: if_splits sum.splits prod.splits)

lemma Requeue_refines:
  assumes wf: "stream_wf (db_view db) s" and run: "Requeue B s seq db = (Inr record, s', db')"
  shows "requeue_effect s (db_view db) seq record s' (db_view db')"
proof -
  let ?v = "db_view db" and ?n = "s_name s" and ?q = "s_tail s + 1"
  from run have top: "s_tail s \<noteq> MaxUint64" and s': "s' = s\<lparr>s_tail := ?q\<rparr>"
    and u: "Update B db (requeue_txn B s seq ?q) = (Inr record, db')"
    by (auto simp: Requeue_def Let_def split: if_splits sum.splits prod.splits)
  from u obtain raw d encoded where x: "?v (deadKey ?n seq) = Some raw" "decodeDead raw = Inr d"
    and p: "decodePending encoded = Inr (pending_of d)" and r: "record = record_of ?q (pending_of d)"
    and v': "db_view db' = ?v(pendingKey ?n ?q \<mapsto> encoded,
        metaKey ?n tailMetaKey \<mapsto> be_nat 8 (unat ?q), deadKey ?n seq := None)"
    by (rule Update_done) (auto elim!: requeue_txn_view simp: new_view)
  have val: "valid_name ?n" and dw: "dead_wf ?v ?n (s_tail s)" using wf by (auto simp: stream_wf_def)
  have up: "s_tail s < ?q" using less_inc [OF top] .
  then have pos: "0 < ?q" by (meson order_le_less_trans word_zero_le)
  have pw: "pending_wf ?v ?n ?q" "dead_wf ?v ?n ?q"
    using wf up pending_wf_mono dead_wf_mono unfolding stream_wf_def by (meson order_less_imp_le)+
  have "states_disjoint (db_view db') ?n"
    using wf val dead_above_tail [OF dw up] unfolding v' stream_wf_def
    by (intro states_disjoint_delete states_disjoint_meta states_disjoint_set_pending) auto
  moreover have "pending_wf (db_view db') ?n ?q"
    unfolding v' using pw pos p val
    by (intro pending_wf_delete pending_wf_other [of _ _ _ "metaKey ?n tailMetaKey"] pending_wf_set) auto
  moreover have "dead_wf (db_view db') ?n ?q"
    unfolding v' using pw val by (intro dead_wf_delete dead_wf_other) auto
  ultimately have "stream_wf (db_view db') s'"
    using wf val unfolding v' s' by (auto simp: stream_wf_def tail_wf_def)
  moreover have "dlet ?v ?n seq = Some d" using x by (simp add: dlet_def)
  ultimately show ?thesis
    unfolding requeue_effect_def abs_stream_def v' s'
    using val p top r by (simp add: q_requeue_def)
qed

end

end
