(* ===== verification/Store_Read.thy ===== *)
theory Store_Read
  imports Store_Correct
begin

text \<open>
  The reading side of \<open>store.go\<close>: what a scan returns, what the checks of \<open>load\<close> guarantee and
  when they pass, and what \<open>DeadLetters\<close> and \<open>Counts\<close> report. The locale \<open>record_source\<close> is the
  contract behind the \<open>Source\<close> interface of \<open>dispatch.go\<close>; the store provides it.
\<close>

section \<open>The Source interface\<close>

locale record_source =
  fixes scan :: "'st \<Rightarrow> u64 \<Rightarrow> int \<Rightarrow> gerror + store_record list"
    and pending :: "'st \<Rightarrow> u64 \<rightharpoonup> pendingEnvelope"
    and ok :: "'st \<Rightarrow> bool"
  assumes pending_finite: "ok st \<Longrightarrow> finite (dom (pending st))"
    and scan_result: "ok st \<Longrightarrow> scan st lo limit = Inr recs \<Longrightarrow>
      recs = map (\<lambda>q. record_of q (the (pending st q)))
               (take (nat limit) (sorted_list_of_set {q \<in> dom (pending st). lo \<le> q}))"
    and scan_limit: "scan st lo limit = Inr recs \<Longrightarrow> 0 < limit"
begin

lemma scan_seqs:
  "ok st \<Longrightarrow> scan st lo limit = Inr recs \<Longrightarrow>
     map r_Seq recs = take (nat limit) (sorted_list_of_set {q \<in> dom (pending st). lo \<le> q})"
  by (drule (1) scan_result) (simp add: record_of_def comp_def)

lemma scan_strict: "ok st \<Longrightarrow> scan st lo limit = Inr recs \<Longrightarrow> sorted_wrt (<) (map r_Seq recs)"
  by (simp add: scan_seqs sorted_wrt_take)

lemma scan_sound:
  assumes "ok st" "scan st lo limit = Inr recs" "r \<in> set recs"
  shows "lo \<le> r_Seq r \<and> r_Seq r \<in> dom (pending st)"
proof -
  have "r_Seq r \<in> set (take (nat limit) (sorted_list_of_set {q \<in> dom (pending st). lo \<le> q}))"
    using assms(3) scan_seqs [OF assms(1,2)] by (metis image_eqI list.set_map)
  then show ?thesis using pending_finite [OF assms(1)] by (auto dest!: in_set_takeD)
qed

lemma scan_length:
  assumes "ok st" "scan st lo limit = Inr recs"
  shows "int (length recs) \<le> limit"
  using scan_limit [OF assms(2)] unfolding scan_result [OF assms] by simp

lemma scan_lookup:
  assumes "ok st" "scan st lo limit = Inr recs" "r \<in> set recs"
  shows "\<exists>e. pending st (r_Seq r) = Some e \<and> r = record_of (r_Seq r) e"
  using scan_sound [OF assms] assms(3) unfolding scan_result [OF assms(1,2)]
  by (auto simp: record_of_def)

text \<open>A scan that is not cut off by its limit returned everything from \<open>from\<close> on; any scan
  returned everything up to its last record.\<close>

lemma scan_complete:
  assumes "ok st" "scan st lo limit = Inr recs" "q \<in> dom (pending st)" "lo \<le> q"
    and "int (length recs) < limit \<or> (\<exists>r \<in> set recs. q \<le> r_Seq r)"
  shows "q \<in> r_Seq ` set recs"
proof -
  let ?S = "sorted_list_of_set {q \<in> dom (pending st). lo \<le> q}"
  have seqs: "map r_Seq recs = take (nat limit) ?S" by (rule scan_seqs [OF assms(1,2)])
  have q: "q \<in> set ?S" using assms(1,3,4) pending_finite [of st] by simp
  show ?thesis
  proof (cases "int (length recs) < limit")
    case True
    then have "length (take (nat limit) ?S) < nat limit" using seqs by (metis length_map nat_less_iff zless_nat_eq_int_zless)
    then have "take (nat limit) ?S = ?S" by simp
    with q seqs show ?thesis by (metis list.set_map)
  next
    case False
    with assms(5) obtain r where r: "r \<in> set recs" "q \<le> r_Seq r" by blast
    then have "r_Seq r \<in> set (take (nat limit) ?S)" using seqs by (metis image_eqI list.set_map)
    then have "q \<in> set (take (nat limit) ?S)"
      using q r(2) by (rule sorted_take_downward [rotated 2]) simp_all
    with seqs show ?thesis by (metis list.set_map)
  qed
qed

end

section \<open>Scanning a prefix\<close>

definition prefix_keys :: "bytes \<Rightarrow> iterator \<Rightarrow> bytes list" where
  "prefix_keys p it = takeWhile (has_prefix p) (keys it)"

lemma prefix_keys_simps [simp]:
  "prefix_keys p [] = []"
  "prefix_keys p ((k, x) # it) = (if has_prefix p k then k # prefix_keys p it else [])"
  by (simp_all add: prefix_keys_def)

lemma ValidForPrefix_iff: "ValidForPrefix p it \<longleftrightarrow> prefix_keys p it \<noteq> []"
  by (cases it) (auto split: if_splits)

text \<open>\<open>ScanBatch\<close> and \<open>DeadLetters\<close> page through a prefix in the same way, with their own
  decoder and result type.\<close>

locale page_loop =
  fixes loop :: "bytes \<Rightarrow> nat \<Rightarrow> iterator \<Rightarrow> gerror + 'r list"
    and dec :: "bytes \<Rightarrow> gerror + 'e"
    and mk :: "u64 \<Rightarrow> 'e \<Rightarrow> 'r"
  assumes loop_0: "loop p 0 it = Inr []"
    and loop_Suc: "loop p (Suc n) it =
      (if \<not> ValidForPrefix p it then Inr []
       else case parseSequence p (fst (hd it)) of
              None \<Rightarrow> Inl (EnvelopeError ErrCorruptEnvelope)
            | Some seq \<Rightarrow>
                gbind (snd (hd it)) (\<lambda>bs.
                case dec bs of
                  Inl err \<Rightarrow> Inl (Errorf [err])
                | Inr e \<Rightarrow> gbind (loop p n (tl it)) (\<lambda>rs. Inr (mk seq e # rs))))"
begin

lemma loop_Suc_cases:
  assumes "loop p (Suc m) it = Inr rs"
  obtains (stop) "prefix_keys p it = []" "rs = []"
  | (step) q bs e rs' it' where "it = (sequenceKey p q, Inr bs) # it'" "dec bs = Inr e"
      "loop p m it' = Inr rs'" "rs = mk q e # rs'"
proof (cases "prefix_keys p it = []")
  case True
  with assms show ?thesis by (auto simp: loop_Suc ValidForPrefix_iff intro: stop)
next
  case False
  then obtain k x it' where it: "it = (k, x) # it'" "has_prefix p k"
    by (cases it) (auto split: if_splits)
  with assms obtain q where q: "parseSequence p k = Some q"
    by (auto simp: loop_Suc split: option.splits)
  with assms it obtain bs where bs: "x = Inr bs" by (cases x) (auto simp: loop_Suc)
  with assms it q obtain e where e: "dec bs = Inr e" by (cases "dec bs") (auto simp: loop_Suc)
  with assms it q bs obtain rs' where "loop p m it' = Inr rs'" "rs = mk q e # rs'"
    by (auto simp: loop_Suc gbind_Inr_iff)
  with it q bs e show ?thesis by (intro step) (auto simp: parseSequence_iff)
qed

lemma loop_result:
  "loop p m it = Inr rs \<Longrightarrow>
     (\<exists>qs es. take m (prefix_keys p it) = map (sequenceKey p) qs
        \<and> rs = map2 mk qs es \<and> length es = length qs
        \<and> (\<forall>(q, e) \<in> set (zip qs es). \<exists>bs. (sequenceKey p q, Inr bs) \<in> set it \<and> dec bs = Inr e))"
proof (induction m arbitrary: it rs)
  case 0
  then show ?case by (auto simp: loop_0)
next
  case (Suc m)
  from Suc.prems show ?case
  proof (cases rule: loop_Suc_cases)
    case stop
    then show ?thesis by simp
  next
    case (step q bs e rs' it')
    from Suc.IH [OF step(3)] obtain qs es where
      IH: "take m (prefix_keys p it') = map (sequenceKey p) qs" "rs' = map2 mk qs es" "length es = length qs"
      "\<forall>(q, e) \<in> set (zip qs es). \<exists>bs. (sequenceKey p q, Inr bs) \<in> set it' \<and> dec bs = Inr e" by blast
    show ?thesis
      by (rule exI [of _ "q # qs"], rule exI [of _ "e # es"]) (use IH step in auto)
  qed
qed

lemma loop_view:
  assumes run: "loop p m it = Inr rs" and ks: "prefix_keys p it = map (sequenceKey p) S"
    and v: "\<And>k bs. (k, Inr bs) \<in> set it \<Longrightarrow> v k = Some bs"
    and look: "\<And>q bs e. v (sequenceKey p q) = Some bs \<Longrightarrow> dec bs = Inr e \<Longrightarrow> look q = Some e"
  shows "rs = map (\<lambda>q. mk q (the (look q))) (take m S)"
proof -
  from loop_result [OF run] obtain qs es where qs: "take m (prefix_keys p it) = map (sequenceKey p) qs"
    and r: "rs = map2 mk qs es" and len: "length es = length qs"
    and es: "\<forall>(q, e) \<in> set (zip qs es). \<exists>bs. (sequenceKey p q, Inr bs) \<in> set it \<and> dec bs = Inr e"
    by blast
  have S: "qs = take m S"
    using qs ks by (simp add: take_map inj_map_eq_map inj_def)
  have "look q = Some e" if "(q, e) \<in> set (zip qs es)" for q e
    using es that v look by blast
  then have "map2 mk qs es = map (\<lambda>q. mk q (the (look q))) qs"
    using len by (intro nth_equalityI) (simp_all, metis fst_conv in_set_zip option.sel snd_conv)
  with r S show ?thesis by simp
qed

text \<open>The loop fails only on a key that does not parse, an unreadable value or an envelope that
  does not decode.\<close>

lemma loop_succeeds:
  assumes "\<forall>k \<in> set (prefix_keys p it). \<exists>q. k = sequenceKey p q"
    and "\<forall>(k, x) \<in> set it. has_prefix p k \<longrightarrow> (\<exists>bs e. x = Inr bs \<and> dec bs = Inr e)"
  shows "\<exists>rs. loop p m it = Inr rs"
  using assms
proof (induction m arbitrary: it)
  case 0
  then show ?case by (simp add: loop_0)
next
  case (Suc m)
  show ?case
  proof (cases "prefix_keys p it = []")
    case True
    then show ?thesis by (simp add: loop_Suc ValidForPrefix_iff)
  next
    case False
    then obtain k x it' where it: "it = (k, x) # it'" "has_prefix p k"
      by (cases it) (auto split: if_splits)
    with Suc.prems obtain q bs e where "k = sequenceKey p q" "x = Inr bs" "dec bs = Inr e" by auto
    moreover have "\<exists>rs. loop p m it' = Inr rs" using Suc.prems it by (intro Suc.IH) auto
    ultimately show ?thesis using it by (auto simp: loop_Suc)
  qed
qed

end

interpretation pending_page: page_loop scan_loop decodePending record_of
  by (unfold_locales; unfold record_of_def scan_loop.simps; rule refl)

interpretation dead_page: page_loop deadletters_loop decodeDead dead_record_of
  by (unfold_locales; unfold dead_record_of_def deadletters_loop.simps; rule refl)

section \<open>Keys of a well-formed stream\<close>

lemma pending_key_set:
  assumes "pending_wf v n tail"
  shows "{x \<in> dom v. has_prefix (pendingPrefix n) x} = pendingKey n ` dom (pend v n)"
proof (intro equalityI subsetI)
  fix x assume x: "x \<in> {x \<in> dom v. has_prefix (pendingPrefix n) x}"
  then obtain bs where bs: "v x = Some bs" "has_prefix (pendingPrefix n) x" by auto
  with assms obtain q e where "x = pendingKey n q" "decodePending bs = Inr e"
    unfolding pending_wf_def by blast
  with bs show "x \<in> pendingKey n ` dom (pend v n)" by (auto simp: pend_def domIff)
qed (auto simp: pend_def split: option.splits)

lemma dead_key_set:
  assumes "dead_wf v n tail"
  shows "{x \<in> dom v. has_prefix (deadPrefix n) x} = deadKey n ` dom (dlet v n)"
proof (intro equalityI subsetI)
  fix x assume x: "x \<in> {x \<in> dom v. has_prefix (deadPrefix n) x}"
  then obtain bs where bs: "v x = Some bs" "has_prefix (deadPrefix n) x" by auto
  with assms obtain q e where "x = deadKey n q" "decodeDead bs = Inr e"
    unfolding dead_wf_def by blast
  with bs show "x \<in> deadKey n ` dom (dlet v n)" by (auto simp: dlet_def domIff)
qed (auto simp: dlet_def split: option.splits)

lemma pend_look: "v (sequenceKey (pendingPrefix n) q) = Some bs \<Longrightarrow> decodePending bs = Inr e \<Longrightarrow> pend v n q = Some e"
  by (simp add: pend_def pendingKey_def)

lemma dlet_look: "v (sequenceKey (deadPrefix n) q) = Some bs \<Longrightarrow> decodeDead bs = Inr e \<Longrightarrow> dlet v n q = Some e"
  by (simp add: dlet_def deadKey_def)

section \<open>The store as a source\<close>

context badger_store
begin

lemma db_view_finite: "finite (dom (db_view db))"
  using view_finite [of "b_newTransaction B db"] by (simp add: new_view)

lemma pend_finite: "finite (dom (pend (db_view db) n))"
proof -
  have "pendingKey n ` dom (pend (db_view db) n) \<subseteq> dom (db_view db)"
    by (auto simp: pend_def split: option.splits)
  then have "finite (pendingKey n ` dom (pend (db_view db) n))"
    using db_view_finite finite_subset by blast
  then show ?thesis by (rule finite_imageD) (auto simp: inj_on_def)
qed

lemma dlet_finite: "finite (dom (dlet (db_view db) n))"
proof -
  have "deadKey n ` dom (dlet (db_view db) n) \<subseteq> dom (db_view db)"
    by (auto simp: dlet_def split: option.splits)
  then have "finite (deadKey n ` dom (dlet (db_view db) n))"
    using db_view_finite finite_subset by blast
  then show ?thesis by (rule finite_imageD) (auto simp: inj_on_def)
qed

text \<open>What an iterator over a prefix meets when all keys of the prefix are sequence keys.\<close>

lemma prefix_keys_seek:
  assumes "{x \<in> dom (txn_view t). has_prefix p x} = sequenceKey p ` Q"
  shows "prefix_keys p (b_seek B t False (sequenceKey p lo))
      = map (sequenceKey p) (sorted_list_of_set {q \<in> Q. lo \<le> q})"
    and "prefix_keys p (b_seek B t False p) = map (sequenceKey p) (sorted_list_of_set Q)"
proof -
  have "finite (sequenceKey p ` Q)" using view_finite [of t] by (simp add: assms [symmetric])
  then have Q: "finite Q" by (rule finite_imageD) (simp add: inj_on_def)
  have "{x \<in> dom (txn_view t). has_prefix p x \<and> sequenceKey p lo \<le> x}
      = {x \<in> {x \<in> dom (txn_view t). has_prefix p x}. sequenceKey p lo \<le> x}" by blast
  also have "\<dots> = sequenceKey p ` {q \<in> Q. lo \<le> q}" unfolding assms by auto
  finally have "{x \<in> dom (txn_view t). has_prefix p x \<and> sequenceKey p lo \<le> x} = sequenceKey p ` {q \<in> Q. lo \<le> q}" .
  with Q prefix_scan [of p "sequenceKey p lo" t]
  show "prefix_keys p (b_seek B t False (sequenceKey p lo))
      = map (sequenceKey p) (sorted_list_of_set {q \<in> Q. lo \<le> q})"
    by (simp add: prefix_keys_def prefix_le sorted_list_of_set_image)
  have "{x \<in> dom (txn_view t). has_prefix p x \<and> p \<le> x} = sequenceKey p ` Q"
    using assms prefix_le by blast
  with Q prefix_scan [of p p t]
  show "prefix_keys p (b_seek B t False p) = map (sequenceKey p) (sorted_list_of_set Q)"
    by (simp add: prefix_keys_def sorted_list_of_set_image)
qed

lemma ScanBatch_result:
  assumes wf: "pending_wf (db_view db) n tail" and run: "ScanBatch B n db lo limit = Inr recs"
  shows "recs = map (\<lambda>q. record_of q (the (pend (db_view db) n q)))
           (take (nat limit) (sorted_list_of_set {q \<in> dom (pend (db_view db) n). lo \<le> q}))"
proof (rule pending_page.loop_view)
  let ?it = "b_seek B (b_newTransaction B db) False (pendingKey n lo)"
  show "scan_loop (pendingPrefix n) (nat limit) ?it = Inr recs"
    using run by (auto simp: ScanBatch_def View_def split: if_splits)
  show "prefix_keys (pendingPrefix n) ?it =
      map (sequenceKey (pendingPrefix n)) (sorted_list_of_set {q \<in> dom (pend (db_view db) n). lo \<le> q})"
    unfolding pendingKey_def
    by (rule prefix_keys_seek(1))
      (use pending_key_set [OF wf] in \<open>simp add: new_view pendingKey_def [abs_def]\<close>)
  show "db_view db k = Some bs" if "(k, Inr bs) \<in> set ?it" for k bs
    using seek_value [OF that] by (simp add: new_view)
qed (rule pend_look)

lemma DeadLetters_result:
  assumes wf: "dead_wf (db_view db) n tail" and run: "DeadLetters B n db lo limit = Inr recs"
  shows "recs = map (\<lambda>q. dead_record_of q (the (dlet (db_view db) n q)))
           (take (nat limit) (sorted_list_of_set {q \<in> dom (dlet (db_view db) n). lo \<le> q}))"
proof (rule dead_page.loop_view)
  let ?it = "b_seek B (b_newTransaction B db) False (deadKey n lo)"
  show "deadletters_loop (deadPrefix n) (nat limit) ?it = Inr recs"
    using run by (auto simp: DeadLetters_def View_def split: if_splits)
  show "prefix_keys (deadPrefix n) ?it =
      map (sequenceKey (deadPrefix n)) (sorted_list_of_set {q \<in> dom (dlet (db_view db) n). lo \<le> q})"
    unfolding deadKey_def
    by (rule prefix_keys_seek(1))
      (use dead_key_set [OF wf] in \<open>simp add: new_view deadKey_def [abs_def]\<close>)
  show "db_view db k = Some bs" if "(k, Inr bs) \<in> set ?it" for k bs
    using seek_value [OF that] by (simp add: new_view)
qed (rule dlet_look)

end

sublocale badger_store \<subseteq> source: record_source
  "\<lambda>(s, db). ScanBatch B (s_name s) db" "\<lambda>(s, db). pend (db_view db) (s_name s)"
  "\<lambda>(s, db). stream_wf (db_view db) s"
proof (unfold_locales, goal_cases)
  case (1 st)
  then show ?case by (simp add: case_prod_beta pend_finite)
next
  case (2 st lo limit recs)
  then show ?case
    by (cases st) (auto simp: stream_wf_def dest!: ScanBatch_result)
next
  case (3 st lo limit recs)
  then show ?case by (cases st) (auto simp: ScanBatch_def split: if_splits)
qed

end
