(* ===== verification/Store_Load.thy ===== *)
theory Store_Load
  imports Store_Read
begin

text \<open>
  Opening a stream. \<open>load_sound\<close>: when the checks of \<open>load\<close> pass, the keys of the stream are
  sequence keys not above the tail and no sequence is both pending and dead. \<open>load_complete\<close>:
  they pass on every well-formed stream, and the handle comes back with the durable tail, so a
  restart recovers the queue. \<open>Counts_result\<close> says what the statistics count.
\<close>

section \<open>The key-only merge scan\<close>

definition parsed :: "bytes \<Rightarrow> iterator \<Rightarrow> u64 list \<Rightarrow> bool" where
  "parsed p it qs \<longleftrightarrow> prefix_keys p it = map (sequenceKey p) qs"

lemma parsed_Nil: "prefix_keys p it = [] \<Longrightarrow> parsed p it qs \<longleftrightarrow> qs = []"
  by (auto simp: parsed_def)

lemma parsed_Cons:
  "has_prefix p k \<Longrightarrow> parsed p ((k, x) # it) qs \<longleftrightarrow> (\<exists>q qs'. qs = q # qs' \<and> k = sequenceKey p q \<and> parsed p it qs')"
  by (cases qs) (auto simp: parsed_def)

lemma currentSequence_parsed:
  "parsed p it qs \<Longrightarrow> currentSequence it p = Inr (case qs of [] \<Rightarrow> None | q # _ \<Rightarrow> Some q)"
  by (cases it) (auto simp: parsed_def currentSequence_def Cons_eq_map_conv split: if_splits list.splits)

lemma currentSequence_cases:
  assumes "currentSequence it p = Inr r"
  obtains "r = None" "prefix_keys p it = []"
  | q x it' where "r = Some q" "it = (sequenceKey p q, x) # it'"
proof (cases it)
  case Nil
  with assms that(1) show ?thesis by (simp add: currentSequence_def)
next
  case (Cons i it')
  with assms that show ?thesis
    by (cases i) (auto simp: currentSequence_def parseSequence_iff split: if_splits option.splits)
qed

lemma sorted_heads_disjoint:
  "sorted_wrt (<) (d # ds) \<Longrightarrow> (p :: u64) < d \<Longrightarrow> p \<notin> set (d # ds)"
  by auto

lemma parsed_tl: "parsed p it (q # qs) \<Longrightarrow> parsed p (tl it) qs"
  by (cases it) (auto simp: parsed_def split: if_splits)

lemma validate_merge_complete:
  "parsed pk P ps \<Longrightarrow> parsed dk D ds \<Longrightarrow> set ps \<inter> set ds = {} \<Longrightarrow> validate_merge pk dk P D = Inr ()"
proof (induction pk dk P D arbitrary: ps ds rule: validate_merge.induct)
  case (1 pk dk P D)
  note cur = currentSequence_parsed [OF "1.prems"(1)] currentSequence_parsed [OF "1.prems"(2)]
  show ?case
  proof (cases "ValidForPrefix pk P \<or> ValidForPrefix dk D")
    case False
    then show ?thesis by (simp add: validate_merge.simps)
  next
    case True
    then have ne: "ps \<noteq> [] \<or> ds \<noteq> []" using "1.prems" by (auto simp: ValidForPrefix_iff parsed_def)
    consider (dead) d ds' where "ps = []" "ds = d # ds'"
      | (pending) p ps' where "ps = p # ps'" "ds = []"
      | (both) p ps' d ds' where "ps = p # ps'" "ds = d # ds'" "p \<noteq> d"
      using ne "1.prems"(3) by (cases ps; cases ds) auto
    then show ?thesis
    proof cases
      case dead
      have "validate_merge pk dk P (tl D) = Inr ()"
        by (rule "1.IH"(1) [OF True cur, where ps = "[]" and ds = ds'])
          (use "1.prems" dead in \<open>auto dest: parsed_tl\<close>)
      then show ?thesis using True dead cur by (simp add: validate_merge.simps [of pk dk P D])
    next
      case pending
      have "validate_merge pk dk (tl P) D = Inr ()"
        by (rule "1.IH"(2) [OF True cur, where ps = ps' and ds = "[]"])
          (use "1.prems" pending in \<open>auto dest: parsed_tl\<close>)
      then show ?thesis using True pending cur by (simp add: validate_merge.simps [of pk dk P D])
    next
      case both
      have "validate_merge pk dk (tl P) D = Inr ()" if "p < d"
        by (rule "1.IH"(3) [OF True cur, where ps = ps' and ds = ds])
          (use "1.prems" both that in \<open>auto dest: parsed_tl\<close>)
      moreover have "validate_merge pk dk P (tl D) = Inr ()" if "\<not> p < d"
        by (rule "1.IH"(4) [OF True cur, where ps = ps and ds = ds'])
          (use "1.prems" both that in \<open>auto dest: parsed_tl\<close>)
      ultimately show ?thesis using True both cur by (simp add: validate_merge.simps [of pk dk P D])
    qed
  qed
qed

lemma parsed_sorted:
  "parsed p it qs \<Longrightarrow> sorted_wrt (<) (keys it) \<Longrightarrow> sorted_wrt (<) qs"
  unfolding parsed_def prefix_keys_def
  by (metis (mono_tags, lifting) sequenceKey_less sorted_wrt_map sorted_wrt_mono_rel sorted_wrt_append takeWhile_dropWhile_id)

lemma parsed_exists_Nil: "\<not> ValidForPrefix p it \<Longrightarrow> parsed p it []"
  by (simp add: ValidForPrefix_iff parsed_def)

lemma parsed_exists_Cons:
  "currentSequence it p = Inr (Some q) \<Longrightarrow> parsed p (tl it) qs \<Longrightarrow> parsed p it (q # qs)"
  by (erule currentSequence_cases) (auto simp: parsed_def)

lemma parsed_head:
  "currentSequence it p = Inr (Some q) \<Longrightarrow> parsed p it qs \<Longrightarrow> \<exists>qs'. qs = q # qs'"
  by (erule currentSequence_cases) (auto simp: parsed_def)

lemma sorted_wrt_tl: "sorted_wrt r (keys it) \<Longrightarrow> sorted_wrt r (keys (tl it))"
  by (cases it) auto

lemma validate_merge_sound:
  "validate_merge pk dk P D = Inr () \<Longrightarrow> sorted_wrt (<) (keys P) \<Longrightarrow> sorted_wrt (<) (keys D) \<Longrightarrow>
     \<exists>ps ds. parsed pk P ps \<and> parsed dk D ds \<and> set ps \<inter> set ds = {}"
proof (induction pk dk P D rule: validate_merge.induct)
  case (1 pk dk P D)
  show ?case
  proof (cases "ValidForPrefix pk P \<or> ValidForPrefix dk D")
    case False
    then show ?thesis by (intro exI [of _ "[]"]) (simp add: parsed_exists_Nil)
  next
    case True
    with "1.prems"(1) obtain a b where ab: "currentSequence P pk = Inr a" "currentSequence D dk = Inr b"
      by (auto simp: validate_merge.simps [of pk dk P D] gbind_Inr_iff)
    note unf = validate_merge.simps [of pk dk P D]
    consider (dead) d where "a = None" "b = Some d" | (pending) p where "a = Some p" "b = None"
      | (both) p d where "a = Some p" "b = Some d"
      using True ab currentSequence_None by (cases a; cases b) blast+
    then show ?thesis
    proof cases
      case dead
      then have "validate_merge pk dk P (tl D) = Inr ()" using "1.prems"(1) True ab by (simp add: unf)
      with "1.IH"(1) [OF True ab, of a b] dead "1.prems" sorted_wrt_tl obtain ps ds where
        "parsed pk P ps" "parsed dk (tl D) ds" by blast
      moreover from this dead ab have "ps = []"
        by (metis parsed_Nil ValidForPrefix_iff currentSequence_None)
      ultimately show ?thesis using dead ab parsed_exists_Cons by fastforce
    next
      case pending
      then have "validate_merge pk dk (tl P) D = Inr ()" using "1.prems"(1) True ab by (simp add: unf)
      with "1.IH"(2) [OF True ab, of a b p] pending "1.prems" sorted_wrt_tl obtain ps ds where
        "parsed pk (tl P) ps" "parsed dk D ds" by blast
      moreover from this pending ab have "ds = []"
        by (metis parsed_Nil ValidForPrefix_iff currentSequence_None)
      ultimately show ?thesis using pending ab parsed_exists_Cons by fastforce
    next
      case both
      with "1.prems"(1) True ab have ne: "p \<noteq> d" by (auto simp: unf)
      show ?thesis
      proof (cases "p < d")
        case True': True
        then have "validate_merge pk dk (tl P) D = Inr ()" using "1.prems"(1) True ab both ne by (simp add: unf)
        with "1.IH"(3) [OF True ab, of a b p d] both ne True' "1.prems" sorted_wrt_tl obtain ps ds where
          pd: "parsed pk (tl P) ps" "parsed dk D ds" "set ps \<inter> set ds = {}" by blast
        from parsed_head [OF _ pd(2)] ab both obtain ds' where ds: "ds = d # ds'" by blast
        with parsed_sorted [OF pd(2) "1.prems"(3)] True' have "p \<notin> set ds" by auto
        with pd ab both parsed_exists_Cons [of P pk p ps] show ?thesis by (intro exI [of _ "p # ps"] exI [of _ ds]) auto
      next
        case False
        then have "validate_merge pk dk P (tl D) = Inr ()" using "1.prems"(1) True ab both ne by (simp add: unf)
        with "1.IH"(4) [OF True ab, of a b p d] both ne False "1.prems" sorted_wrt_tl obtain ps ds where
          pd: "parsed pk P ps" "parsed dk (tl D) ds" "set ps \<inter> set ds = {}" by blast
        from parsed_head [OF _ pd(1)] ab both obtain ps' where ps: "ps = p # ps'" by blast
        with parsed_sorted [OF pd(1) "1.prems"(2)] False ne have "d \<notin> set ps" by auto
        with pd ab both parsed_exists_Cons [of D dk d ds] show ?thesis by (intro exI [of _ ps] exI [of _ "d # ds"]) auto
      qed
    qed
  qed
qed

section \<open>The checks of load\<close>

text \<open>What \<open>load\<close> establishes about a stream, from the keys alone: values are not decoded.\<close>

definition loaded_ok :: "(bytes \<rightharpoonup> bytes) \<Rightarrow> bytes \<Rightarrow> u64 \<Rightarrow> bool" where
  "loaded_ok v n tail \<longleftrightarrow>
     (\<forall>k \<in> dom v. has_prefix (pendingPrefix n) k \<longrightarrow> (\<exists>q \<le> tail. k = pendingKey n q))
     \<and> (\<forall>k \<in> dom v. has_prefix (deadPrefix n) k \<longrightarrow> (\<exists>q \<le> tail. k = deadKey n q))
     \<and> states_disjoint v n
     \<and> tail_wf v n tail
     \<and> v (metaKey n schemaMetaKey) = Some [schemaVersion]"

lemma gbind_unit: "gbind r (\<lambda>_. f) = Inr b \<longleftrightarrow> (\<exists>a. r = Inr a) \<and> f = Inr b"
  by (cases r) auto

lemma be_nat_Uint64_whole: "length bs = seqLen \<Longrightarrow> be_nat 8 (unat (Uint64 bs)) = bs"
  by (simp add: seqLen_def be_nat_Uint64)

context badger_store
begin

lemma seek_strict: "sorted_wrt (<) (keys (b_seek B t False k))"
  by (simp add: seek_keys)

lemma maxStoredSequence_sound:
  assumes run: "maxStoredSequence B t p = Inr r" and q: "sequenceKey p q \<in> dom (txn_view t)"
  shows "\<exists>m. r = Some m \<and> q \<le> m"
proof -
  let ?it = "b_seek B t True (sequenceKey p MaxUint64)"
  let ?S = "{x \<in> dom (txn_view t). x \<le> sequenceKey p MaxUint64}"
  have fin: "finite ?S" using view_finite [of t] by simp
  have mem: "sequenceKey p q \<in> set (keys ?it)"
    unfolding seek_keys_reverse using q fin by (simp add: word_order.extremum)
  have "sorted_wrt (\<ge>) (keys ?it)" unfolding seek_keys_reverse by (simp add: sorted_wrt_rev)
  moreover obtain k x it where it: "?it = (k, x) # it" using mem by (cases ?it) auto
  ultimately have ge: "sequenceKey p q \<le> k" using mem by auto
  have "k \<in> set (keys ?it)" by (simp add: it)
  then have "k \<le> sequenceKey p MaxUint64" unfolding seek_keys_reverse using fin by simp
  moreover from ge have "p \<le> k" by (metis has_prefix_sequenceKey order_trans prefix_le)
  ultimately have "has_prefix p k" using has_prefix_interval has_prefix_sequenceKey by blast
  with run it obtain m where "r = Some m" "k = sequenceKey p m"
    by (auto simp: maxStoredSequence_def parseSequence_iff split: option.splits)
  with ge show ?thesis by simp
qed

lemma maxStoredSequence_complete:
  assumes "{x \<in> dom (txn_view t). has_prefix p x} = sequenceKey p ` Q"
  shows "\<exists>r. maxStoredSequence B t p = Inr r \<and> (\<forall>m. r = Some m \<longrightarrow> m \<in> Q)"
proof -
  let ?it = "b_seek B t True (sequenceKey p MaxUint64)"
  show ?thesis
  proof (cases "ValidForPrefix p ?it")
    case False
    then show ?thesis by (simp add: maxStoredSequence_def)
  next
    case True
    then obtain k x it where it: "?it = (k, x) # it" "has_prefix p k" by (cases ?it) auto
    then have "k \<in> set (keys ?it)" by simp
    then have "k \<in> dom (txn_view t)" unfolding seek_keys_reverse using view_finite [of t] by simp
    with it(2) assms obtain q where "k = sequenceKey p q" "q \<in> Q" by blast
    with it show ?thesis by (simp add: maxStoredSequence_def)
  qed
qed

lemma check_tail_sound:
  assumes "check_tail B t tail tailFound ps = Inr ()" "p \<in> set ps" "sequenceKey p q \<in> dom (txn_view t)"
  shows "tailFound \<and> q \<le> tail"
  using assms
proof (induction ps)
  case Nil
  then show ?case by simp
next
  case (Cons p' ps)
  from Cons.prems(1) obtain r where r: "maxStoredSequence B t p' = Inr r"
    by (auto simp: gbind_Inr_iff)
  with Cons.prems(1) have rest: "check_tail B t tail tailFound ps = Inr ()"
    and m: "\<And>m. r = Some m \<Longrightarrow> tailFound \<and> m \<le> tail"
    by (auto split: option.splits if_splits)
  show ?case
  proof (cases "p = p'")
    case True
    with maxStoredSequence_sound [OF r] Cons.prems(3) m show ?thesis by fastforce
  next
    case False
    with Cons.IH [OF rest] Cons.prems(2,3) show ?thesis by simp
  qed
qed

lemma check_tail_complete:
  assumes "\<forall>p \<in> set ps. \<exists>Q. {x \<in> dom (txn_view t). has_prefix p x} = sequenceKey p ` Q
      \<and> (\<forall>q \<in> Q. tailFound \<and> q \<le> tail)"
  shows "check_tail B t tail tailFound ps = Inr ()"
  using assms
proof (induction ps)
  case Nil
  then show ?case by simp
next
  case (Cons p ps)
  then obtain Q where Q: "{x \<in> dom (txn_view t). has_prefix p x} = sequenceKey p ` Q"
    "\<forall>q \<in> Q. tailFound \<and> q \<le> tail" by auto
  from maxStoredSequence_complete [OF Q(1)] obtain r where
    "maxStoredSequence B t p = Inr r" "\<forall>m. r = Some m \<longrightarrow> m \<in> Q" by blast
  with Q(2) Cons show ?case by (cases r) (auto simp: not_less [symmetric])
qed

lemma validateStoredStates_sound:
  assumes "validateStoredStates B t n = Inr ()"
  obtains P D where "{x \<in> dom (txn_view t). has_prefix (pendingPrefix n) x} = pendingKey n ` P"
    "{x \<in> dom (txn_view t). has_prefix (deadPrefix n) x} = deadKey n ` D" "P \<inter> D = {}"
proof -
  from validate_merge_sound [OF assms [unfolded validateStoredStates_def] seek_strict seek_strict]
  obtain ps ds where pd: "parsed (pendingPrefix n) (b_seek B t False (pendingPrefix n)) ps"
    "parsed (deadPrefix n) (b_seek B t False (deadPrefix n)) ds" "set ps \<inter> set ds = {}" by blast
  have scan: "{x \<in> dom (txn_view t). has_prefix p x} = sequenceKey p ` set qs"
    if "parsed p (b_seek B t False p) qs" for p qs
  proof -
    have "{x \<in> dom (txn_view t). has_prefix p x \<and> p \<le> x} = set (takeWhile (has_prefix p) (keys (b_seek B t False p)))"
      using view_finite [of t] by (simp add: prefix_scan)
    also have "\<dots> = sequenceKey p ` set qs"
      using that unfolding parsed_def prefix_keys_def by simp
    finally show ?thesis using prefix_le by blast
  qed
  from scan [OF pd(1)] scan [OF pd(2)] pd(3) show thesis
    by (intro that [of "set ps" "set ds"]) (auto simp: pendingKey_def deadKey_def)
qed

lemma validateStoredStates_complete:
  assumes "{x \<in> dom (txn_view t). has_prefix (pendingPrefix n) x} = pendingKey n ` P"
    "{x \<in> dom (txn_view t). has_prefix (deadPrefix n) x} = deadKey n ` D" "P \<inter> D = {}"
  shows "validateStoredStates B t n = Inr ()"
proof -
  have fin: "finite {x \<in> dom (txn_view t). has_prefix p x}" for p using view_finite [of t] by simp
  have "finite P" using fin [of "pendingPrefix n"] unfolding assms(1)
    by (rule finite_imageD) (simp add: inj_on_def)
  moreover have "finite D" using fin [of "deadPrefix n"] unfolding assms(2)
    by (rule finite_imageD) (simp add: inj_on_def)
  moreover have "parsed (pendingPrefix n) (b_seek B t False (pendingPrefix n)) (sorted_list_of_set P)"
    unfolding parsed_def using assms(1) by (intro prefix_keys_seek(2)) (simp add: pendingKey_def)
  moreover have "parsed (deadPrefix n) (b_seek B t False (deadPrefix n)) (sorted_list_of_set D)"
    unfolding parsed_def using assms(2) by (intro prefix_keys_seek(2)) (simp add: deadKey_def)
  ultimately show ?thesis unfolding validateStoredStates_def
    using assms(3) by (intro validate_merge_complete) auto
qed

lemma load_tail_sound:
  assumes "load_tail B t n = Inr (tail, tailFound)"
  shows "txn_view t (metaKey n tailMetaKey) = (if tailFound then Some (be_nat 8 (unat tail)) else None)"
    and "\<not> tailFound \<Longrightarrow> tail = 0"
  using assms
  by (auto simp: load_tail_def gbind_Inr_iff be_nat_Uint64_whole dest!: get_missing get_value split: sum.splits if_splits)

lemma load_schema_sound:
  assumes "load_schema B t n = Inr t'"
  shows "txn_view t' = (txn_view t)(metaKey n schemaMetaKey \<mapsto> [schemaVersion])"
proof (cases "b_get B t (metaKey n schemaMetaKey)")
  case (Inl e)
  with assms show ?thesis by (auto simp: load_schema_def dest: set_view split: if_splits)
next
  case (Inr item)
  with assms obtain bs where bs: "item = Inr bs" "length bs = 1" "hd bs = schemaVersion" "t' = t"
    by (auto simp: load_schema_def gbind_Inr_iff split: if_splits)
  then have "bs = [schemaVersion]" by (cases bs) auto
  with bs Inr have "txn_view t (metaKey n schemaMetaKey) = Some [schemaVersion]" using get_value by simp
  with bs(4) show ?thesis by (simp add: fun_upd_idem)
qed

lemma load_done:
  assumes "load B n db = (Inr tail, db')" and n: "valid_name n"
  shows "db_view db' = (db_view db)(metaKey n schemaMetaKey \<mapsto> [schemaVersion]) \<and> loaded_ok (db_view db') n tail"
proof -
  from assms(1) obtain t f where
    schema: "load_schema B (b_newTransaction B db) n = Inr t" and
    tail: "load_tail B t n = Inr (tail, f)" and
    chk: "check_tail B t tail f [pendingPrefix n, deadPrefix n] = Inr ()" and
    val: "validateStoredStates B t n = Inr ()" and v: "db_view db' = txn_view t"
    unfolding load_def by (elim Update_done) (auto simp: load_txn_def gbind_Inr_iff)
  from validateStoredStates_sound [OF val] obtain P D where
    P: "{x \<in> dom (txn_view t). has_prefix (pendingPrefix n) x} = pendingKey n ` P" and
    D: "{x \<in> dom (txn_view t). has_prefix (deadPrefix n) x} = deadKey n ` D" and PD: "P \<inter> D = {}" .
  have pend: "q \<le> tail" if "pendingKey n q \<in> dom (txn_view t)" for q
    using check_tail_sound [OF chk, of "pendingPrefix n" q] that by (simp add: pendingKey_def)
  have dead: "q \<le> tail" if "deadKey n q \<in> dom (txn_view t)" for q
    using check_tail_sound [OF chk, of "deadPrefix n" q] that by (simp add: deadKey_def)
  have "states_disjoint (txn_view t) n"
    unfolding states_disjoint_def
  proof (rule allI, rule ccontr)
    fix q assume "\<not> (txn_view t (pendingKey n q) = None \<or> txn_view t (deadKey n q) = None)"
    then have "pendingKey n q \<in> pendingKey n ` P" "deadKey n q \<in> deadKey n ` D"
      unfolding P [symmetric] D [symmetric] by auto
    with PD show False by auto
  qed
  moreover have "\<exists>q \<le> tail. k = pendingKey n q" if "k \<in> dom (txn_view t)" "has_prefix (pendingPrefix n) k" for k
    using P that pend by blast
  moreover have "\<exists>q \<le> tail. k = deadKey n q" if "k \<in> dom (txn_view t)" "has_prefix (deadPrefix n) k" for k
    using D that dead by blast
  moreover have "tail_wf (txn_view t) n tail"
    using load_tail_sound [OF tail] by (auto simp: tail_wf_def split: if_splits)
  ultimately show ?thesis
    using load_schema_sound [OF schema] by (simp add: loaded_ok_def v new_view)
qed

lemma load_failed: "load B n db = (Inl e, db') \<Longrightarrow> db_view db' = db_view db"
  unfolding load_def by (rule Update_failed)

end

text \<open>A key that is a sequence key of a readable stream; what is left of \<open>stream_wf\<close> when the
  values are not looked at.\<close>

lemma pending_wf_range: "pending_wf v n tail \<Longrightarrow> v (pendingKey n q) = None \<or> 0 < q \<and> q \<le> tail"
  by (cases "v (pendingKey n q)") (auto dest: pending_wfD)

lemma dead_wf_range: "dead_wf v n tail \<Longrightarrow> v (deadKey n q) = None \<or> 0 < q \<and> q \<le> tail"
  by (cases "v (deadKey n q)") (auto dest: dead_wfD)

lemma wf_loaded_ok: "stream_wf v s \<Longrightarrow> loaded_ok v (s_name s) (s_tail s)"
  unfolding stream_wf_def loaded_ok_def pending_wf_def dead_wf_def by blast

context badger_reliable
begin

lemma load_schema_ok:
  assumes "txn_view t (metaKey n schemaMetaKey) \<in> {None, Some [schemaVersion]}"
  obtains t' where "load_schema B t n = Inr t'"
    "txn_view t' = (txn_view t)(metaKey n schemaMetaKey \<mapsto> [schemaVersion])"
proof -
  have "\<exists>t'. load_schema B t n = Inr t'"
    using assms set_total by (auto simp: load_schema_def get_total)
  then show thesis using load_schema_sound that by blast
qed

lemma load_tail_ok:
  assumes "tail_wf (txn_view t) n tail"
  shows "load_tail B t n = Inr (tail, txn_view t (metaKey n tailMetaKey) \<noteq> None)"
  using assms by (auto simp: load_tail_def get_total tail_wf_def seqLen_def Uint64_be)

text \<open>\<open>load\<close> accepts every stream whose keys satisfy its own checks, so in particular every
  well-formed one and every one that was never opened.\<close>

lemma load_ok:
  assumes n: "valid_name n" and v: "v = (db_view db)(metaKey n schemaMetaKey \<mapsto> [schemaVersion])"
    and ok: "loaded_ok v n tail"
    and schema: "db_view db (metaKey n schemaMetaKey) \<in> {None, Some [schemaVersion]}"
    and found: "\<And>q. pendingKey n q \<in> dom v \<or> deadKey n q \<in> dom v \<Longrightarrow> v (metaKey n tailMetaKey) \<noteq> None"
  obtains db' where "load B n db = (Inr tail, db')" "db_view db' = v"
proof -
  obtain t where t: "load_schema B (b_newTransaction B db) n = Inr t" "txn_view t = v"
    using load_schema_ok [of "b_newTransaction B db" n] schema v by (auto simp: new_view)
  let ?P = "{q. pendingKey n q \<in> dom v}" and ?D = "{q. deadKey n q \<in> dom v}"
  have P: "{x \<in> dom v. has_prefix (pendingPrefix n) x} = pendingKey n ` ?P"
    using ok unfolding loaded_ok_def by (force simp del: domIff)
  have D: "{x \<in> dom v. has_prefix (deadPrefix n) x} = deadKey n ` ?D"
    using ok unfolding loaded_ok_def by (force simp del: domIff)
  have PD: "?P \<inter> ?D = {}"
  proof (rule equals0I)
    fix q assume "q \<in> ?P \<inter> ?D"
    then have "v (pendingKey n q) \<noteq> None" "v (deadKey n q) \<noteq> None" by auto
    moreover have "states_disjoint v n" using ok by (simp add: loaded_ok_def)
    then have "v (pendingKey n q) = None \<or> v (deadKey n q) = None" unfolding states_disjoint_def by (rule spec)
    ultimately show False by auto
  qed
  have le: "q \<le> tail" if "q \<in> ?P \<union> ?D" for q
    using ok that unfolding loaded_ok_def by (metis (no_types, lifting) Un_iff deadKey_inj mem_Collect_eq
        pendingKey_inj prefix_deadKey prefix_pendingKey)
  have tail: "load_tail B t n = Inr (tail, v (metaKey n tailMetaKey) \<noteq> None)"
    using load_tail_ok [of t n tail] ok t(2) by (simp add: loaded_ok_def)
  have chk: "check_tail B t tail (v (metaKey n tailMetaKey) \<noteq> None) [pendingPrefix n, deadPrefix n] = Inr ()"
  proof (rule check_tail_complete, rule ballI)
    fix p assume "p \<in> set [pendingPrefix n, deadPrefix n]"
    then consider "p = pendingPrefix n" | "p = deadPrefix n" by auto
    then show "\<exists>Q. {x \<in> dom (txn_view t). has_prefix p x} = sequenceKey p ` Q
        \<and> (\<forall>q \<in> Q. v (metaKey n tailMetaKey) \<noteq> None \<and> q \<le> tail)"
    proof cases
      case 1
      have "\<forall>q \<in> ?P. v (metaKey n tailMetaKey) \<noteq> None \<and> q \<le> tail" using le found by blast
      with 1 P show ?thesis unfolding t(2) by (intro exI [of _ ?P]) (simp only: pendingKey_def [abs_def] simp_thms)
    next
      case 2
      have "\<forall>q \<in> ?D. v (metaKey n tailMetaKey) \<noteq> None \<and> q \<le> tail" using le found by blast
      with 2 D show ?thesis unfolding t(2) by (intro exI [of _ ?D]) (simp only: deadKey_def [abs_def] simp_thms)
    qed
  qed
  have val: "validateStoredStates B t n = Inr ()"
    by (rule validateStoredStates_complete [OF _ _ PD]) (use P D t(2) in simp_all)
  have "load_txn B n (b_newTransaction B db) = Inr (tail, t)"
    unfolding load_txn_def t(1) gbind_simps tail prod.case chk val ..
  then obtain db' where "load B n db = (Inr tail, db')" "db_view db' = txn_view t"
    unfolding load_def by (rule Update_ok)
  then show thesis using that t(2) by simp
qed

text \<open>A restart: opening a well-formed stream gives back its handle and changes nothing.\<close>

lemma load_restart:
  assumes wf: "stream_wf (db_view db) s"
  obtains db' where "load B (s_name s) db = (Inr (s_tail s), db')" "db_view db' = db_view db"
proof (rule load_ok [of "s_name s" "db_view db" db "s_tail s"])
  have w: "pending_wf (db_view db) (s_name s) (s_tail s)" "dead_wf (db_view db) (s_name s) (s_tail s)"
    "tail_wf (db_view db) (s_name s) (s_tail s)" using wf by (auto simp: stream_wf_def)
  show "db_view db (metaKey (s_name s) tailMetaKey) \<noteq> None"
    if "pendingKey (s_name s) q \<in> dom (db_view db) \<or> deadKey (s_name s) q \<in> dom (db_view db)" for q
    using that w pending_wf_range [OF w(1), of q] dead_wf_range [OF w(2), of q] by (auto simp: tail_wf_def)
qed (use wf wf_loaded_ok [OF wf] in \<open>auto simp: stream_wf_def fun_upd_idem intro: that\<close>)

lemma load_fresh:
  assumes n: "valid_name n" and no: "\<And>k. owned_by n k \<or> has_prefix (pendingPrefix n) k \<or> has_prefix (deadPrefix n) k \<Longrightarrow> db_view db k = None"
  obtains db' where "load B n db = (Inr 0, db')"
    "db_view db' = (db_view db)(metaKey n schemaMetaKey \<mapsto> [schemaVersion])"
    "stream_wf (db_view db') \<lparr>s_name = n, s_tail = 0, s_beforeCommit = b\<rparr>"
proof -
  let ?v = "(db_view db)(metaKey n schemaMetaKey \<mapsto> [schemaVersion])"
  have none: "?v (pendingKey n q) = None" "?v (deadKey n q) = None" "?v (metaKey n tailMetaKey) = None" for q
    using no n by simp_all
  have "\<not> has_prefix (pendingPrefix n) (metaKey n schemaMetaKey)" "\<not> has_prefix (deadPrefix n) (metaKey n schemaMetaKey)"
    using n by simp_all
  then have wf: "stream_wf ?v \<lparr>s_name = n, s_tail = 0, s_beforeCommit = b\<rparr>"
    using n no none by (auto simp: stream_wf_def pending_wf_def dead_wf_def states_disjoint_def tail_wf_def)
  show thesis
    by (rule load_ok [of n ?v db 0]) (use n no none wf wf_loaded_ok [OF wf] in \<open>auto intro: that\<close>)
qed

end

section \<open>Counting\<close>

lemma count_dead_result: "count_dead p it c = c\<lparr>c_DeadLetter := c_DeadLetter c + word_of_nat (length (prefix_keys p it))\<rparr>"
  by (induction it arbitrary: c) (auto simp: algebra_simps)

lemma count_pending_rest:
  "c_OldestSeq c \<noteq> 0 \<Longrightarrow>
     count_pending p it c = Inr (c\<lparr>c_Pending := c_Pending c + word_of_nat (length (prefix_keys p it))\<rparr>)"
  by (induction it arbitrary: c) (auto simp: algebra_simps)

context badger_store
begin

lemma Counts_result:
  assumes wf: "stream_wf (db_view db) s" and run: "Counts B s db = Inr c"
  defines "q \<equiv> abs_stream (db_view db) s"
  shows "c_Tail c = q_tail q \<and> c_Pending c = word_of_nat (card (dom (q_pending q)))
     \<and> c_DeadLetter c = word_of_nat (card (dom (q_dead q)))
     \<and> (if dom (q_pending q) = {} then c_OldestSeq c = 0 \<and> c_OldestTime c = zeroTime
        else c_OldestSeq c = Min (dom (q_pending q))
             \<and> (\<exists>e. q_pending q (c_OldestSeq c) = Some e \<and> c_OldestTime c = pe_CreatedAt e))"
proof -
  let ?n = "s_name s" and ?t = "b_newTransaction B db" and ?v = "db_view db"
  let ?c0 = "\<lparr>c_Tail = s_tail s, c_Pending = 0, c_DeadLetter = 0, c_OldestSeq = 0, c_OldestTime = zeroTime\<rparr>"
  let ?itp = "b_seek B ?t False (pendingPrefix ?n)" and ?itd = "b_seek B ?t False (deadPrefix ?n)"
  let ?P = "dom (pend ?v ?n)" and ?D = "dom (dlet ?v ?n)"
  have w: "pending_wf ?v ?n (s_tail s)" "dead_wf ?v ?n (s_tail s)" using wf by (auto simp: stream_wf_def)
  have P: "prefix_keys (pendingPrefix ?n) ?itp = map (pendingKey ?n) (sorted_list_of_set ?P)"
    using pending_key_set [OF w(1)] by (simp add: prefix_keys_seek(2) new_view pendingKey_def [abs_def])
  have D: "prefix_keys (deadPrefix ?n) ?itd = map (deadKey ?n) (sorted_list_of_set ?D)"
    using dead_key_set [OF w(2)] by (simp add: prefix_keys_seek(2) new_view deadKey_def [abs_def])
  obtain c1 where c1: "count_pending (pendingPrefix ?n) ?itp ?c0 = Inr c1"
    and c: "c = c1\<lparr>c_DeadLetter := c_DeadLetter c1 + word_of_nat (card ?D)\<rparr>"
    using run D by (auto simp: Counts_def View_def gbind_Inr_iff count_dead_result)
  have "c_Tail c1 = s_tail s \<and> c_DeadLetter c1 = 0 \<and> c_Pending c1 = word_of_nat (card ?P)
     \<and> (if ?P = {} then c_OldestSeq c1 = 0 \<and> c_OldestTime c1 = zeroTime
        else c_OldestSeq c1 = Min ?P \<and> (\<exists>e. pend ?v ?n (c_OldestSeq c1) = Some e \<and> c_OldestTime c1 = pe_CreatedAt e))"
  proof (cases "sorted_list_of_set ?P")
    case Nil
    then have "?P = {}" using pend_finite by simp
    moreover from Nil P c1 have "c1 = ?c0" by (cases ?itp) (auto split: if_splits)
    ultimately show ?thesis by simp
  next
    case (Cons q qs)
    then obtain x it where it: "?itp = (pendingKey ?n q, x) # it"
      "prefix_keys (pendingPrefix ?n) it = map (pendingKey ?n) qs"
      using P by (cases ?itp) (auto split: if_splits)
    have ne: "?P \<noteq> {}" using Cons by auto
    have min: "q = Min ?P" using Cons ne pend_finite by (metis list.sel(1) sorted_list_of_set_nonempty)
    have "q \<in> ?P" using Cons pend_finite by (metis list.set_intros(1) set_sorted_list_of_set)
    then have pos: "q \<noteq> 0"
      using pending_wf_range [OF w(1), of q] by (auto simp: pend_def split: option.splits)
    from c1 it obtain bs e where e: "x = Inr bs" "decodePending bs = Inr e"
      and c1': "c1 = (?c0\<lparr>c_Pending := 1, c_OldestSeq := q, c_OldestTime := pe_CreatedAt e\<rparr>)
        \<lparr>c_Pending := 1 + word_of_nat (length qs)\<rparr>"
      using pos by (auto simp: pendingKey_def gbind_Inr_iff count_pending_rest)
    have "?v (pendingKey ?n q) = Some bs"
      using seek_value [of "pendingKey ?n q" bs ?t False "pendingPrefix ?n"] it e by (simp add: new_view)
    then have "pend ?v ?n q = Some e" using e by (simp add: pend_def)
    moreover have "card ?P = Suc (length qs)"
      using Cons pend_finite by (metis length_Cons length_sorted_list_of_set)
    ultimately show ?thesis using c1' ne min by simp
  qed
  then show ?thesis by (auto simp: c q_def abs_stream_def split: if_splits)
qed

end

end
