(* ===== verification/Store_History.thy ===== *)
theory Store_History
  imports Store_Load
begin

text \<open>
  A stream over its whole life: any sequence of appends, completions, dead-letterings, requeues
  and restarts, each with any outcome. The ghost set of completed sequences is what \<open>Commit\<close>
  and \<open>Requeue\<close> remove for good. The invariant \<open>conserved\<close> says that the sequences ever
  assigned, \<open>1 \<dots> tail\<close>, are exactly the pending, the dead-lettered and the completed ones, with
  no overlap: nothing is lost, duplicated or resurrected, and no sequence is used twice.
\<close>

section \<open>Steps\<close>

type_synonym 'db history = "stream \<times> 'db \<times> u64 set"

inductive store_step :: "('db, 'txn) badger \<Rightarrow> 'db history \<Rightarrow> 'db history \<Rightarrow> bool" for B where
  append: "length ps < 2 ^ 63 \<Longrightarrow> AppendBatch B s db ps now = (r, s', db') \<Longrightarrow>
     store_step B (s, db, C) (s', db', C)"
| commit: "Commit B s seqs db = (None, db') \<Longrightarrow> store_step B (s, db, C) (s, db', C \<union> set seqs)"
| commit_fails: "Commit B s seqs db = (Some e, db') \<Longrightarrow> store_step B (s, db, C) (s, db', C)"
| dead_letter: "DeadLetter B s seq reason now db = (r, db') \<Longrightarrow> store_step B (s, db, C) (s, db', C)"
| requeue: "Requeue B s seq db = (Inr record, s', db') \<Longrightarrow> store_step B (s, db, C) (s', db', insert seq C)"
| requeue_fails: "Requeue B s seq db = (Inl e, s', db') \<Longrightarrow> store_step B (s, db, C) (s', db', C)"
| restart: "load B (s_name s) db = (Inr tail, db') \<Longrightarrow>
     store_step B (s, db, C) (\<lparr>s_name = s_name s, s_tail = tail, s_beforeCommit = None\<rparr>, db', C)"
| restart_fails: "load B (s_name s) db = (Inl e, db') \<Longrightarrow> store_step B (s, db, C) (s, db', C)"

inductive_cases store_stepE: "store_step B st st'"

definition conserved :: "(bytes \<rightharpoonup> bytes) \<Rightarrow> stream \<Rightarrow> u64 set \<Rightarrow> bool" where
  "conserved v s C \<longleftrightarrow>
     stream_wf v s
     \<and> dom (pend v (s_name s)) \<union> dom (dlet v (s_name s)) \<union> C = {q. 0 < q \<and> q \<le> s_tail s}
     \<and> dom (pend v (s_name s)) \<inter> dom (dlet v (s_name s)) = {}
     \<and> C \<inter> (dom (pend v (s_name s)) \<union> dom (dlet v (s_name s))) = {}"

section \<open>Effects on the three sets\<close>

lemma pend_dom_bounds: "stream_wf v s \<Longrightarrow> q \<in> dom (pend v (s_name s)) \<Longrightarrow> 0 < q \<and> q \<le> s_tail s"
  using pending_wf_range [of v "s_name s" "s_tail s" q]
  by (auto simp: stream_wf_def pend_def split: option.splits)

lemma next_seqs_interval:
  assumes "unat tail + n < 2 ^ 64"
  shows "set (next_seqs tail n) = {q. tail < q \<and> q \<le> tail + word_of_nat n}"
proof (intro equalityI subsetI)
  fix q assume "q \<in> {q. tail < q \<and> q \<le> tail + word_of_nat n}"
  moreover have "unat (tail + word_of_nat n) = unat tail + n"
    using assms by (simp add: unat_word_ariths unat_of_nat)
  ultimately have q: "unat tail < unat q" "unat q \<le> unat tail + n"
    by (auto simp: word_less_nat_alt word_le_nat_alt)
  define i where "i = unat q - unat tail - 1"
  have "q = tail + word_of_nat i + 1"
    using q assms by (simp add: word_unat_eq_iff unat_next_seq i_def)
  moreover have "i < n" using q by (simp add: i_def)
  ultimately show "q \<in> set (next_seqs tail n)" by (auto simp: set_next_seqs)
qed (use assms next_seqs_bounds in blast)

lemma append_conserved:
  assumes "conserved v s C" "append_effect s v ps now recs s' v'"
  shows "conserved v' s' C \<and> s_tail s \<le> s_tail s'"
proof -
  let ?n = "s_name s" and ?new = "set (next_seqs (s_tail s) (length ps))"
  have e: "abs_stream v' s' = q_append now ps (abs_stream v s)" "unat (s_tail s) + length ps < 2 ^ 64"
    "s' = s\<lparr>s_tail := s_tail s + word_of_nat (length ps)\<rparr>" "stream_wf v' s'"
    using assms(2) by (auto simp: append_effect_def)
  from e(1,3) have p: "dom (pend v' ?n) = dom (pend v ?n) \<union> ?new" "dlet v' ?n = dlet v ?n"
    by (auto simp: abs_stream_def q_append_def dom_map_of_zip)
  have new: "?new = {q. s_tail s < q \<and> q \<le> s_tail s'}"
    using next_seqs_interval [OF e(2)] e(3) by simp
  have le: "s_tail s \<le> s_tail s'"
    using e(2,3) by (simp add: word_le_nat_alt unat_word_ariths unat_of_nat)
  have "{q. 0 < q \<and> q \<le> s_tail s'} = {q. 0 < q \<and> q \<le> s_tail s} \<union> ?new"
    unfolding new using le by auto (metis le_less_trans word_gt_0 word_zero_le)
  moreover have "{q. 0 < q \<and> q \<le> s_tail s} \<inter> ?new = {}" unfolding new by auto
  ultimately show ?thesis
    using assms(1) e(3,4) p le unfolding conserved_def by auto
qed

lemma commit_conserved:
  assumes "conserved v s C" "commit_effect s v seqs v'"
  shows "conserved v' s (C \<union> set seqs)"
proof -
  have "pend v' (s_name s) = pend v (s_name s) |` (- set seqs)" "dlet v' (s_name s) = dlet v (s_name s)"
    "set seqs \<subseteq> dom (pend v (s_name s))" "stream_wf v' s"
    using assms(2) by (auto simp: commit_effect_def abs_stream_def q_commit_def)
  with assms(1) show ?thesis unfolding conserved_def by auto
qed

lemma deadletter_conserved:
  assumes "conserved v s C" "deadletter_effect s v seq reason now v'"
  shows "conserved v' s C"
proof -
  obtain e where "pend v (s_name s) seq = Some e"
    and "pend v' (s_name s) = (pend v (s_name s))(seq := None)"
    and "dlet v' (s_name s) = (dlet v (s_name s))(seq \<mapsto> dead_of (s_name s) seq reason now e)"
    and "stream_wf v' s"
    using assms(2) by (auto simp: deadletter_effect_def abs_stream_def q_deadletter_def)
  with assms(1) show ?thesis unfolding conserved_def by auto
qed

lemma requeue_conserved:
  assumes "conserved v s C" "requeue_effect s v seq record s' v'"
  shows "conserved v' s' (insert seq C) \<and> s_tail s \<le> s_tail s'"
proof -
  let ?n = "s_name s" and ?q = "s_tail s + 1"
  obtain d where d: "dlet v ?n seq = Some d" and s': "s' = s\<lparr>s_tail := ?q\<rparr>" and top: "s_tail s \<noteq> MaxUint64"
    and p: "dom (pend v' ?n) = insert ?q (dom (pend v ?n))" "dom (dlet v' ?n) = dom (dlet v ?n) - {seq}"
    and wf: "stream_wf v' s'"
    using assms(2) by (auto simp: requeue_effect_def abs_stream_def q_requeue_def)
  have lt: "s_tail s < ?q" using top by (rule less_inc)
  have "{q. 0 < q \<and> q \<le> ?q} = insert ?q {q. 0 < q \<and> q \<le> s_tail s}"
    using lt unat_inc [OF top] by (auto simp: word_less_nat_alt word_le_nat_alt word_unat_eq_iff)
  moreover have "?q \<notin> {q. 0 < q \<and> q \<le> s_tail s}" using lt by auto
  moreover have "seq \<in> {q. 0 < q \<and> q \<le> s_tail s}" using assms(1) d unfolding conserved_def by blast
  ultimately show ?thesis using assms(1) d s' p wf lt unfolding conserved_def by auto
qed

section \<open>Every step conserves\<close>

lemma tail_wf_unique: "tail_wf v n a \<Longrightarrow> tail_wf v n b \<Longrightarrow> a = b"
  by (auto simp: tail_wf_def be_nat8_inj)

lemma conserved_hook: "conserved v \<lparr>s_name = s_name s, s_tail = s_tail s, s_beforeCommit = b\<rparr> C \<longleftrightarrow> conserved v s C"
  by (simp add: conserved_def stream_wf_def)

context badger_store
begin

lemma restart_conserved:
  assumes "conserved (db_view db) s C" "load B (s_name s) db = (Inr tail, db')"
  shows "tail = s_tail s \<and> db_view db' = db_view db"
proof -
  have wf: "stream_wf (db_view db) s" using assms(1) by (simp add: conserved_def)
  then have v: "db_view db' = db_view db" "loaded_ok (db_view db') (s_name s) tail"
    using load_done [OF assms(2)] by (auto simp: stream_wf_def fun_upd_idem)
  with wf show ?thesis by (auto simp: loaded_ok_def stream_wf_def dest: tail_wf_unique)
qed

lemma step_conserved:
  assumes "store_step B (s, db, C) (s', db', C')" "conserved (db_view db) s C"
    and wf: "stream_wf (db_view db) s"
  shows "conserved (db_view db') s' C' \<and> s_tail s \<le> s_tail s'"
  using assms(1)
proof cases
  case (append ps now r)
  show ?thesis
  proof (cases r)
    case (Inl e)
    with append assms(2) show ?thesis by (auto dest!: AppendBatch_failed)
  next
    case (Inr recs)
    with append wf have "append_effect s (db_view db) ps now recs s' (db_view db')"
      by (intro AppendBatch_refines) auto
    with append(1) append_conserved [OF assms(2)] show ?thesis by simp
  qed
next
  case (commit seqs)
  with commit_conserved [OF assms(2) Commit_refines [OF wf]] show ?thesis by simp
next
  case (commit_fails seqs e)
  with assms(2) show ?thesis by (auto dest!: Commit_failed)
next
  case (dead_letter seq reason now r)
  show ?thesis
  proof (cases r)
    case None
    with dead_letter deadletter_conserved [OF assms(2) DeadLetter_refines [OF wf]] show ?thesis by simp
  next
    case (Some e)
    with dead_letter assms(2) show ?thesis by (auto dest!: DeadLetter_failed)
  qed
next
  case (requeue seq rec)
  with requeue_conserved [OF assms(2) Requeue_refines [OF wf]] show ?thesis by simp
next
  case (requeue_fails seq e)
  with assms(2) show ?thesis by (auto dest!: Requeue_failed)
next
  case (restart tail)
  with assms(2) restart_conserved [OF assms(2)] show ?thesis by (auto simp: conserved_hook)
next
  case (restart_fails e)
  with assms(2) show ?thesis by (auto dest!: load_failed)
qed

lemma run_conserved:
  assumes "(store_step B)\<^sup>*\<^sup>* (s, db, C) (s', db', C')" "conserved (db_view db) s C"
  shows "conserved (db_view db') s' C' \<and> s_tail s \<le> s_tail s'"
  using assms
proof (induction "(s', db', C')" arbitrary: s' db' C' rule: rtranclp_induct)
  case base
  then show ?case by simp
next
  case (step st)
  obtain s1 db1 C1 where st: "st = (s1, db1, C1)" by (cases st)
  with step have c: "conserved (db_view db1) s1 C1" "s_tail s \<le> s_tail s1" by auto
  then have "stream_wf (db_view db1) s1" by (simp add: conserved_def)
  with step_conserved [of s1 db1 C1 s' db' C'] step(2) st c show ?case by auto
qed

end

lemma conserved_fresh:
  assumes wf: "stream_wf v s" and "s_tail s = 0"
  shows "conserved v s {}"
proof -
  have "pend v (s_name s) q = None" "dlet v (s_name s) q = None" for q
    using pending_wf_range [of v "s_name s" "s_tail s" q] dead_wf_range [of v "s_name s" "s_tail s" q] assms
    by (auto simp: stream_wf_def pend_def dlet_def)
  then have "dom (pend v (s_name s)) = {}" "dom (dlet v (s_name s)) = {}" by auto
  moreover have "{q :: u64. 0 < q \<and> q \<le> 0} = {}" by auto
  ultimately show ?thesis using assms by (simp add: conserved_def)
qed

section \<open>Streams do not interfere\<close>

lemma owned_by_prefix:
  assumes "valid_name n" "valid_name m" "n \<noteq> m" "owned_by n k"
  shows "\<not> has_prefix (pendingPrefix m) k" "\<not> has_prefix (deadPrefix m) k"
proof -
  have "\<not> has_prefix (pendingPrefix m) (deadKey n q)" "\<not> has_prefix (deadPrefix m) (pendingKey n q)" for q
    using pending_dead_disjoint assms(1,2) prefix_deadKey prefix_pendingKey by blast+
  with assms pending_keys.foreign_key [of m n] dead_keys.foreign_key [of m n]
    pending_keys.no_meta [of m n] dead_keys.no_meta [of m n]
  show "\<not> has_prefix (pendingPrefix m) k" "\<not> has_prefix (deadPrefix m) k"
    unfolding owned_by_def pendingKey_def deadKey_def by auto
qed

lemma same_elsewhere_wf:
  assumes "same_elsewhere n v v'" "valid_name n" "n \<noteq> s_name s" "stream_wf v s"
  shows "stream_wf v' s"
proof -
  have m: "valid_name (s_name s)" using assms(4) by (simp add: stream_wf_def)
  have own: "v' k = v k" if "owned_by (s_name s) k" for k
    using assms(1) owned_by_other [OF assms(2) m assms(3) that] by (auto simp: same_elsewhere_def)
  have pre: "v' k = v k" if "has_prefix (pendingPrefix (s_name s)) k \<or> has_prefix (deadPrefix (s_name s)) k" for k
    using assms(1) owned_by_prefix [OF assms(2) m assms(3)] that by (auto simp: same_elsewhere_def)
  have "pending_wf v' (s_name s) (s_tail s)" "dead_wf v' (s_name s) (s_tail s)"
    using assms(4) pre unfolding stream_wf_def pending_wf_def dead_wf_def by metis+
  then show ?thesis
    using assms(4) own by (simp add: stream_wf_def states_disjoint_def tail_wf_def)
qed

context badger_store
begin

lemma step_elsewhere:
  assumes "store_step B (s, db, C) (s', db', C')" and wf: "stream_wf (db_view db) s"
  shows "same_elsewhere (s_name s) (db_view db) (db_view db')"
  using assms(1)
proof cases
  case (append ps now r)
  with wf show ?thesis
    by (cases r) (auto dest!: AppendBatch_failed AppendBatch_refines [OF wf, rotated] simp: append_effect_def)
next
  case (commit seqs)
  with Commit_refines [OF wf] show ?thesis by (simp add: commit_effect_def)
next
  case (commit_fails seqs e)
  then show ?thesis by (auto dest!: Commit_failed)
next
  case (dead_letter seq reason now r)
  then show ?thesis
    by (cases r) (auto dest!: DeadLetter_failed DeadLetter_refines [OF wf] simp: deadletter_effect_def)
next
  case (requeue seq rec)
  with Requeue_refines [OF wf] show ?thesis by (simp add: requeue_effect_def)
next
  case (requeue_fails seq e)
  then show ?thesis by (auto dest!: Requeue_failed)
next
  case (restart tail)
  with wf load_done [OF restart(3)] show ?thesis by (auto simp: stream_wf_def)
next
  case (restart_fails e)
  then show ?thesis by (auto dest!: load_failed)
qed

end

end
