(* ===== verification/Store_Props.thy ===== *)
theory Store_Props
  imports Store_History
begin

text \<open>
  The properties of the persistence layer, stated for every database with the behaviour
  \<open>badger_store\<close> and witnessed on \<open>mem_badger\<close>. The demonstration stream \<open>demo_stream\<close> is named
  \<open>q\<close>; \<open>demo_db\<close> is the database right after opening it, and each later demonstration state is
  the result of one more operation.
\<close>

section \<open>Demonstration states\<close>

definition demo_stream :: stream where
  "demo_stream = \<lparr>s_name = str ''q'', s_tail = 0, s_beforeCommit = None\<rparr>"

definition demo_db :: kv where
  "demo_db = [(metaKey (str ''q'') schemaMetaKey, [schemaVersion])]"

definition demo_stream1 :: stream where
  "demo_stream1 = demo_stream\<lparr>s_tail := 1\<rparr>"

definition demo_db1 :: kv where
  "demo_db1 = snd (snd (AppendBatch mem_badger demo_stream demo_db [[7]] 5))"

definition demo_db2 :: kv where
  "demo_db2 = snd (DeadLetter mem_badger demo_stream1 1 [9] 6 demo_db1)"

lemma demo_name: "valid_name (str ''q'')"
  by (simp add: valid_name_def ValidateStreamName_def valid_name_char_def str_def)

lemma demo_wf: "stream_wf (map_of demo_db) demo_stream"
  using demo_name
  by (auto simp: stream_wf_def pending_wf_def dead_wf_def states_disjoint_def tail_wf_def
      demo_stream_def demo_db_def split: if_splits)

lemma demo_append:
  "AppendBatch mem_badger demo_stream demo_db [[7]] 5 =
     (Inr [\<lparr>r_Seq = 1, r_CreatedAt = 5, r_OriginStream = [], r_OriginSeq = 0, r_Payload = [7]\<rparr>],
      demo_stream1, demo_db1)"
  unfolding demo_db1_def demo_stream1_def
  by (simp add: eval_simps demo_stream_def demo_db_def)

lemma demo_effect1: "append_effect demo_stream (map_of demo_db) [[7]] 5
    [\<lparr>r_Seq = 1, r_CreatedAt = 5, r_OriginStream = [], r_OriginSeq = 0, r_Payload = [7]\<rparr>]
    demo_stream1 (map_of demo_db1)"
  by (rule mem.AppendBatch_refines [OF demo_wf _ demo_append]) simp

lemma demo_wf1: "stream_wf (map_of demo_db1) demo_stream1"
  using demo_effect1 by (simp add: append_effect_def)

lemma demo_pending1: "pend (map_of demo_db1) (str ''q'') = [1 \<mapsto> fresh_envelope 5 [7]]"
  using demo_effect1 demo_wf pend_dom_bounds [OF demo_wf]
  by (auto simp: append_effect_def abs_stream_def q_append_def next_seqs_def demo_stream_def
      demo_stream1_def fun_eq_iff)

lemma demo_db1_eval:
  "demo_db1 =
     [(metaKey (str ''q'') schemaMetaKey, [schemaVersion]),
      (pendingKey (str ''q'') 1,
       [1, 0,0,0,0,0,0,0,5, 0,0,0,0,0,0,0,0, 0,0,0,0, 0,0,0,0,0,0,0,1, 7]),
      (metaKey (str ''q'') tailMetaKey, [0,0,0,0,0,0,0,1])]"
  unfolding demo_db1_def by (simp add: eval_simps demo_stream_def demo_db_def)

lemmas decode_eval = decodePending_def decodeDead_def reader_uint64_def reader_string32_def
  reader_bytes64_def Uint64_def Uint32_def time_Unix0_def

lemma demo_deadletter: "DeadLetter mem_badger demo_stream1 1 [9] 6 demo_db1 = (None, demo_db2)"
  unfolding demo_db2_def demo_db1_eval
  by (simp add: decode_eval eval_simps demo_stream1_def demo_stream_def)

lemma demo_effect2: "deadletter_effect demo_stream1 (map_of demo_db1) 1 [9] 6 (map_of demo_db2)"
  by (rule mem.DeadLetter_refines [OF demo_wf1 demo_deadletter])

lemma demo_wf2: "stream_wf (map_of demo_db2) demo_stream1"
  using demo_effect2 by (simp add: deadletter_effect_def)

lemma demo_db2_eval:
  "demo_db2 =
     [(metaKey (str ''q'') schemaMetaKey, [schemaVersion]),
      (metaKey (str ''q'') tailMetaKey, [0,0,0,0,0,0,0,1]),
      (deadKey (str ''q'') 1,
       [1, 0,0,0,0,0,0,0,5, 0,0,0,0,0,0,0,6, 0,0,0,0,0,0,0,1, 0,0,0,1, 113,
        0,0,0,0,0,0,0,1, 7, 0,0,0,1, 9])]"
  unfolding demo_db2_def demo_db1_eval
  by (simp add: decode_eval eval_simps demo_stream1_def demo_stream_def)

section \<open>The operations implement the abstract queue\<close>

text \<open>C8. Appending: on a well-formed stream, over any database with Badger's transactional
  behaviour, \<open>AppendBatch\<close> either fails and leaves the handle and the whole database contents as
  they were, or it appends the batch to the queue as one unit: the records get the
  sequences \<open>tail + 1, tail + 2, \<dots>\<close> in order without wrap-around, carry the given payloads,
  the stream stays well-formed, and no key of another stream changes.\<close>

theorem append_batch_correct:
  assumes "badger_store B db_view txn_view" "stream_wf (db_view db) s" "length payloads < 2 ^ 63"
    and "AppendBatch B s db payloads now = (r, s', db')"
  shows "case r of
       Inl e \<Rightarrow> s' = s \<and> db_view db' = db_view db
     | Inr recs \<Rightarrow> append_effect s (db_view db) payloads now recs s' (db_view db')"
proof (cases r)
  case (Inl e)
  with badger_store.AppendBatch_failed [OF assms(1)] assms(4) show ?thesis by simp
next
  case (Inr recs)
  with badger_store.AppendBatch_refines [OF assms(1,2)] assms(3,4) show ?thesis by simp
qed

theorem append_batch_correct_witness:
  "\<exists>recs. AppendBatch mem_badger demo_stream demo_db [[7]] 5 = (Inr recs, demo_stream1, demo_db1)
     \<and> append_effect demo_stream (map_of demo_db) [[7]] 5 recs demo_stream1 (map_of demo_db1)"
  using append_batch_correct [OF mem.badger_store_axioms demo_wf _ demo_append] demo_append by auto

text \<open>C9. Completing: \<open>Commit\<close> either fails and changes nothing, or every given sequence was
  pending, all were different, and exactly these records are gone.\<close>

theorem commit_correct:
  assumes "badger_store B db_view txn_view" "stream_wf (db_view db) s" "Commit B s seqs db = (r, db')"
  shows "case r of
       Some e \<Rightarrow> db_view db' = db_view db
     | None \<Rightarrow> commit_effect s (db_view db) seqs (db_view db')"
  using badger_store.Commit_failed [OF assms(1)] badger_store.Commit_refines [OF assms(1,2)] assms(3)
  by (cases r) simp_all

theorem commit_correct_witness:
  "\<exists>db'. Commit mem_badger demo_stream1 [1] demo_db1 = (None, db')
     \<and> commit_effect demo_stream1 (map_of demo_db1) [1] (map_of db')"
proof -
  have "\<exists>db'. Commit mem_badger demo_stream1 [1] demo_db1 = (None, db')"
    unfolding demo_db1_eval by (simp add: eval_simps demo_stream1_def demo_stream_def)
  then show ?thesis using commit_correct [OF mem.badger_store_axioms demo_wf1] by fastforce
qed

text \<open>C10. Dead-lettering: \<open>DeadLetter\<close> either fails and changes nothing, or it moves the pending
  record to the dead letters in one step, keeping payload and creation time and recording
  reason, time and origin.\<close>

theorem dead_letter_correct:
  assumes "badger_store B db_view txn_view" "stream_wf (db_view db) s"
    and "DeadLetter B s seq reason now db = (r, db')"
  shows "case r of
       Some e \<Rightarrow> db_view db' = db_view db
     | None \<Rightarrow> deadletter_effect s (db_view db) seq reason now (db_view db')"
  using badger_store.DeadLetter_failed [OF assms(1)] badger_store.DeadLetter_refines [OF assms(1,2)] assms(3)
  by (cases r) simp_all

theorem dead_letter_correct_witness:
  "DeadLetter mem_badger demo_stream1 1 [9] 6 demo_db1 = (None, demo_db2)
     \<and> deadletter_effect demo_stream1 (map_of demo_db1) 1 [9] 6 (map_of demo_db2)"
  using dead_letter_correct [OF mem.badger_store_axioms demo_wf1 demo_deadletter] demo_deadletter by simp

text \<open>C11. Requeuing: \<open>Requeue\<close> either fails and changes nothing, or the dead letter becomes a
  pending record with a new sequence, the next after the tail, keeping its payload, its creation
  time and the origin recorded when it was first dead-lettered.\<close>

theorem requeue_correct:
  assumes "badger_store B db_view txn_view" "stream_wf (db_view db) s"
    and "Requeue B s seq db = (r, s', db')"
  shows "case r of
       Inl e \<Rightarrow> s' = s \<and> db_view db' = db_view db
     | Inr rec \<Rightarrow> requeue_effect s (db_view db) seq rec s' (db_view db')"
  using badger_store.Requeue_failed [OF assms(1)] badger_store.Requeue_refines [OF assms(1,2)] assms(3)
  by (cases r) simp_all

theorem requeue_correct_witness:
  "\<exists>rec s' db'. Requeue mem_badger demo_stream1 1 demo_db2 = (Inr rec, s', db')
     \<and> requeue_effect demo_stream1 (map_of demo_db2) 1 rec s' (map_of db')
     \<and> r_Seq rec = 2 \<and> r_OriginStream rec = str ''q'' \<and> r_OriginSeq rec = 1 \<and> r_Payload rec = [7]"
proof -
  have "\<exists>rec s' db'. Requeue mem_badger demo_stream1 1 demo_db2 = (Inr rec, s', db')
     \<and> r_Seq rec = 2 \<and> r_OriginStream rec = str ''q'' \<and> r_OriginSeq rec = 1 \<and> r_Payload rec = [7]"
    unfolding demo_db2_eval by (simp add: decode_eval eval_simps demo_stream1_def demo_stream_def)
  then show ?thesis using requeue_correct [OF mem.badger_store_axioms demo_wf2] by fastforce
qed

text \<open>C12. Conservation: over any run of the store operations and restarts, whatever fails, the
  sequences \<open>1 \<dots> tail\<close> are exactly the pending, the dead-lettered and the completed ones,
  without overlap, and the tail never goes back. So no record is lost or delivered from two
  places, and no sequence is assigned twice.\<close>

theorem store_conservation:
  assumes "badger_store B db_view txn_view" "conserved (db_view db) s C"
    and "(store_step B)\<^sup>*\<^sup>* (s, db, C) (s', db', C')"
  shows "conserved (db_view db') s' C' \<and> s_tail s \<le> s_tail s'"
  by (rule badger_store.run_conserved [OF assms(1,3,2)])

theorem store_conservation_witness:
  "conserved (map_of demo_db2) demo_stream1 {} \<and> s_tail demo_stream \<le> s_tail demo_stream1"
proof (rule store_conservation [OF mem.badger_store_axioms])
  show "conserved (map_of demo_db) demo_stream {}"
    by (rule conserved_fresh [OF demo_wf]) (simp add: demo_stream_def)
  have "store_step mem_badger (demo_stream, demo_db, {}) (demo_stream1, demo_db1, {})"
    by (rule store_step.append [OF _ demo_append]) simp
  moreover have "store_step mem_badger (demo_stream1, demo_db1, {}) (demo_stream1, demo_db2, {})"
    by (rule store_step.dead_letter [OF demo_deadletter])
  ultimately show "(store_step mem_badger)\<^sup>*\<^sup>* (demo_stream, demo_db, {}) (demo_stream1, demo_db2, {})"
    by simp
qed

text \<open>C25. Isolation: no step of one stream changes the queue or the well-formedness of another.\<close>

theorem stream_isolation:
  assumes "badger_store B db_view txn_view" "stream_wf (db_view db) s" "stream_wf (db_view db) t"
    and "s_name t \<noteq> s_name s" "store_step B (s, db, C) (s', db', C')"
  shows "stream_wf (db_view db') t \<and> abs_stream (db_view db') t = abs_stream (db_view db) t"
proof -
  have "same_elsewhere (s_name s) (db_view db) (db_view db')"
    by (rule badger_store.step_elsewhere [OF assms(1,5,2)])
  moreover have "valid_name (s_name s)" "valid_name (s_name t)"
    using assms(2,3) by (simp_all add: stream_wf_def)
  ultimately show ?thesis
    using same_elsewhere_wf same_elsewhere_abs assms(3,4) by metis
qed

definition demo_db_two :: kv where
  "demo_db_two = (metaKey (str ''r'') schemaMetaKey, [schemaVersion]) # demo_db"

lemma demo_two_wf:
  "stream_wf (map_of demo_db_two) demo_stream" "stream_wf (map_of demo_db_two) (demo_stream\<lparr>s_name := str ''r''\<rparr>)"
proof -
  have r: "valid_name (str ''r'')"
    by (simp add: valid_name_def ValidateStreamName_def valid_name_char_def str_def)
  show "stream_wf (map_of demo_db_two) demo_stream" "stream_wf (map_of demo_db_two) (demo_stream\<lparr>s_name := str ''r''\<rparr>)"
    using demo_name r
    by (auto simp: stream_wf_def pending_wf_def dead_wf_def states_disjoint_def tail_wf_def
        demo_stream_def demo_db_def demo_db_two_def eval_simps split: if_splits)
qed

theorem stream_isolation_witness:
  "\<exists>recs s' db'. AppendBatch mem_badger demo_stream demo_db_two [[7]] 5 = (Inr recs, s', db')
     \<and> abs_stream (map_of db') (demo_stream\<lparr>s_name := str ''r''\<rparr>)
       = abs_stream (map_of demo_db_two) (demo_stream\<lparr>s_name := str ''r''\<rparr>)"
proof -
  have ne: "s_name (demo_stream\<lparr>s_name := str ''r''\<rparr>) \<noteq> s_name demo_stream"
    by (simp add: demo_stream_def str_def)
  obtain recs s' db' where run: "AppendBatch mem_badger demo_stream demo_db_two [[7]] 5 = (Inr recs, s', db')"
    by (simp add: eval_simps demo_stream_def demo_db_def demo_db_two_def)
  then have "store_step mem_badger (demo_stream, demo_db_two, {}) (s', db', {})"
    by (intro store_step.append) auto
  from stream_isolation [OF mem.badger_store_axioms demo_two_wf ne this] run show ?thesis by blast
qed

section \<open>Reading and opening\<close>

text \<open>C26. Scanning: a successful \<open>ScanBatch\<close> returns the pending records from the given sequence
  on, in strictly increasing sequence order, at most \<open>limit\<close> of them and none skipped.\<close>

theorem scan_batch_correct:
  assumes "badger_store B db_view txn_view" "stream_wf (db_view db) s"
    and "ScanBatch B (s_name s) db lo limit = Inr recs"
  shows "recs = map (\<lambda>q. record_of q (the (pend (db_view db) (s_name s) q)))
       (take (nat limit) (sorted_list_of_set {q \<in> dom (pend (db_view db) (s_name s)). lo \<le> q}))"
  by (rule badger_store.ScanBatch_result [OF assms(1) _ assms(3)])
    (use assms(2) in \<open>auto simp: stream_wf_def\<close>)

lemma demo_scan:
  "ScanBatch mem_badger (s_name demo_stream1) demo_db1 1 10 =
     Inr [\<lparr>r_Seq = 1, r_CreatedAt = 5, r_OriginStream = [], r_OriginSeq = 0, r_Payload = [7]\<rparr>]"
  unfolding demo_db1_eval
  by (simp add: decode_eval eval_simps demo_stream1_def demo_stream_def)

theorem scan_batch_correct_witness:
  "[\<lparr>r_Seq = 1, r_CreatedAt = 5, r_OriginStream = [], r_OriginSeq = 0, r_Payload = [7]\<rparr>] =
     map (\<lambda>q. record_of q (the (pend (map_of demo_db1) (s_name demo_stream1) q)))
       (take 10 (sorted_list_of_set {q \<in> dom (pend (map_of demo_db1) (s_name demo_stream1)). 1 \<le> q}))"
  using scan_batch_correct [OF mem.badger_store_axioms demo_wf1 demo_scan] by simp

text \<open>C27. Restart: on a database that does not fail, opening a well-formed stream succeeds, gives
  back the tail the stream had, and leaves the contents as they were.\<close>

theorem load_restores:
  assumes "badger_reliable B db_view txn_view" "stream_wf (db_view db) s"
  shows "\<exists>db'. load B (s_name s) db = (Inr (s_tail s), db') \<and> db_view db' = db_view db"
  using badger_reliable.load_restart [OF assms] by blast

theorem load_restores_witness:
  "\<exists>db'. load mem_badger (s_name demo_stream1) demo_db2 = (Inr 1, db') \<and> map_of db' = map_of demo_db2"
  using load_restores [OF mem.badger_reliable_axioms demo_wf2] by (simp add: demo_stream1_def)

text \<open>C28. Opening is guarded: whatever the database holds, when \<open>load\<close> succeeds every key under
  the stream's prefixes is a well-formed sequence key not above the tail, no sequence is both
  pending and dead, the tail is the stored one, and all that was written is the schema key;
  when it fails nothing was written.\<close>

theorem load_checks:
  assumes "badger_store B db_view txn_view" "valid_name name" "load B name db = (r, db')"
  shows "case r of
       Inl e \<Rightarrow> db_view db' = db_view db
     | Inr tail \<Rightarrow> loaded_ok (db_view db') name tail
         \<and> db_view db' = (db_view db)(metaKey name schemaMetaKey \<mapsto> [schemaVersion])"
proof (cases r)
  case (Inl e)
  with badger_store.load_failed [OF assms(1)] assms(3) show ?thesis by simp
next
  case (Inr tail)
  with badger_store.load_done [OF assms(1) _ assms(2)] assms(3) show ?thesis unfolding Inr sum.case by blast
qed

theorem load_checks_witness:
  "loaded_ok (map_of demo_db) (str ''q'') 0"
proof -
  have "load mem_badger (str ''q'') [] = (Inr 0, demo_db)"
    by (simp add: load_def load_txn_def load_schema_def load_tail_def maxStoredSequence_def
        validateStoredStates_def validate_merge.simps eval_simps demo_db_def)
  from load_checks [OF mem.badger_store_axioms demo_name this] show ?thesis unfolding sum.case by (rule conjunct1)
qed

text \<open>A regressed tail is refused: if some pending or dead-letter key of the stream has a
  sequence above the stored tail, \<open>load\<close> fails.\<close>

theorem load_rejects_regression:
  assumes "badger_store B db_view txn_view" "valid_name name"
    and "db_view db (metaKey name tailMetaKey) = Some (be_nat 8 (unat tail))"
    and "db_view db (pendingKey name q) \<noteq> None \<or> db_view db (deadKey name q) \<noteq> None" "tail < q"
  shows "\<exists>e db'. load B name db = (Inl e, db') \<and> db_view db' = db_view db"
proof -
  obtain r db' where run: "load B name db = (r, db')" by (cases "load B name db")
  show ?thesis
  proof (cases r)
    case (Inl e)
    with run badger_store.load_failed [OF assms(1)] show ?thesis by blast
  next
    case (Inr t)
    with run badger_store.load_done [OF assms(1) _ assms(2)]
    have v: "db_view db' = (db_view db)(metaKey name schemaMetaKey \<mapsto> [schemaVersion])"
      and ok: "loaded_ok (db_view db') name t" by blast+
    then have "db_view db' (metaKey name tailMetaKey) = Some (be_nat 8 (unat tail))" using assms(3) by simp
    with ok have t: "t = tail" by (auto simp: loaded_ok_def tail_wf_def be_nat8_inj)
    have "pendingKey name q \<in> dom (db_view db') \<or> deadKey name q \<in> dom (db_view db')"
      using assms(4) v by auto
    with ok t have "q \<le> tail"
      unfolding loaded_ok_def by (metis prefix_pendingKey prefix_deadKey pendingKey_inj deadKey_inj)
    with assms(5) show ?thesis by simp
  qed
qed

theorem load_rejects_regression_witness:
  "\<exists>e db'. load mem_badger (str ''q'')
       [(metaKey (str ''q'') tailMetaKey, be_nat 8 (unat (1 :: u64))), (pendingKey (str ''q'') 2, [])] = (Inl e, db')"
  using load_rejects_regression [OF mem.badger_store_axioms demo_name, of
      "[(metaKey (str ''q'') tailMetaKey, be_nat 8 (unat (1 :: u64))), (pendingKey (str ''q'') 2, [])]" 1 2]
  using demo_name by simp blast

text \<open>C29. Statistics: \<open>Counts\<close> reports the tail, the numbers of pending and dead records and, as
  the oldest pending record, the one with the least sequence with its creation time.\<close>

theorem counts_correct:
  assumes "badger_store B db_view txn_view" "stream_wf (db_view db) s" "Counts B s db = Inr c"
    and "q = abs_stream (db_view db) s"
  shows "c_Tail c = q_tail q \<and> c_Pending c = word_of_nat (card (dom (q_pending q)))
     \<and> c_DeadLetter c = word_of_nat (card (dom (q_dead q)))
     \<and> (if dom (q_pending q) = {} then c_OldestSeq c = 0 \<and> c_OldestTime c = zeroTime
        else c_OldestSeq c = Min (dom (q_pending q))
             \<and> (\<exists>e. q_pending q (c_OldestSeq c) = Some e \<and> c_OldestTime c = pe_CreatedAt e))"
  unfolding assms(4) by (rule badger_store.Counts_result [OF assms(1-3)])

theorem counts_correct_witness:
  "Counts mem_badger demo_stream1 demo_db1 =
       Inr \<lparr>c_Tail = 1, c_Pending = 1, c_DeadLetter = 0, c_OldestSeq = 1, c_OldestTime = 5\<rparr>
     \<and> (1 :: u64) = word_of_nat (card (dom (q_pending (abs_stream (map_of demo_db1) demo_stream1))))"
proof -
  have run: "Counts mem_badger demo_stream1 demo_db1 =
       Inr \<lparr>c_Tail = 1, c_Pending = 1, c_DeadLetter = 0, c_OldestSeq = 1, c_OldestTime = 5\<rparr>"
    unfolding demo_db1_eval by (simp add: Counts_def decode_eval eval_simps demo_stream1_def demo_stream_def)
  from counts_correct [OF mem.badger_store_axioms demo_wf1 run refl] run show ?thesis by simp
qed

section \<open>Formats\<close>

text \<open>C30. Envelope round trip, both kinds: what can be encoded decodes to itself with its
  instants reduced to the range of \<open>UnixNano\<close>; encoding fails exactly on oversized fields; and
  whatever decodes within the size limits is the one encoding of its value.\<close>

theorem envelope_round_trip:
  "(small_pending p \<longleftrightarrow> \<not> isl (encodePending p))
   \<and> (small_dead d \<longleftrightarrow> \<not> isl (encodeDead d))
   \<and> (encodePending p = Inr bs \<longrightarrow> decodePending bs = Inr (norm_pending p))
   \<and> (encodeDead d = Inr bs \<longrightarrow> decodeDead bs = Inr (norm_dead d))
   \<and> (decodePending bs = Inr p \<and> small_pending p \<longrightarrow> encodePending p = Inr bs)
   \<and> (decodeDead bs = Inr d \<and> small_dead d \<longrightarrow> encodeDead d = Inr bs)"
  using pending_codec.enc_small dead_codec.enc_small pending_codec.dec_enc dead_codec.dec_enc
    pending_codec.enc_dec dead_codec.enc_dec
  by blast

theorem envelope_round_trip_witness:
  "decodePending [1, 0,0,0,0,0,0,0,5, 0,0,0,0,0,0,0,0, 0,0,0,0, 0,0,0,0,0,0,0,1, 7] =
     Inr (norm_pending \<lparr>pe_CreatedAt = 5, pe_OriginStream = [], pe_OriginSeq = 0, pe_Payload = [7]\<rparr>)"
proof -
  have "encodePending \<lparr>pe_CreatedAt = 5, pe_OriginStream = [], pe_OriginSeq = 0, pe_Payload = [7]\<rparr>
      = Inr [1, 0,0,0,0,0,0,0,5, 0,0,0,0,0,0,0,0, 0,0,0,0, 0,0,0,0,0,0,0,1, 7]"
    by (simp add: eval_simps)
  with envelope_round_trip [of "\<lparr>pe_CreatedAt = 5, pe_OriginStream = [], pe_OriginSeq = 0, pe_Payload = [7]\<rparr>"]
  show ?thesis by blast
qed

text \<open>C31. Keys: within a prefix the byte order of the keys is the order of the sequences and a
  key parses back to its sequence only; between valid stream names the pending, dead-letter and
  metadata keys never coincide unless name, kind and sequence do.\<close>

theorem keys_sound:
  assumes "valid_name a" "valid_name b"
  shows "(sequenceKey p q < sequenceKey p q' \<longleftrightarrow> q < q')
     \<and> (parseSequence p k = Some q \<longleftrightarrow> k = sequenceKey p q)
     \<and> (pendingKey a q = pendingKey b q' \<longleftrightarrow> a = b \<and> q = q')
     \<and> (deadKey a q = deadKey b q' \<longleftrightarrow> a = b \<and> q = q')
     \<and> (metaKey a m = metaKey b m' \<longleftrightarrow> a = b \<and> m = m')
     \<and> pendingKey a q \<noteq> deadKey b q' \<and> pendingKey a q \<noteq> metaKey b m \<and> deadKey a q \<noteq> metaKey b m"
  using assms pending_keys.key_inj [OF assms] dead_keys.key_inj [OF assms] metaKey_inj [OF assms]
    pending_dead_key [OF assms] pending_keys.key_not_meta [OF assms] dead_keys.key_not_meta [OF assms]
  by (auto simp: pendingKey_def deadKey_def parseSequence_iff)

theorem keys_sound_witness:
  "sequenceKey (pendingPrefix (str ''q'')) 255 < sequenceKey (pendingPrefix (str ''q'')) 256
     \<and> pendingKey (str ''q'') 1 \<noteq> deadKey (str ''q'') 1"
  using keys_sound [OF demo_name demo_name, of "pendingPrefix (str ''q'')" 255 256]
    keys_sound [OF demo_name demo_name, of _ 1 1] by auto

end
