(* ===== verification/RetryHeap.thy ===== *)
theory RetryHeap
  imports Store "HOL-Library.Product_Lexorder"
begin

text \<open>
  The delayed-retry lane: \<open>retryHeap\<close> of \<open>src/internal/dispatch/dispatch.go\<close> under the
  operations of \<open>container/heap\<close>, an array heap ordered by \<open>(readyAt, Seq)\<close> in which each item
  knows its position. The locale \<open>priority_queue\<close> is what the dispatcher relies on: pushing adds
  one item, popping takes out a least one, and the root is that item. \<open>retry_queue\<close> is its
  interpretation on the array heap.
\<close>

section \<open>Data\<close>

record queuedRecord =
  qr_record :: store_record
  qr_attempt :: u32
  qr_readyAt :: time
  qr_index :: int

type_synonym retryHeap = "queuedRecord list"

definition rh_Less :: "retryHeap \<Rightarrow> nat \<Rightarrow> nat \<Rightarrow> bool" where
  "rh_Less h first second =
     (if qr_readyAt (h ! first) = qr_readyAt (h ! second)
      then r_Seq (qr_record (h ! first)) < r_Seq (qr_record (h ! second))
      else qr_readyAt (h ! first) < qr_readyAt (h ! second))"

definition rh_Swap :: "retryHeap \<Rightarrow> nat \<Rightarrow> nat \<Rightarrow> retryHeap" where
  "rh_Swap h first second =
     (let h = h[first := h ! second, second := h ! first];
          h = h[first := (h ! first)\<lparr>qr_index := int first\<rparr>]
      in h[second := (h ! second)\<lparr>qr_index := int second\<rparr>])"

definition rh_Push :: "retryHeap \<Rightarrow> queuedRecord \<Rightarrow> retryHeap" where
  "rh_Push h item = h @ [item\<lparr>qr_index := int (length h)\<rparr>]"

definition rh_Pop :: "retryHeap \<Rightarrow> queuedRecord \<times> retryHeap" where
  "rh_Pop h =
     (let l = length h - 1 in ((h ! l)\<lparr>qr_index := - 1\<rparr>, take l h))"

section \<open>The algorithms of container/heap\<close>

lemma length_rh_Swap [simp]: "length (rh_Swap h i j) = length h"
  by (simp add: rh_Swap_def Let_def)

function heap_up :: "retryHeap \<Rightarrow> nat \<Rightarrow> retryHeap" where
  "heap_up h j =
     (let i = (j - 1) div 2
      in if i = j \<or> \<not> rh_Less h j i then h else heap_up (rh_Swap h i j) i)"
  by pat_completeness auto
termination
  by (relation "measure (\<lambda>(h, j). j)") auto

function heap_down :: "retryHeap \<Rightarrow> nat \<Rightarrow> nat \<Rightarrow> retryHeap" where
  "heap_down h i n =
     (let j1 = 2 * i + 1
      in if n \<le> j1 then h
         else let j = (if j1 + 1 < n \<and> rh_Less h (j1 + 1) j1 then j1 + 1 else j1)
              in if \<not> rh_Less h j i then h else heap_down (rh_Swap h i j) j n)"
  by pat_completeness auto
termination
  by (relation "measure (\<lambda>(h, i, n). n - i)") (auto simp: Let_def)

declare heap_up.simps [simp del] heap_down.simps [simp del]

definition heap_Push :: "retryHeap \<Rightarrow> queuedRecord \<Rightarrow> retryHeap" where
  "heap_Push h item = (let h = rh_Push h item in heap_up h (length h - 1))"

definition heap_Pop :: "retryHeap \<Rightarrow> queuedRecord \<times> retryHeap" where
  "heap_Pop h =
     (let n = length h - 1 in rh_Pop (heap_down (rh_Swap h 0 n) 0 n))"

declare rh_Less_def [eval_simps] rh_Swap_def [eval_simps] rh_Push_def [eval_simps]
  rh_Pop_def [eval_simps] heap_up.simps [eval_simps] heap_down.simps [eval_simps]
  heap_Push_def [eval_simps] heap_Pop_def [eval_simps]

section \<open>Keys and contents\<close>

definition retry_key :: "queuedRecord \<Rightarrow> time \<times> u64" where
  "retry_key q = (qr_readyAt q, r_Seq (qr_record q))"

definition unindex :: "queuedRecord \<Rightarrow> queuedRecord" where
  "unindex q = q\<lparr>qr_index := - 1\<rparr>"

definition rh_items :: "retryHeap \<Rightarrow> queuedRecord multiset" where
  "rh_items h = mset (map unindex h)"

definition indexed :: "retryHeap \<Rightarrow> bool" where
  "indexed h \<longleftrightarrow> (\<forall>i < length h. qr_index (h ! i) = int i)"

definition rh_heap :: "retryHeap \<Rightarrow> nat \<Rightarrow> bool" where
  "rh_heap h n \<longleftrightarrow> (\<forall>m < n. 0 < m \<longrightarrow> retry_key (h ! ((m - 1) div 2)) \<le> retry_key (h ! m))"

definition rh_inv :: "retryHeap \<Rightarrow> bool" where
  "rh_inv h \<longleftrightarrow> rh_heap h (length h) \<and> indexed h"

lemma rh_Less_iff: "rh_Less h i j \<longleftrightarrow> retry_key (h ! i) < retry_key (h ! j)"
  by (auto simp: rh_Less_def retry_key_def)

lemma retry_key_unindex [simp]: "retry_key (unindex q) = retry_key q"
  by (simp add: retry_key_def unindex_def)

lemma unindex_simps [simp]:
  "unindex (q\<lparr>qr_index := i\<rparr>) = unindex q" "unindex (unindex q) = unindex q"
  "qr_record (unindex q) = qr_record q" "qr_attempt (unindex q) = qr_attempt q"
  "qr_readyAt (unindex q) = qr_readyAt q"
  by (simp_all add: unindex_def)

lemma nth_rh_Swap:
  assumes "i < length h" "j < length h" "m < length h"
  shows "rh_Swap h i j ! m =
    (if m = j then (h ! i)\<lparr>qr_index := int j\<rparr> else if m = i then (h ! j)\<lparr>qr_index := int i\<rparr> else h ! m)"
  using assms by (auto simp: rh_Swap_def Let_def nth_list_update)

lemma key_rh_Swap:
  assumes "i < length h" "j < length h" "m < length h"
  shows "retry_key (rh_Swap h i j ! m) =
    (if m = j then retry_key (h ! i) else if m = i then retry_key (h ! j) else retry_key (h ! m))"
  using assms by (simp add: nth_rh_Swap retry_key_def)

lemma unindex_rh_Swap:
  assumes "i < length h" "j < length h"
  shows "map unindex (rh_Swap h i j) = (map unindex h)[i := unindex (h ! j), j := unindex (h ! i)]"
  using assms by (intro nth_equalityI) (auto simp: nth_rh_Swap nth_list_update)

lemma rh_items_Swap: "i < length h \<Longrightarrow> j < length h \<Longrightarrow> rh_items (rh_Swap h i j) = rh_items h"
  using mset_swap [of j "map unindex h" i] by (simp add: rh_items_def unindex_rh_Swap)

lemma indexed_rh_Swap: "i < length h \<Longrightarrow> j < length h \<Longrightarrow> indexed h \<Longrightarrow> indexed (rh_Swap h i j)"
  by (auto simp: indexed_def nth_rh_Swap)

section \<open>Sifting up\<close>

definition up_inv :: "retryHeap \<Rightarrow> nat \<Rightarrow> bool" where
  "up_inv h j \<longleftrightarrow>
     (\<forall>m < length h. 0 < m \<and> m \<noteq> j \<longrightarrow> retry_key (h ! ((m - 1) div 2)) \<le> retry_key (h ! m))
     \<and> (0 < j \<longrightarrow> (\<forall>m < length h. 0 < m \<and> (m - 1) div 2 = j \<longrightarrow>
          retry_key (h ! ((j - 1) div 2)) \<le> retry_key (h ! m)))"

lemma up_inv_step:
  assumes inv: "up_inv h j" and j: "0 < j" "j < length h" and i: "i = (j - 1) div 2"
    and less: "retry_key (h ! j) < retry_key (h ! i)"
  shows "up_inv (rh_Swap h i j) i"
proof -
  have ij: "i < j" using j i by simp
  have key: "retry_key (rh_Swap h i j ! m) =
      (if m = j then retry_key (h ! i) else if m = i then retry_key (h ! j) else retry_key (h ! m))"
    if "m < length h" for m using that ij j by (intro key_rh_Swap) auto
  have le: "retry_key (h ! ((m - 1) div 2)) \<le> retry_key (h ! m)" if "m < length h" "0 < m" "m \<noteq> j" for m
    using inv that by (simp add: up_inv_def)
  have grand: "retry_key (h ! i) \<le> retry_key (h ! m)" if "m < length h" "0 < m" "(m - 1) div 2 = j" for m
    using inv that j i by (simp add: up_inv_def)
  show ?thesis
    unfolding up_inv_def
  proof (intro conjI allI impI)
    fix m assume m: "m < length (rh_Swap h i j)" "0 < m \<and> m \<noteq> i"
    then have p: "(m - 1) div 2 < length h" "(m - 1) div 2 < m" "m < length h" by auto
    consider "m = j" | "m \<noteq> j" "(m - 1) div 2 = j" | "m \<noteq> j" "(m - 1) div 2 = i"
      | "m \<noteq> j" "(m - 1) div 2 \<noteq> i" "(m - 1) div 2 \<noteq> j" by blast
    then show "retry_key (rh_Swap h i j ! ((m - 1) div 2)) \<le> retry_key (rh_Swap h i j ! m)"
    proof cases
      case 1
      then have "(m - 1) div 2 = i" using i by simp
      with 1 p less ij key [of i] key [of j] show ?thesis by simp
    next
      case 2
      with p m grand ij show ?thesis by (simp add: key)
    next
      case 3
      with p m le [of m] less ij show ?thesis by (simp add: key)
    next
      case 4
      with p m le [of m] show ?thesis by (simp add: key)
    qed
  next
    fix m assume i0: "0 < i" and m: "m < length (rh_Swap h i j)" "0 < m \<and> (m - 1) div 2 = i"
    have pi: "(i - 1) div 2 < i" "i < length h" using i0 ij j by auto
    then have "retry_key (h ! ((i - 1) div 2)) \<le> retry_key (h ! i)" using le [of i] i0 ij by simp
    moreover have "m \<noteq> j \<Longrightarrow> retry_key (h ! i) \<le> retry_key (h ! m)" using le [of m] m by simp
    moreover have "m \<noteq> i" using m by auto
    ultimately show "retry_key (rh_Swap h i j ! ((i - 1) div 2)) \<le> retry_key (rh_Swap h i j ! m)"
      using m pi ij by (cases "m = j") (auto simp: key)
  qed
qed

lemma heap_up_correct:
  "j < length h \<Longrightarrow> up_inv h j \<Longrightarrow> indexed h \<Longrightarrow>
     rh_inv (heap_up h j) \<and> rh_items (heap_up h j) = rh_items h \<and> length (heap_up h j) = length h"
proof (induction h j rule: heap_up.induct)
  case (1 h j)
  define i where "i = (j - 1) div 2"
  show ?case
  proof (cases "i = j \<or> \<not> rh_Less h j i")
    case True
    then have "j = 0 \<or> retry_key (h ! i) \<le> retry_key (h ! j)"
      by (cases j) (auto simp: i_def rh_Less_iff)
    then have "rh_heap h (length h)"
      using "1.prems"(2) unfolding rh_heap_def up_inv_def i_def by auto
    with True "1.prems" show ?thesis by (simp add: heap_up.simps [of h j] Let_def i_def rh_inv_def)
  next
    case False
    then have j: "0 < j" by (auto simp: i_def)
    then have i: "i < length h" using "1.prems"(1) by (simp add: i_def)
    have "up_inv (rh_Swap h i j) i"
      using False "1.prems"(1,2) j by (intro up_inv_step) (auto simp: i_def rh_Less_iff)
    moreover have "heap_up h j = heap_up (rh_Swap h i j) i"
      using False by (subst heap_up.simps) (simp add: Let_def i_def)
    ultimately show ?thesis
      using "1.IH" [OF i_def False] i "1.prems" by (simp add: rh_items_Swap indexed_rh_Swap)
  qed
qed

section \<open>Sifting down\<close>

definition down_inv :: "retryHeap \<Rightarrow> nat \<Rightarrow> nat \<Rightarrow> bool" where
  "down_inv h i n \<longleftrightarrow>
     (\<forall>m < n. 0 < m \<and> (m - 1) div 2 \<noteq> i \<longrightarrow> retry_key (h ! ((m - 1) div 2)) \<le> retry_key (h ! m))
     \<and> (0 < i \<longrightarrow> (\<forall>m < n. 0 < m \<and> (m - 1) div 2 = i \<longrightarrow>
          retry_key (h ! ((i - 1) div 2)) \<le> retry_key (h ! m)))"

lemma child_iff: "0 < m \<Longrightarrow> (m - 1) div 2 = i \<longleftrightarrow> m = 2 * i + 1 \<or> m = 2 * i + (2 :: nat)"
  by presburger

definition min_child :: "retryHeap \<Rightarrow> nat \<Rightarrow> nat \<Rightarrow> nat" where
  "min_child h i n = (if 2 * i + 1 + 1 < n \<and> rh_Less h (2 * i + 1 + 1) (2 * i + 1) then 2 * i + 1 + 1 else 2 * i + 1)"

lemma min_child:
  assumes "2 * i + 1 < n"
  shows "i < min_child h i n" "min_child h i n < n" "(min_child h i n - 1) div 2 = i"
    and "\<And>m. m < n \<Longrightarrow> 0 < m \<Longrightarrow> (m - 1) div 2 = i \<Longrightarrow> retry_key (h ! min_child h i n) \<le> retry_key (h ! m)"
proof -
  show "i < min_child h i n" "min_child h i n < n" "(min_child h i n - 1) div 2 = i"
    using assms by (auto simp: min_child_def)
  fix m assume m: "m < n" "0 < m" "(m - 1) div 2 = i"
  then have "m = 2 * i + 1 \<or> m = 2 * i + 2" by (simp only: child_iff)
  then show "retry_key (h ! min_child h i n) \<le> retry_key (h ! m)"
    using m(1) by (auto simp: min_child_def rh_Less_iff intro: less_imp_le)
qed

lemma heap_down_unfold:
  "heap_down h i n =
     (if n \<le> 2 * i + 1 \<or> \<not> rh_Less h (min_child h i n) i then h
      else heap_down (rh_Swap h i (min_child h i n)) (min_child h i n) n)"
  by (subst heap_down.simps) (simp only: Let_def min_child_def, simp)

lemma down_inv_step:
  assumes inv: "down_inv h i n" and n: "n \<le> length h" "2 * i + 1 < n" and j: "j = min_child h i n"
    and less: "retry_key (h ! j) < retry_key (h ! i)"
  shows "down_inv (rh_Swap h i j) j n"
proof -
  note mc = min_child [OF n(2), where h = h, folded j]
  have key: "retry_key (rh_Swap h i j ! m) =
      (if m = j then retry_key (h ! i) else if m = i then retry_key (h ! j) else retry_key (h ! m))"
    if "m < n" for m using that mc n by (intro key_rh_Swap) auto
  have le: "retry_key (h ! ((m - 1) div 2)) \<le> retry_key (h ! m)" if "m < n" "0 < m" "(m - 1) div 2 \<noteq> i" for m
    using inv that by (simp add: down_inv_def)
  have grand: "retry_key (h ! ((i - 1) div 2)) \<le> retry_key (h ! j)" if "0 < i"
    using inv that mc by (auto simp: down_inv_def)
  show ?thesis
    unfolding down_inv_def
  proof (intro conjI allI impI)
    fix m assume m: "m < n" "0 < m \<and> (m - 1) div 2 \<noteq> j"
    then have p: "(m - 1) div 2 < m" by auto
    then have pn: "(m - 1) div 2 < n" using m(1) by simp
    consider "m = j" | "m \<noteq> j" "(m - 1) div 2 = i" | "m = i" | "m \<noteq> j" "m \<noteq> i" "(m - 1) div 2 \<noteq> i" by blast
    then show "retry_key (rh_Swap h i j ! ((m - 1) div 2)) \<le> retry_key (rh_Swap h i j ! m)"
    proof cases
      case 1
      with mc(3) less key [of i] key [of j] m mc(1) n show ?thesis by auto
    next
      case 2
      with mc(4) [of m] m p pn mc(1) show ?thesis by (auto simp: key)
    next
      case 3
      with grand m p pn mc(1) show ?thesis by (auto simp: key)
    next
      case 4
      with le [of m] m pn show ?thesis by (auto simp: key)
    qed
  next
    fix m assume m: "m < n" "0 < m \<and> (m - 1) div 2 = j"
    then have "m \<noteq> i" "m \<noteq> j" using mc(1) by auto
    moreover have "retry_key (h ! j) \<le> retry_key (h ! m)" using le [of m] m mc(1) by auto
    ultimately show "retry_key (rh_Swap h i j ! ((j - 1) div 2)) \<le> retry_key (rh_Swap h i j ! m)"
      using mc m key [of i] key [of m] n by simp
  qed
qed

lemma heap_down_correct:
  "n \<le> length h \<Longrightarrow> i < length h \<Longrightarrow> down_inv h i n \<Longrightarrow> indexed h \<Longrightarrow>
     rh_heap (heap_down h i n) n \<and> indexed (heap_down h i n)
     \<and> rh_items (heap_down h i n) = rh_items h \<and> length (heap_down h i n) = length h
     \<and> (\<forall>m. n \<le> m \<and> m < length h \<longrightarrow> heap_down h i n ! m = h ! m)"
proof (induction "n - i" arbitrary: h i rule: less_induct)
  case less
  let ?j = "min_child h i n"
  show ?case
  proof (cases "n \<le> 2 * i + 1 \<or> \<not> rh_Less h ?j i")
    case True
    have "retry_key (h ! ((m - 1) div 2)) \<le> retry_key (h ! m)" if m: "m < n" "0 < m" for m
    proof (cases "(m - 1) div 2 = i")
      case False
      with less.prems(3) m show ?thesis by (simp add: down_inv_def)
    next
      case c: True
      with m child_iff have "\<not> n \<le> 2 * i + 1" by auto
      with True c m min_child(4) [of i n m h] show ?thesis by (auto simp: rh_Less_iff)
    qed
    with True less.prems show ?thesis by (subst (1 2 3 4 5) heap_down_unfold) (simp add: rh_heap_def)
  next
    case False
    then have j: "i < ?j" "?j < n" and lt: "retry_key (h ! ?j) < retry_key (h ! i)"
      using min_child [of i n, where h = h] by (auto simp: rh_Less_iff)
    have "down_inv (rh_Swap h i ?j) ?j n"
      using False less.prems lt by (intro down_inv_step) auto
    moreover have "heap_down h i n = heap_down (rh_Swap h i ?j) ?j n"
      using False by (subst heap_down_unfold) simp
    moreover have "rh_Swap h i ?j ! m = h ! m" if "n \<le> m" "m < length h" for m
      using that j less.prems by (subst nth_rh_Swap) auto
    ultimately show ?thesis
      using less.hyps [of ?j "rh_Swap h i ?j"] j less.prems by (simp add: rh_items_Swap indexed_rh_Swap)
  qed
qed

section \<open>The priority queue\<close>

lemma rh_root_min: "rh_heap h n \<Longrightarrow> m < n \<Longrightarrow> retry_key (h ! 0) \<le> retry_key (h ! m)"
proof (induction m rule: less_induct)
  case (less m)
  show ?case
  proof (cases m)
    case (Suc k)
    then have "(m - 1) div 2 < m" by simp
    with less have "retry_key (h ! 0) \<le> retry_key (h ! ((m - 1) div 2))" by simp
    also have "\<dots> \<le> retry_key (h ! m)" using less.prems Suc unfolding rh_heap_def by blast
    finally show ?thesis .
  qed simp
qed

lemma rh_hd_min: "rh_inv h \<Longrightarrow> y \<in> set h \<Longrightarrow> retry_key (hd h) \<le> retry_key y"
  using rh_root_min [of h "length h"]
  by (metis hd_conv_nth in_set_conv_nth length_pos_if_in_set length_greater_0_conv rh_inv_def)

lemma up_inv_Push:
  assumes "rh_inv h"
  shows "up_inv (rh_Push h x) (length h)"
proof -
  have old: "rh_Push h x ! m = h ! m" if "m < length h" for m using that by (simp add: rh_Push_def nth_append)
  have heap: "retry_key (h ! ((m - 1) div 2)) \<le> retry_key (h ! m)" if "m < length h" "0 < m" for m
    using assms that unfolding rh_inv_def rh_heap_def by blast
  have "retry_key (rh_Push h x ! ((m - 1) div 2)) \<le> retry_key (rh_Push h x ! m)"
    if "m < length h" "0 < m" for m
    using that heap [of m] old [of m] old [of "(m - 1) div 2"] by simp
  moreover have "(m - 1) div 2 \<noteq> length h" if "m < Suc (length h)" "0 < m" for m using that by auto
  moreover have "length (rh_Push h x) = Suc (length h)" by (simp add: rh_Push_def)
  ultimately show ?thesis unfolding up_inv_def by (metis less_Suc_eq)
qed

lemma heap_Push_correct:
  assumes "rh_inv h"
  shows "rh_inv (heap_Push h x) \<and> rh_items (heap_Push h x) = add_mset (unindex x) (rh_items h)
    \<and> length (heap_Push h x) = Suc (length h)"
proof -
  let ?h = "rh_Push h x"
  have "up_inv ?h (length h)" using assms by (rule up_inv_Push)
  moreover have "indexed ?h" using assms by (auto simp: rh_inv_def indexed_def rh_Push_def nth_append)
  ultimately show ?thesis
    using heap_up_correct [of "length h" ?h]
    by (simp add: heap_Push_def Let_def) (simp add: rh_Push_def rh_items_def)
qed

lemma heap_Pop_correct:
  assumes "rh_inv h" "h \<noteq> []" "heap_Pop h = (x, h')"
  shows "rh_inv h' \<and> rh_items h = add_mset x (rh_items h') \<and> x = unindex (h ! 0)
    \<and> length h = Suc (length h') \<and> (\<forall>y \<in># rh_items h. retry_key x \<le> retry_key y)"
proof -
  let ?n = "length h - 1"
  let ?s = "rh_Swap h 0 ?n"
  let ?d = "heap_down ?s 0 ?n"
  have n: "?n < length h" "0 < length h" using assms(2) by auto
  have key: "retry_key (?s ! m) = (if m = ?n then retry_key (h ! 0) else if m = 0 then retry_key (h ! ?n)
      else retry_key (h ! m))" if "m < length h" for m
    using n that by (intro key_rh_Swap) auto
  have heap: "retry_key (h ! ((m - 1) div 2)) \<le> retry_key (h ! m)" if "m < length h" "0 < m" for m
    using assms(1) that unfolding rh_inv_def rh_heap_def by blast
  have "retry_key (?s ! ((m - 1) div 2)) \<le> retry_key (?s ! m)"
    if m: "m < ?n" "0 < m" "(m - 1) div 2 \<noteq> 0" for m
  proof -
    have "(m - 1) div 2 < ?n" "(m - 1) div 2 < length h" "m < length h" using m n by auto
    then show ?thesis using m heap [of m] key [of m] key [of "(m - 1) div 2"] by simp
  qed
  then have "down_inv ?s 0 ?n" unfolding down_inv_def by simp
  then have d: "rh_heap ?d ?n" "indexed ?d" "rh_items ?d = rh_items ?s" "length ?d = length h" "?d ! ?n = ?s ! ?n"
    using heap_down_correct [of ?n ?s 0] assms(1) n by (auto simp: rh_inv_def indexed_rh_Swap)
  have x: "x = unindex (h ! 0)" "h' = take ?n ?d"
    using assms(3) d n by (auto simp: heap_Pop_def rh_Pop_def Let_def nth_rh_Swap unindex_def)
  have "?d = take ?n ?d @ [?d ! ?n]" using d(4) n by (metis Suc_diff_1 lessI take_Suc_conv_app_nth take_all order_refl)
  then have "rh_items ?d = add_mset (unindex (?d ! ?n)) (rh_items h')"
    unfolding rh_items_def x(2) by (metis (no_types) add_mset_add_single list.map mset.simps(1,2) map_append mset_append)
  moreover have "unindex (?d ! ?n) = x" using d(5) n x by (simp add: nth_rh_Swap)
  ultimately have items: "rh_items h = add_mset x (rh_items h')" using d(3) n by (simp add: rh_items_Swap)
  have "rh_inv h'"
    using d n unfolding x(2) rh_inv_def rh_heap_def indexed_def by simp
  moreover have "retry_key x \<le> retry_key y" if "y \<in># rh_items h" for y
    using that x(1) rh_hd_min [OF assms(1)] assms(2) by (auto simp: rh_items_def hd_conv_nth)
  ultimately show ?thesis using items x d(4) n by simp
qed

text \<open>Popping \<open>n\<close> times.\<close>

primrec drain :: "('q \<Rightarrow> 'a \<times> 'q) \<Rightarrow> nat \<Rightarrow> 'q \<Rightarrow> 'a list" where
  "drain pop 0 q = []"
| "drain pop (Suc n) q = (case pop q of (x, q') \<Rightarrow> x # drain pop n q')"

locale priority_queue =
  fixes push :: "'q \<Rightarrow> 'a \<Rightarrow> 'q" and pop :: "'q \<Rightarrow> 'a \<times> 'q" and top :: "'q \<Rightarrow> 'a"
    and items :: "'q \<Rightarrow> 'a multiset" and inv :: "'q \<Rightarrow> bool"
    and norm :: "'a \<Rightarrow> 'a" and key :: "'a \<Rightarrow> 'k :: linorder"
  assumes push_inv: "inv q \<Longrightarrow> inv (push q x)"
    and push_items: "inv q \<Longrightarrow> items (push q x) = add_mset (norm x) (items q)"
    and pop_inv: "inv q \<Longrightarrow> items q \<noteq> {#} \<Longrightarrow> pop q = (x, q') \<Longrightarrow> inv q'"
    and pop_items: "inv q \<Longrightarrow> items q \<noteq> {#} \<Longrightarrow> pop q = (x, q') \<Longrightarrow> items q = add_mset x (items q')"
    and pop_top: "inv q \<Longrightarrow> items q \<noteq> {#} \<Longrightarrow> pop q = (x, q') \<Longrightarrow> x = norm (top q)"
    and top_least: "inv q \<Longrightarrow> y \<in># items q \<Longrightarrow> key (norm (top q)) \<le> key y"
begin

lemma pop_least: "inv q \<Longrightarrow> items q \<noteq> {#} \<Longrightarrow> pop q = (x, q') \<Longrightarrow> y \<in># items q' \<Longrightarrow> key x \<le> key y"
  using pop_items [of q x q'] pop_top [of q x q'] top_least [of q y] by simp

lemma push_all_inv: "inv q \<Longrightarrow> inv (fold (\<lambda>x q. push q x) xs q)"
  by (induction xs arbitrary: q) (auto intro: push_inv)

lemma push_all_items: "inv q \<Longrightarrow> items (fold (\<lambda>x q. push q x) xs q) = mset (map norm xs) + items q"
  by (induction xs arbitrary: q) (auto simp: push_inv push_items)

lemma drain_sorted:
  "inv q \<Longrightarrow> n = size (items q) \<Longrightarrow> mset (drain pop n q) = items q \<and> sorted (map key (drain pop n q))"
proof (induction n arbitrary: q)
  case (Suc n)
  obtain x q' where p: "pop q = (x, q')" by fastforce
  have ne: "items q \<noteq> {#}" using Suc.prems(2) by auto
  have i: "items q = add_mset x (items q')" by (rule pop_items [OF Suc.prems(1) ne p])
  with Suc.IH [OF pop_inv [OF Suc.prems(1) ne p]] Suc.prems(2)
  have IH: "mset (drain pop n q') = items q'" "sorted (map key (drain pop n q'))" by simp_all
  moreover have "key x \<le> key y" if "y \<in> set (drain pop n q')" for y
    using pop_least [OF Suc.prems(1) ne p, of y] that IH(1) by (metis set_mset_mset)
  ultimately show ?case using p i by simp
qed simp

end

interpretation retry_queue: priority_queue heap_Push heap_Pop hd rh_items rh_inv unindex retry_key
proof
  fix h x h' y
  show "rh_inv h \<Longrightarrow> rh_inv (heap_Push h x)" "rh_inv h \<Longrightarrow> rh_items (heap_Push h x) = add_mset (unindex x) (rh_items h)"
    using heap_Push_correct by blast+
  have ne: "rh_items h \<noteq> {#} \<Longrightarrow> h \<noteq> []" by (auto simp: rh_items_def)
  show "rh_inv h \<Longrightarrow> rh_items h \<noteq> {#} \<Longrightarrow> heap_Pop h = (x, h') \<Longrightarrow> rh_inv h'"
    "rh_inv h \<Longrightarrow> rh_items h \<noteq> {#} \<Longrightarrow> heap_Pop h = (x, h') \<Longrightarrow> rh_items h = add_mset x (rh_items h')"
    using ne heap_Pop_correct by blast+
  show "rh_inv h \<Longrightarrow> rh_items h \<noteq> {#} \<Longrightarrow> heap_Pop h = (x, h') \<Longrightarrow> x = unindex (hd h)"
    using ne heap_Pop_correct by (metis hd_conv_nth)
  show "rh_inv h \<Longrightarrow> y \<in># rh_items h \<Longrightarrow> retry_key (unindex (hd h)) \<le> retry_key y"
    using rh_hd_min by (auto simp: rh_items_def)
qed

lemma rh_inv_Nil [simp]: "rh_inv []"
  by (simp add: rh_inv_def rh_heap_def indexed_def)

lemma rh_items_Nil [simp]: "rh_items [] = {#}" "rh_items h = {#} \<longleftrightarrow> h = []"
  by (simp_all add: rh_items_def)

lemma size_rh_items [simp]: "size (rh_items h) = length h"
  by (simp add: rh_items_def)

end
