(* ===== verification/Backoff.thy ===== *)
theory Backoff
  imports RetryHeap "HOL-Library.Log_Nat"
begin

text \<open>
  The retry delay of \<open>dispatch.go\<close>. The multiplier is a \<open>float64\<close>, so the model has the binary64
  arithmetic the code performs: conversion of a duration, one multiplication, both rounded to
  nearest with ties to even, and truncation back to a duration. Signed zeros are not
  distinguished, which no operation used here can observe. What the conversion of a
  value outside \<open>int64\<close> gives is left to the implementation by the Go specification; it is
  the parameter \<open>oor\<close>, and every statement holds for all of its values.
\<close>

section \<open>Binary64\<close>

datatype float64 = Fin rat | PosInf | NegInf | NaN

text \<open>The exponent of a positive rational: \<open>2 ^ e \<le> x < 2 ^ (e + 1)\<close>.\<close>

definition ratpow2 :: "int \<Rightarrow> rat" where
  "ratpow2 e = (if 0 \<le> e then 2 ^ nat e else 1 / 2 ^ nat (- e))"

definition ilog2 :: "rat \<Rightarrow> int" where
  "ilog2 x =
     (let (p, q) = quotient_of x;
          e = int (floorlog 2 (nat p)) - int (floorlog 2 (nat q))
      in if ratpow2 e \<le> x then e else e - 1)"

definition round_half_even :: "rat \<Rightarrow> int" where
  "round_half_even r =
     (let f = \<lfloor>r\<rfloor>; d = r - of_int f
      in if d < 1 / 2 then f else if 1 / 2 < d then f + 1 else if even f then f else f + 1)"

definition f64_round_pos :: "rat \<Rightarrow> rat" where
  "f64_round_pos x =
     (let e = max (ilog2 x - 52) (- 1074) in of_int (round_half_even (x / ratpow2 e)) * ratpow2 e)"

definition f64_round :: "rat \<Rightarrow> float64" where
  "f64_round x =
     (if x = 0 then Fin 0
      else let r = f64_round_pos \<bar>x\<bar>
           in if 2 ^ 1024 \<le> r then (if 0 < x then PosInf else NegInf)
              else Fin (if 0 < x then r else - r))"

definition f64_of_duration :: "duration \<Rightarrow> float64" where
  "f64_of_duration d = f64_round (of_int d)"

fun f64_sign_inf :: "rat \<Rightarrow> float64" where
  "f64_sign_inf s = (if s = 0 then NaN else if 0 < s then PosInf else NegInf)"

fun f64_mul :: "float64 \<Rightarrow> float64 \<Rightarrow> float64" where
  "f64_mul NaN y = NaN"
| "f64_mul x NaN = NaN"
| "f64_mul (Fin a) (Fin b) = f64_round (a * b)"
| "f64_mul PosInf (Fin b) = f64_sign_inf b"
| "f64_mul NegInf (Fin b) = f64_sign_inf (- b)"
| "f64_mul (Fin a) PosInf = f64_sign_inf a"
| "f64_mul (Fin a) NegInf = f64_sign_inf (- a)"
| "f64_mul PosInf PosInf = PosInf"
| "f64_mul PosInf NegInf = NegInf"
| "f64_mul NegInf PosInf = NegInf"
| "f64_mul NegInf NegInf = PosInf"

text \<open>\<open>x < b\<close> and \<open>x <= b\<close> for a finite \<open>b\<close>; comparisons with NaN are false.\<close>

fun f64_less :: "float64 \<Rightarrow> rat \<Rightarrow> bool" where
  "f64_less (Fin a) b = (a < b)"
| "f64_less PosInf b = False"
| "f64_less NegInf b = True"
| "f64_less NaN b = False"

fun f64_le :: "float64 \<Rightarrow> rat \<Rightarrow> bool" where
  "f64_le (Fin a) b = (a \<le> b)"
| "f64_le PosInf b = False"
| "f64_le NegInf b = True"
| "f64_le NaN b = False"

definition rat_trunc :: "rat \<Rightarrow> int" where
  "rat_trunc r = (if 0 \<le> r then \<lfloor>r\<rfloor> else \<lceil>r\<rceil>)"

fun duration_of_f64 :: "(float64 \<Rightarrow> duration) \<Rightarrow> float64 \<Rightarrow> duration" where
  "duration_of_f64 oor (Fin r) = (if in_int (rat_trunc r) then rat_trunc r else oor (Fin r))"
| "duration_of_f64 oor x = oor x"

section \<open>The delay\<close>

record dconfig =
  PrefetchCapacity :: int
  MaxInFlight :: int
  VisibilityTimeout :: duration
  RetryInitial :: duration
  RetryMax :: duration
  RetryMultiplier :: float64

fun retry_loop :: "(float64 \<Rightarrow> duration) \<Rightarrow> dconfig \<Rightarrow> nat \<Rightarrow> duration \<Rightarrow> duration" where
  "retry_loop oor c 0 delay = delay"
| "retry_loop oor c (Suc n) delay =
     (if delay < RetryMax c
      then let next_delay = duration_of_f64 oor (f64_mul (f64_of_duration delay) (RetryMultiplier c))
           in if next_delay \<le> delay \<or> RetryMax c < next_delay then RetryMax c
              else retry_loop oor c n next_delay
      else delay)"

definition retryDelay :: "(float64 \<Rightarrow> duration) \<Rightarrow> dconfig \<Rightarrow> u32 \<Rightarrow> duration" where
  "retryDelay oor c attempt =
     (if f64_le (RetryMultiplier c) 1 then RetryInitial c
      else retry_loop oor c (unat attempt - 1) (RetryInitial c))"

definition nextAttempt :: "u32 \<Rightarrow> u32" where
  "nextAttempt attempt = (if attempt = MaxUint32 then attempt else attempt + 1)"

section \<open>Bounds and monotonicity\<close>

lemma retry_loop_bounds:
  "delay \<le> RetryMax c \<Longrightarrow> delay \<le> retry_loop oor c n delay \<and> retry_loop oor c n delay \<le> RetryMax c"
proof (induction n arbitrary: delay)
  case (Suc n)
  let ?next = "duration_of_f64 oor (f64_mul (f64_of_duration delay) (RetryMultiplier c))"
  show ?case
  proof (cases "delay < RetryMax c \<and> \<not> (?next \<le> delay \<or> RetryMax c < ?next)")
    case True
    then have "retry_loop oor c (Suc n) delay = retry_loop oor c n ?next" by (simp add: Let_def)
    with Suc.IH [of ?next] True show ?thesis by simp
  next
    case False
    with Suc.prems show ?thesis by (auto simp: Let_def)
  qed
qed simp

lemma retry_loop_Suc_mono:
  "delay \<le> RetryMax c \<Longrightarrow> retry_loop oor c n delay \<le> retry_loop oor c (Suc n) delay"
proof (induction n arbitrary: delay)
  case 0
  then show ?case using retry_loop_bounds [of delay c oor "Suc 0"] by simp
next
  case (Suc n)
  then show ?case by (simp add: Let_def)
qed

lemma retry_loop_mono: "delay \<le> RetryMax c \<Longrightarrow> n \<le> m \<Longrightarrow> retry_loop oor c n delay \<le> retry_loop oor c m delay"
proof (induction m)
  case (Suc m)
  show ?case
  proof (cases "n = Suc m")
    case False
    with Suc have "retry_loop oor c n delay \<le> retry_loop oor c m delay" by simp
    also have "\<dots> \<le> retry_loop oor c (Suc m) delay" by (rule retry_loop_Suc_mono [OF Suc.prems(1)])
    finally show ?thesis .
  qed simp
qed simp

lemma retryDelay_bounds:
  "RetryInitial c \<le> RetryMax c \<Longrightarrow> RetryInitial c \<le> retryDelay oor c a \<and> retryDelay oor c a \<le> RetryMax c"
  by (simp add: retryDelay_def retry_loop_bounds)

lemma retryDelay_mono:
  "RetryInitial c \<le> RetryMax c \<Longrightarrow> a \<le> b \<Longrightarrow> retryDelay oor c a \<le> retryDelay oor c b"
  by (auto simp: retryDelay_def word_le_nat_alt intro!: retry_loop_mono)

section \<open>Integer multipliers are exact\<close>

lemma round_half_even_int [simp]: "round_half_even (of_int n) = n"
  by (simp add: round_half_even_def Let_def)

lemma ilog2_int:
  assumes "0 < n" "n < 2 ^ 53"
  shows "ilog2 (of_int n) \<le> 52"
proof -
  have "nat n < 2 ^ 53" using assms by (simp add: nat_less_iff)
  then have "floorlog 2 (nat n) \<le> 53" by (intro floorlog_leI) simp_all
  moreover have "floorlog 2 (nat 1) = 1" by (simp add: floorlog_def)
  ultimately show ?thesis by (auto simp: ilog2_def Let_def)
qed

lemma ratpow2_neg: "e \<le> 0 \<Longrightarrow> ratpow2 e = 1 / of_int (2 ^ nat (- e))"
  by (cases "e = 0") (auto simp: ratpow2_def)

lemma f64_round_int:
  assumes "0 \<le> n" "n < 2 ^ 53"
  shows "f64_round (of_int n) = Fin (of_int n)"
proof (cases "n = 0")
  case False
  let ?e = "max (ilog2 (of_int n) - 52) (- 1074)"
  have e: "?e \<le> 0" using ilog2_int [of n] assms False by simp
  have "(of_int n :: rat) / ratpow2 ?e = of_int (n * 2 ^ nat (- ?e))" using e by (simp add: ratpow2_neg)
  then have "f64_round_pos (of_int n) = of_int (n * 2 ^ nat (- ?e)) * ratpow2 ?e"
    unfolding f64_round_pos_def Let_def by (simp only: round_half_even_int)
  also have "\<dots> = of_int n" using e by (simp add: ratpow2_neg)
  finally have r: "f64_round_pos (of_int n) = of_int n" .
  have "(of_int n :: rat) < of_int (2 ^ 53)" using assms(2) by (simp only: of_int_less_iff)
  then have "(of_int n :: rat) < 2 ^ 1024" by simp
  with assms False r show ?thesis by (simp add: f64_round_def Let_def)
qed (simp add: f64_round_def)

lemma in_int_small: "0 \<le> x \<Longrightarrow> x < 2 ^ 53 \<Longrightarrow> in_int x"
  by (simp add: in_int_def)

lemma next_delay_int:
  assumes "0 \<le> d" "0 \<le> m" "d * m < 2 ^ 53" "d < 2 ^ 53"
  shows "duration_of_f64 oor (f64_mul (f64_of_duration d) (Fin (of_int m))) = d * m"
proof -
  have "f64_mul (f64_of_duration d) (Fin (of_int m)) = Fin (of_int (d * m))"
    using assms f64_round_int [of "d * m"] by (simp add: f64_of_duration_def f64_round_int)
  moreover have "in_int (d * m)"
    using assms(3) mult_nonneg_nonneg [OF assms(1,2)] by (intro in_int_small)
  moreover have "rat_trunc (of_int (d * m)) = d * m"
    unfolding rat_trunc_def by (simp only: floor_of_int ceiling_of_int if_cancel)
  ultimately show ?thesis by (simp only: duration_of_f64.simps if_True)
qed

lemma retry_loop_exact:
  assumes "RetryMultiplier c = Fin (of_int m)" "1 < m" "RetryMax c * m < 2 ^ 53"
  shows "0 < d \<Longrightarrow> d \<le> RetryMax c \<Longrightarrow> retry_loop oor c n d = min (RetryMax c) (d * m ^ n)"
proof (induction n arbitrary: d)
  case (Suc n)
  have grow: "d < d * m" using Suc.prems assms(2) by simp
  have "d * m \<le> RetryMax c * m" using Suc.prems assms(2) by (intro mult_right_mono) auto
  with assms(3) have "d * m < 2 ^ 53" by linarith
  then have next_d: "duration_of_f64 oor (f64_mul (f64_of_duration d) (RetryMultiplier c)) = d * m"
    unfolding assms(1) using assms(2) Suc.prems(1) grow by (intro next_delay_int) linarith+
  have pw: "d * m ^ n * m = d * m * m ^ n" "1 \<le> m ^ n" using assms(2) by (simp_all add: one_le_power)
  have le: "d * m \<le> d * m * m ^ n" "d \<le> d * m ^ Suc n"
    using pw(2) grow Suc.prems assms(2) by (simp_all add: order_trans [OF less_imp_le [OF grow]] mult.commute)
  show ?case
  proof (cases "d < RetryMax c \<and> d * m \<le> RetryMax c")
    case True
    then have "retry_loop oor c (Suc n) d = retry_loop oor c n (d * m)" using grow by (simp add: next_d Let_def)
    also have "\<dots> = min (RetryMax c) (d * m * m ^ n)" using True grow Suc.prems by (intro Suc.IH) auto
    finally show ?thesis by (simp add: mult.assoc)
  next
    case False
    then have "retry_loop oor c (Suc n) d = RetryMax c"
      using Suc.prems grow by (auto simp: next_d Let_def)
    moreover have "d * m ^ Suc n = d * m * m ^ n" by (simp add: mult.assoc)
    with False Suc.prems(2) le have "RetryMax c \<le> d * m ^ Suc n" by linarith
    ultimately show ?thesis by simp
  qed
qed simp

lemma retryDelay_exact:
  assumes "RetryMultiplier c = Fin (of_int m)" "1 < m" "RetryMax c * m < 2 ^ 53"
    and "0 < RetryInitial c" "RetryInitial c \<le> RetryMax c"
  shows "retryDelay oor c a = min (RetryMax c) (RetryInitial c * m ^ (unat a - 1))"
  using assms by (simp add: retryDelay_def retry_loop_exact)

end
