(* ===== verification/Dispatcher.thy ===== *)
theory Dispatcher
  imports Backoff
begin

text \<open>
  \<open>src/internal/dispatch/dispatch.go\<close>: the scheduler of one stream. A record moves through three
  lanes: \<open>d_fresh\<close>, filled by scanning the store from \<open>d_cursor\<close> on; \<open>d_inFlight\<close>, the leased
  records by receipt; and \<open>d_retries\<close>, the heap of records waiting to be redelivered. \<open>d_states\<close>
  says for each tracked sequence which lane it is in. \<open>d_signal\<close> is the one-place channel that
  wakes a waiting reader.

  Each function below is one critical section under \<open>mu\<close>, or a helper of one. What a section
  reads from its environment is an argument: the clock \<open>now\<close>, the order \<open>ord\<close> in which Go
  ranges over the in-flight map, the receipt generator \<open>newReceipt\<close> with its state, the
  out-of-range float conversion \<open>oor\<close>, and the persistence callback. \<open>Read\<close> and \<open>fillFresh\<close>
  release the lock in between, so they are given as their sections; the theory \<open>Reader\<close> composes
  them.
\<close>

section \<open>Data\<close>

datatype dstate = stateFresh | stateRetry | stateInFlight

definition receiptCollisionLimit :: nat where "receiptCollisionLimit = 16"

definition farFuture :: time where "farFuture = 2 ^ 62 * 10 ^ 9"

record flight =
  f_record :: store_record
  f_receipt :: receipt
  f_attempt :: u32
  f_deadline :: time

record delivery =
  dl_Record :: store_record
  dl_Receipt :: receipt
  dl_Attempt :: u32
  dl_Deadline :: time

record dstats =
  st_Ready :: u64
  st_Retry :: u64
  st_InFlight :: u64
  st_Deliveries :: u64
  st_Retries :: u64
  st_LeaseExpirations :: u64
  st_DuplicateAttempts :: u64
  st_Backpressure :: u64

record dispatcher =
  d_config :: dconfig
  d_closed :: bool
  d_cursor :: u64
  d_scanDone :: bool
  d_scanEmpty :: bool
  d_fresh :: "queuedRecord list"
  d_retries :: retryHeap
  d_inFlight :: "(receipt \<times> flight) list"
  d_states :: "u64 \<rightharpoonup> dstate"
  d_preferRetry :: bool
  d_signal :: bool
  d_stats :: dstats
  d_expireAt :: time

record selectedRecord =
  sel_item :: queuedRecord
  sel_previousState :: dstate
  sel_receipt :: receipt

type_synonym flight_order = "(receipt \<times> flight) list \<Rightarrow> (receipt \<times> flight) list"

definition zero_record :: store_record where
  "zero_record = \<lparr>r_Seq = 0, r_CreatedAt = zeroTime, r_OriginStream = [], r_OriginSeq = 0, r_Payload = []\<rparr>"

definition zero_flight :: flight where
  "zero_flight = \<lparr>f_record = zero_record, f_receipt = 0, f_attempt = 0, f_deadline = zeroTime\<rparr>"

definition zero_stats :: dstats where
  "zero_stats = \<lparr>st_Ready = 0, st_Retry = 0, st_InFlight = 0, st_Deliveries = 0, st_Retries = 0,
     st_LeaseExpirations = 0, st_DuplicateAttempts = 0, st_Backpressure = 0\<rparr>"

definition New :: "bool \<Rightarrow> dconfig \<Rightarrow> gerror + dispatcher" where
  "New source_nil config =
     (if source_nil \<or> PrefetchCapacity config \<le> 0 \<or> MaxInFlight config \<le> 0
         \<or> VisibilityTimeout config \<le> 0 \<or> RetryInitial config < 0
         \<or> RetryMax config < RetryInitial config \<or> f64_less (RetryMultiplier config) 1
      then Inl (DispatchError DispatchErrInvalidConfig)
      else Inr \<lparr>d_config = config, d_closed = False, d_cursor = 1, d_scanDone = False,
                d_scanEmpty = False, d_fresh = [], d_retries = [], d_inFlight = [],
                d_states = Map.empty, d_preferRetry = False, d_signal = False,
                d_stats = zero_stats, d_expireAt = zeroTime\<rparr>)"

section \<open>Helpers under the lock\<close>

definition notifyLocked :: "dispatcher \<Rightarrow> dispatcher" where
  "notifyLocked d = d\<lparr>d_signal := True\<rparr>"

text \<open>\<open>heap.Push(&d.retries, &queuedRecord{\<dots>})\<close>, as \<open>Retry\<close> and \<open>expireLocked\<close> do it.\<close>

definition push_retry :: "store_record \<Rightarrow> u32 \<Rightarrow> time \<Rightarrow> dispatcher \<Rightarrow> dispatcher" where
  "push_retry rec attempt readyAt d =
     d\<lparr>d_states := (d_states d)(r_Seq rec \<mapsto> stateRetry),
       d_retries := heap_Push (d_retries d)
         \<lparr>qr_record = rec, qr_attempt = attempt, qr_readyAt = readyAt, qr_index = 0\<rparr>\<rparr>"

fun expire_loop :: "time \<Rightarrow> (receipt \<times> flight) list \<Rightarrow> time \<Rightarrow> dispatcher \<Rightarrow> time \<times> dispatcher" where
  "expire_loop now [] earliest d = (earliest, d)"
| "expire_loop now ((receipt, current) # rest) earliest d =
     (if now < f_deadline current
      then expire_loop now rest (if f_deadline current < earliest then f_deadline current else earliest) d
      else
        let d = d\<lparr>d_inFlight := AList.delete receipt (d_inFlight d)\<rparr>;
            d = push_retry (f_record current) (nextAttempt (f_attempt current)) now d;
            d = d\<lparr>d_stats := (d_stats d)\<lparr>st_LeaseExpirations := st_LeaseExpirations (d_stats d) + 1\<rparr>\<rparr>
        in expire_loop now rest earliest d)"

definition expireLocked :: "flight_order \<Rightarrow> time \<Rightarrow> dispatcher \<Rightarrow> dispatcher" where
  "expireLocked ord now d =
     (if now < d_expireAt d then d
      else case expire_loop now (ord (d_inFlight d)) farFuture d of
             (earliest, d) \<Rightarrow> d\<lparr>d_expireAt := earliest\<rparr>)"

fun validate_loop :: "dispatcher \<Rightarrow> receipt list \<Rightarrow> delivery list \<Rightarrow> gerror + u64 list" where
  "validate_loop d seen [] = Inr []"
| "validate_loop d seen (delivery # rest) =
     (if dl_Receipt delivery \<in> set seen then Inl (DispatchError DispatchErrStaleDelivery)
      else case map_of (d_inFlight d) (dl_Receipt delivery) of
             None \<Rightarrow> Inl (DispatchError DispatchErrStaleDelivery)
           | Some current \<Rightarrow>
               if r_Seq (f_record current) \<noteq> r_Seq (dl_Record delivery)
                  \<or> f_attempt current \<noteq> dl_Attempt delivery
               then Inl (DispatchError DispatchErrStaleDelivery)
               else gbind (validate_loop d (dl_Receipt delivery # seen) rest) (\<lambda>seqs.
                      Inr (r_Seq (f_record current) # seqs)))"

definition validateLocked :: "dispatcher \<Rightarrow> delivery list \<Rightarrow> gerror + u64 list" where
  "validateLocked d deliveries = validate_loop d [] deliveries"

fun nextWake_loop :: "(receipt \<times> flight) list \<Rightarrow> time \<Rightarrow> time" where
  "nextWake_loop [] wake = wake"
| "nextWake_loop ((receipt, current) # rest) wake =
     nextWake_loop rest (if wake = zeroTime \<or> f_deadline current < wake then f_deadline current else wake)"

definition nextWakeLocked :: "flight_order \<Rightarrow> dispatcher \<Rightarrow> time" where
  "nextWakeLocked ord d =
     nextWake_loop (ord (d_inFlight d))
       (if d_retries d \<noteq> [] then qr_readyAt (hd (d_retries d)) else zeroTime)"

section \<open>Taking records\<close>

fun unique_loop :: "('g \<Rightarrow> (gerror + receipt) \<times> 'g) \<Rightarrow> nat \<Rightarrow> dispatcher \<Rightarrow> 'g \<Rightarrow> (gerror + receipt) \<times> 'g" where
  "unique_loop newReceipt 0 d g = (Inl (ErrorText ''receipt collision limit reached''), g)"
| "unique_loop newReceipt (Suc n) d g =
     (case newReceipt g of
        (Inl err, g) \<Rightarrow> (Inl err, g)
      | (Inr receipt, g) \<Rightarrow>
          if receipt \<notin> set (keys (d_inFlight d)) then (Inr receipt, g)
          else unique_loop newReceipt n d g)"

definition uniqueReceiptLocked :: "('g \<Rightarrow> (gerror + receipt) \<times> 'g) \<Rightarrow> dispatcher \<Rightarrow> 'g \<Rightarrow> (gerror + receipt) \<times> 'g" where
  "uniqueReceiptLocked newReceipt = unique_loop newReceipt receiptCollisionLimit"

definition popFreshLocked :: "dispatcher \<Rightarrow> queuedRecord \<times> dispatcher" where
  "popFreshLocked d = (hd (d_fresh d), d\<lparr>d_fresh := tl (d_fresh d)\<rparr>)"

definition popRetryLocked :: "dispatcher \<Rightarrow> queuedRecord \<times> dispatcher" where
  "popRetryLocked d = (case heap_Pop (d_retries d) of (item, h) \<Rightarrow> (item, d\<lparr>d_retries := h\<rparr>))"

definition rollback_one :: "selectedRecord \<Rightarrow> dispatcher \<Rightarrow> dispatcher" where
  "rollback_one current d =
     (let d = d\<lparr>d_inFlight := AList.delete (sel_receipt current) (d_inFlight d),
                d_states := (d_states d)(r_Seq (qr_record (sel_item current)) \<mapsto> sel_previousState current)\<rparr>
      in if sel_previousState current = stateRetry
         then d\<lparr>d_retries := heap_Push (d_retries d) (sel_item current)\<rparr>
         else d\<lparr>d_fresh := sel_item current # d_fresh d\<rparr>)"

text \<open>\<open>selected\<close> is kept in reverse order, so that the Go loop from the last index down is a fold.\<close>

definition rollbackSelectionLocked :: "selectedRecord list \<Rightarrow> bool \<Rightarrow> dispatcher \<Rightarrow> dispatcher" where
  "rollbackSelectionLocked rselected preference d =
     (let d = fold rollback_one rselected d
      in d\<lparr>d_preferRetry := preference,
           d_stats := (d_stats d)\<lparr>st_Deliveries := st_Deliveries (d_stats d) - word_of_nat (length rselected)\<rparr>\<rparr>)"

definition trackedLimit :: "dispatcher \<Rightarrow> int" where
  "trackedLimit d = wrap_int (PrefetchCapacity (d_config d) + MaxInFlight (d_config d))"

definition retryReady :: "time \<Rightarrow> dispatcher \<Rightarrow> bool" where
  "retryReady now d \<longleftrightarrow> d_retries d \<noteq> [] \<and> qr_readyAt (hd (d_retries d)) \<le> now"

definition freshReady :: "dispatcher \<Rightarrow> bool" where
  "freshReady d \<longleftrightarrow> d_fresh d \<noteq> [] \<and> int (length (d_retries d)) + int (length (d_inFlight d)) < trackedLimit d"

text \<open>The \<open>switch\<close> of the loop body: which lane the next record comes from.\<close>

definition select_item :: "time \<Rightarrow> dispatcher \<Rightarrow> queuedRecord \<times> dstate \<times> dispatcher" where
  "select_item now d =
     (if retryReady now d \<and> freshReady d \<and> d_preferRetry d then
        case popRetryLocked d of (item, d) \<Rightarrow> (item, stateRetry, d\<lparr>d_preferRetry := False\<rparr>)
      else if retryReady now d \<and> freshReady d then
        case popFreshLocked d of (item, d) \<Rightarrow> (item, stateFresh, d\<lparr>d_preferRetry := True\<rparr>)
      else if retryReady now d then
        case popRetryLocked d of (item, d) \<Rightarrow> (item, stateRetry, d)
      else
        case popFreshLocked d of (item, d) \<Rightarrow> (item, stateFresh, d))"

text \<open>The rest of the loop body: the lease of the selected record.\<close>

definition lease_item :: "time \<Rightarrow> receipt \<Rightarrow> queuedRecord \<Rightarrow> dispatcher \<Rightarrow> delivery \<times> dispatcher" where
  "lease_item now receipt item d =
     (let deadline = now + VisibilityTimeout (d_config d);
          current = \<lparr>f_record = qr_record item, f_receipt = receipt, f_attempt = qr_attempt item,
                     f_deadline = deadline\<rparr>
      in (\<lparr>dl_Record = qr_record item, dl_Receipt = receipt, dl_Attempt = qr_attempt item,
           dl_Deadline = deadline\<rparr>,
          d\<lparr>d_expireAt := (if deadline < d_expireAt d then deadline else d_expireAt d),
            d_inFlight := AList.update receipt current (d_inFlight d),
            d_states := (d_states d)(r_Seq (qr_record item) \<mapsto> stateInFlight),
            d_stats := (d_stats d)\<lparr>st_Deliveries := st_Deliveries (d_stats d) + 1\<rparr>\<rparr>))"

fun take_loop ::
  "('g \<Rightarrow> (gerror + receipt) \<times> 'g) \<Rightarrow> time \<Rightarrow> bool \<Rightarrow> nat \<Rightarrow> selectedRecord list \<Rightarrow> dispatcher \<Rightarrow> 'g
   \<Rightarrow> (gerror + delivery list) \<times> dispatcher \<times> 'g" where
  "take_loop newReceipt now preference 0 rselected d g = (Inr [], d, g)"
| "take_loop newReceipt now preference (Suc n) rselected d g =
     (if \<not> retryReady now d \<and> \<not> freshReady d then (Inr [], d, g)
      else case uniqueReceiptLocked newReceipt d g of
        (Inl err, g) \<Rightarrow> (Inl (Errorf [err]), rollbackSelectionLocked rselected preference d, g)
      | (Inr receipt, g) \<Rightarrow>
          (case select_item now d of
             (item, previousState, d) \<Rightarrow>
               (case lease_item now receipt item d of
                  (delivery, d) \<Rightarrow>
                    (case take_loop newReceipt now preference n
                            (\<lparr>sel_item = item, sel_previousState = previousState, sel_receipt = receipt\<rparr> # rselected)
                            d g of
                       (Inl err, d, g) \<Rightarrow> (Inl err, d, g)
                     | (Inr deliveries, d, g) \<Rightarrow> (Inr (delivery # deliveries), d, g)))))"

definition takeCount :: "int \<Rightarrow> dispatcher \<Rightarrow> int" where
  "takeCount wanted d =
     (let availableSlots = MaxInFlight (d_config d) - int (length (d_inFlight d))
      in if availableSlots < wanted then availableSlots else wanted)"

text \<open>\<open>make([]Delivery, 0, wanted)\<close> panics on a negative capacity; \<open>takeCount_nonneg\<close> below shows
  that it is never negative, so the loop runs \<open>nat (takeCount \<dots>)\<close> times at most.\<close>

definition takeLocked ::
  "('g \<Rightarrow> (gerror + receipt) \<times> 'g) \<Rightarrow> int \<Rightarrow> time \<Rightarrow> dispatcher \<Rightarrow> 'g
   \<Rightarrow> (gerror + delivery list) \<times> dispatcher \<times> 'g" where
  "takeLocked newReceipt wanted now d g =
     take_loop newReceipt now (d_preferRetry d) (nat (takeCount wanted d)) [] d g"

section \<open>Operations\<close>

definition Notify :: "dispatcher \<Rightarrow> dispatcher" where
  "Notify d = notifyLocked (d\<lparr>d_scanEmpty := False\<rparr>)"

text \<open>The loop of \<open>Commit\<close> and the end of \<open>DeadLetter\<close>: forget a delivery.\<close>

definition release :: "delivery \<Rightarrow> dispatcher \<Rightarrow> dispatcher" where
  "release delivery d =
     d\<lparr>d_inFlight := AList.delete (dl_Receipt delivery) (d_inFlight d),
       d_states := (d_states d)(r_Seq (dl_Record delivery) := None)\<rparr>"

definition Dispatch_Commit ::
  "flight_order \<Rightarrow> time \<Rightarrow> delivery list \<Rightarrow> (u64 list \<Rightarrow> 's \<Rightarrow> gerror option \<times> 's) \<Rightarrow> dispatcher \<Rightarrow> 's
   \<Rightarrow> gerror option \<times> dispatcher \<times> 's" where
  "Dispatch_Commit ord now deliveries persist d s =
     (if deliveries = [] then (None, d, s)
      else if d_closed d then (Some (DispatchError DispatchErrClosed), d, s)
      else let d = expireLocked ord now d
           in case validateLocked d deliveries of
                Inl err \<Rightarrow> (Some err, d, s)
              | Inr seqs \<Rightarrow>
                  (case persist seqs s of
                     (Some err, s) \<Rightarrow> (Some err, d, s)
                   | (None, s) \<Rightarrow> (None, notifyLocked (fold release deliveries d), s)))"

definition lookup_flight :: "dispatcher \<Rightarrow> receipt \<Rightarrow> flight" where
  "lookup_flight d receipt = (case map_of (d_inFlight d) receipt of Some f \<Rightarrow> f | None \<Rightarrow> zero_flight)"

definition retry_one :: "(float64 \<Rightarrow> duration) \<Rightarrow> time \<Rightarrow> delivery \<Rightarrow> dispatcher \<Rightarrow> dispatcher" where
  "retry_one oor now delivery d =
     (let current = lookup_flight d (dl_Receipt delivery);
          d = d\<lparr>d_inFlight := AList.delete (dl_Receipt delivery) (d_inFlight d)\<rparr>;
          d = push_retry (f_record current) (nextAttempt (f_attempt current))
                (now + retryDelay oor (d_config d) (f_attempt current)) d
      in d\<lparr>d_stats := (d_stats d)\<lparr>st_Retries := st_Retries (d_stats d) + 1\<rparr>\<rparr>)"

definition Dispatch_Retry ::
  "(float64 \<Rightarrow> duration) \<Rightarrow> flight_order \<Rightarrow> time \<Rightarrow> delivery list \<Rightarrow> dispatcher \<Rightarrow> gerror option \<times> dispatcher" where
  "Dispatch_Retry oor ord now deliveries d =
     (if deliveries = [] then (None, d)
      else if d_closed d then (Some (DispatchError DispatchErrClosed), d)
      else let d = expireLocked ord now d
           in case validateLocked d deliveries of
                Inl err \<Rightarrow> (Some err, d)
              | Inr _ \<Rightarrow> (None, notifyLocked (fold (retry_one oor now) deliveries d)))"

definition extend_one :: "duration \<Rightarrow> delivery \<Rightarrow> dispatcher \<Rightarrow> dispatcher" where
  "extend_one extension delivery d =
     (let current = lookup_flight d (dl_Receipt delivery);
          current = current\<lparr>f_deadline := f_deadline current + extension\<rparr>
      in d\<lparr>d_inFlight := AList.update (dl_Receipt delivery) current (d_inFlight d)\<rparr>)"

definition Dispatch_Extend ::
  "flight_order \<Rightarrow> time \<Rightarrow> duration \<Rightarrow> delivery list \<Rightarrow> dispatcher \<Rightarrow> gerror option \<times> dispatcher" where
  "Dispatch_Extend ord now extension deliveries d =
     (if extension \<le> 0 then (Some (DispatchError DispatchErrInvalidExtension), d)
      else if deliveries = [] then (None, d)
      else if d_closed d then (Some (DispatchError DispatchErrClosed), d)
      else let d = expireLocked ord now d
           in case validateLocked d deliveries of
                Inl err \<Rightarrow> (Some err, d)
              | Inr _ \<Rightarrow> (None, notifyLocked (fold (extend_one extension) deliveries d)))"

definition Dispatch_DeadLetter ::
  "flight_order \<Rightarrow> time \<Rightarrow> delivery \<Rightarrow> (u64 \<Rightarrow> 's \<Rightarrow> gerror option \<times> 's) \<Rightarrow> dispatcher \<Rightarrow> 's
   \<Rightarrow> gerror option \<times> dispatcher \<times> 's" where
  "Dispatch_DeadLetter ord now delivery persist d s =
     (if d_closed d then (Some (DispatchError DispatchErrClosed), d, s)
      else let d = expireLocked ord now d
           in case validateLocked d [delivery] of
                Inl err \<Rightarrow> (Some err, d, s)
              | Inr _ \<Rightarrow>
                  (case persist (r_Seq (dl_Record delivery)) s of
                     (Some err, s) \<Rightarrow> (Some err, d, s)
                   | (None, s) \<Rightarrow> (None, notifyLocked (release delivery d), s)))"

definition Snapshot :: "flight_order \<Rightarrow> time \<Rightarrow> dispatcher \<Rightarrow> dstats \<times> dispatcher" where
  "Snapshot ord now d =
     (let d = expireLocked ord now d
      in ((d_stats d)\<lparr>st_Ready := word_of_nat (length (d_fresh d)),
                       st_Retry := word_of_nat (length (d_retries d)),
                       st_InFlight := word_of_nat (length (d_inFlight d))\<rparr>, d))"

definition Dispatch_Close :: "dispatcher \<Rightarrow> dispatcher" where
  "Dispatch_Close d = (if \<not> d_closed d then notifyLocked (d\<lparr>d_closed := True\<rparr>) else d)"

section \<open>Filling the fresh lane\<close>

text \<open>The section before the scan: \<open>None\<close> when there is nothing to do, else the arguments of the
  scan.\<close>

definition fill_begin :: "dispatcher \<Rightarrow> (u64 \<times> int) option \<times> dispatcher" where
  "fill_begin d =
     (if d_closed d \<or> d_scanDone d \<or> d_scanEmpty d then (None, d)
      else let free = PrefetchCapacity (d_config d) - int (length (d_fresh d))
           in if free \<le> 0 then (None, d) else (Some (d_cursor d, free), d\<lparr>d_scanEmpty := True\<rparr>))"

definition fill_failed :: "dispatcher \<Rightarrow> dispatcher" where
  "fill_failed d = d\<lparr>d_scanEmpty := False\<rparr>"

fun fill_loop :: "store_record list \<Rightarrow> bool \<Rightarrow> dispatcher \<Rightarrow> bool \<times> dispatcher" where
  "fill_loop [] progress d = (progress, d)"
| "fill_loop (rec # rest) progress d =
     (if r_Seq rec < d_cursor d then fill_loop rest progress d
      else
        let d = (if r_Seq rec = MaxUint64 then d\<lparr>d_scanDone := True\<rparr> else d\<lparr>d_cursor := r_Seq rec + 1\<rparr>)
        in if d_states d (r_Seq rec) \<noteq> None
           then fill_loop rest True
                  (d\<lparr>d_stats := (d_stats d)\<lparr>st_DuplicateAttempts := st_DuplicateAttempts (d_stats d) + 1\<rparr>\<rparr>)
           else fill_loop rest True
                  (d\<lparr>d_states := (d_states d)(r_Seq rec \<mapsto> stateFresh),
                     d_fresh := d_fresh d @ [\<lparr>qr_record = rec, qr_attempt = 1, qr_readyAt = zeroTime, qr_index = 0\<rparr>]\<rparr>))"

definition fill_end :: "int \<Rightarrow> store_record list \<Rightarrow> dispatcher \<Rightarrow> bool \<times> dispatcher" where
  "fill_end free records d =
     fill_loop records False (if int (length records) = free then d\<lparr>d_scanEmpty := False\<rparr> else d)"

text \<open>\<open>fillFresh\<close> when nothing else runs during the scan.\<close>

definition fillFresh ::
  "(u64 \<Rightarrow> int \<Rightarrow> gerror + store_record list) \<Rightarrow> dispatcher \<Rightarrow> (gerror + bool) \<times> dispatcher" where
  "fillFresh scan d =
     (case fill_begin d of
        (None, d) \<Rightarrow> (Inr False, d)
      | (Some (lo, free), d) \<Rightarrow>
          (case scan lo free of
             Inl err \<Rightarrow> (Inl err, fill_failed d)
           | Inr records \<Rightarrow> (case fill_end free records d of (progress, d) \<Rightarrow> (Inr progress, d))))"

section \<open>Reading\<close>

text \<open>The locked section at the top of the loop of \<open>Read\<close>: return, refill the fresh lane and start
  over, or (with the next wake time) fill and perhaps wait.\<close>

datatype read_outcome = ReadReturn "gerror + delivery list" | ReadRefill | ReadIdle time

definition read_section ::
  "flight_order \<Rightarrow> ('g \<Rightarrow> (gerror + receipt) \<times> 'g) \<Rightarrow> int \<Rightarrow> time \<Rightarrow> dispatcher \<Rightarrow> 'g
   \<Rightarrow> read_outcome \<times> dispatcher \<times> 'g" where
  "read_section ord newReceipt wanted now d g =
     (if d_closed d then (ReadReturn (Inl (DispatchError DispatchErrClosed)), d, g)
      else let d = expireLocked ord now d
      in if d_fresh d = [] \<and> d_retries d \<noteq> [] \<and> int (length (d_inFlight d)) < MaxInFlight (d_config d)
            \<and> \<not> d_scanDone d \<and> \<not> d_scanEmpty d
         then (ReadRefill, d, g)
         else case takeLocked newReceipt wanted now d g of
           (Inl err, d, g) \<Rightarrow> (ReadReturn (Inl err), d, g)
         | (Inr deliveries, d, g) \<Rightarrow>
             if deliveries \<noteq> [] then (ReadReturn (Inr deliveries), d, g)
             else
               let wakeAt = nextWakeLocked ord d;
                   d = (if MaxInFlight (d_config d) \<le> int (length (d_inFlight d))
                           \<or> PrefetchCapacity (d_config d) \<le> int (length (d_fresh d))
                        then d\<lparr>d_stats := (d_stats d)\<lparr>st_Backpressure := st_Backpressure (d_stats d) + 1\<rparr>\<rparr>
                        else d)
               in (ReadIdle wakeAt, d, g))"

section \<open>Waiting\<close>

text \<open>\<open>wait\<close> returns at once, without looking at the context, when the wake time has passed.
  Otherwise it selects among the cases that are ready, of which there may be none.\<close>

definition wait_enter :: "time \<Rightarrow> time \<Rightarrow> bool" where
  "wait_enter now wakeAt \<longleftrightarrow> wakeAt \<noteq> zeroTime \<and> wakeAt - now \<le> 0"

definition wait_select :: "gerror option \<Rightarrow> time \<Rightarrow> time \<Rightarrow> dispatcher \<Rightarrow> (gerror option \<times> dispatcher) list" where
  "wait_select ctx now wakeAt d =
     (case ctx of Some err \<Rightarrow> [(Some err, d)] | None \<Rightarrow> [])
     @ (if d_signal d then [(None, d\<lparr>d_signal := False\<rparr>)] else [])
     @ (if wakeAt \<noteq> zeroTime \<and> wakeAt \<le> now then [(None, d)] else [])"

end
