(* ===== verification/Dispatcher_Inv.thy ===== *)
theory Dispatcher_Inv
  imports Dispatcher
begin

text \<open>
  The invariant of the dispatcher. \<open>lane d l\<close> is the multiset of the sequences in lane \<open>l\<close>;
  \<open>tracks\<close> says that \<open>d_states\<close> describes the lanes exactly, so a tracked record is in one lane
  and there once. \<open>disp_inv\<close> adds the heap invariant, unique receipts, the capacity bounds, the
  order of the fresh lane, the cursor above everything tracked and the expiry watermark below
  every deadline. The lemmas show that each section keeps it and what it does to the lanes.
\<close>

section \<open>Lanes\<close>

definition seq_of :: "queuedRecord \<Rightarrow> u64" where
  "seq_of q = r_Seq (qr_record q)"

definition flight_seq :: "receipt \<times> flight \<Rightarrow> u64" where
  "flight_seq p = r_Seq (f_record (snd p))"

fun lane :: "dispatcher \<Rightarrow> dstate \<Rightarrow> u64 multiset" where
  "lane d stateFresh = mset (map seq_of (d_fresh d))"
| "lane d stateRetry = image_mset seq_of (rh_items (d_retries d))"
| "lane d stateInFlight = mset (map flight_seq (d_inFlight d))"

definition tracks :: "dispatcher \<Rightarrow> bool" where
  "tracks d \<longleftrightarrow> (\<forall>l q. count (lane d l) q = of_bool (d_states d q = Some l))"

lemma seq_of_unindex [simp]: "seq_of (unindex q) = seq_of q"
  by (simp add: seq_of_def)

lemma tracks_mem: "tracks d \<Longrightarrow> q \<in># lane d l \<longleftrightarrow> d_states d q = Some l"
  unfolding tracks_def by (metis count_eq_zero_iff of_bool_eq_0_iff)

lemma tracks_once: "tracks d \<Longrightarrow> lane d l = add_mset q M \<Longrightarrow> q \<notin># M"
proof -
  assume t: "tracks d" and l: "lane d l = add_mset q M"
  from t have "count (lane d l) q = of_bool (d_states d q = Some l)" unfolding tracks_def by blast
  also have "\<dots> \<le> (1 :: nat)" by simp
  finally show ?thesis by (simp add: l not_in_iff)
qed

lemma tracks_move:
  assumes "tracks d" "lane d a = add_mset q M" "a \<noteq> b" "lane d' a = M"
    and "lane d' b = add_mset q (lane d b)" "\<And>l. l \<noteq> a \<Longrightarrow> l \<noteq> b \<Longrightarrow> lane d' l = lane d l"
    and "d_states d' = (d_states d)(q \<mapsto> b)"
  shows "tracks d'"
  unfolding tracks_def
proof (intro allI)
  fix l p
  have c: "count (lane d l) p = of_bool (d_states d p = Some l)" for l p using assms(1) by (simp add: tracks_def)
  have q: "d_states d q = Some a" using tracks_mem [OF assms(1), of q a] assms(2) by simp
  show "count (lane d' l) p = of_bool (d_states d' p = Some l)"
    using c [of l p] c [of a p] q assms by (cases "l = a"; cases "l = b"; cases "p = q") auto
qed

lemma tracks_drop:
  assumes "tracks d" "lane d a = add_mset q M" "lane d' a = M"
    and "\<And>l. l \<noteq> a \<Longrightarrow> lane d' l = lane d l" "d_states d' = (d_states d)(q := None)"
  shows "tracks d'"
  unfolding tracks_def
proof (intro allI)
  fix l p
  have c: "count (lane d l) p = of_bool (d_states d p = Some l)" for l p using assms(1) by (simp add: tracks_def)
  have q: "d_states d q = Some a" using tracks_mem [OF assms(1), of q a] assms(2) by simp
  show "count (lane d' l) p = of_bool (d_states d' p = Some l)"
    using c [of l p] c [of a p] q assms by (cases "l = a"; cases "p = q") auto
qed

lemma tracks_add:
  assumes "tracks d" "d_states d q = None" "lane d' b = add_mset q (lane d b)"
    and "\<And>l. l \<noteq> b \<Longrightarrow> lane d' l = lane d l" "d_states d' = (d_states d)(q \<mapsto> b)"
  shows "tracks d'"
  unfolding tracks_def
proof (intro allI)
  fix l p
  have c: "count (lane d l) p = of_bool (d_states d p = Some l)" for l p using assms(1) by (simp add: tracks_def)
  show "count (lane d' l) p = of_bool (d_states d' p = Some l)"
    using c [of l p] assms by (cases "l = b"; cases "p = q") auto
qed

lemma tracks_cong: "tracks d \<Longrightarrow> (\<And>l. lane d' l = lane d l) \<Longrightarrow> d_states d' = d_states d \<Longrightarrow> tracks d'"
  by (simp add: tracks_def)

section \<open>The invariant\<close>

definition config_ok :: "dconfig \<Rightarrow> bool" where
  "config_ok c \<longleftrightarrow> 0 < PrefetchCapacity c \<and> 0 < MaxInFlight c \<and> 0 < VisibilityTimeout c
     \<and> 0 \<le> RetryInitial c \<and> RetryInitial c \<le> RetryMax c \<and> \<not> f64_less (RetryMultiplier c) 1"

definition flights_ok :: "dispatcher \<Rightarrow> bool" where
  "flights_ok d \<longleftrightarrow> distinct (keys (d_inFlight d))
     \<and> (\<forall>(r, f) \<in> set (d_inFlight d). f_receipt f = r \<and> d_expireAt d \<le> f_deadline f)"

definition bounds_ok :: "dispatcher \<Rightarrow> bool" where
  "bounds_ok d \<longleftrightarrow>
     int (length (d_inFlight d)) \<le> MaxInFlight (d_config d)
     \<and> int (length (d_fresh d)) \<le> PrefetchCapacity (d_config d)
     \<and> int (length (d_retries d)) + int (length (d_inFlight d))
         \<le> PrefetchCapacity (d_config d) + MaxInFlight (d_config d)"

definition cursor_ok :: "dispatcher \<Rightarrow> bool" where
  "cursor_ok d \<longleftrightarrow> 0 < d_cursor d \<and> sorted_wrt (<) (map seq_of (d_fresh d))
     \<and> (\<forall>q \<in> dom (d_states d). q < d_cursor d \<or> d_scanDone d \<and> q = MaxUint64)"

definition disp_inv :: "dispatcher \<Rightarrow> bool" where
  "disp_inv d \<longleftrightarrow> config_ok (d_config d) \<and> tracks d \<and> rh_inv (d_retries d) \<and> flights_ok d
     \<and> bounds_ok d \<and> cursor_ok d"

lemmas disp_inv_defs = disp_inv_def flights_ok_def bounds_ok_def cursor_ok_def

lemma New_inv: "New nil c = Inr d \<Longrightarrow> disp_inv d \<and> config_ok c \<and> d_config d = c"
proof -
  assume run: "New nil c = Inr d"
  then have c: "config_ok c" by (auto simp: New_def config_ok_def split: if_splits)
  from run have d: "d = \<lparr>d_config = c, d_closed = False, d_cursor = 1, d_scanDone = False,
                d_scanEmpty = False, d_fresh = [], d_retries = [], d_inFlight = [],
                d_states = Map.empty, d_preferRetry = False, d_signal = False,
                d_stats = zero_stats, d_expireAt = zeroTime\<rparr>" by (auto simp: New_def split: if_splits)
  have "lane d l = {#}" for l by (cases l) (simp_all add: d)
  then have "tracks d" by (simp add: tracks_def d)
  with c show ?thesis by (simp add: disp_inv_defs d) (simp add: config_ok_def)
qed

lemma New_fields:
  "New nil c = Inr d \<Longrightarrow> d_states d = Map.empty \<and> d_cursor d = 1 \<and> \<not> d_scanDone d \<and> \<not> d_scanEmpty d \<and> \<not> d_closed d"
  by (auto simp: New_def split: if_splits)

lemma New_error_iff: "isl (New False c) \<longleftrightarrow> \<not> config_ok c"
  by (auto simp: New_def config_ok_def)

section \<open>Pushing a retry\<close>

lemma push_retry_fields [disp_simps]:
  "d_fresh (push_retry rec a t d) = d_fresh d"
  "d_inFlight (push_retry rec a t d) = d_inFlight d"
  "d_states (push_retry rec a t d) = (d_states d)(r_Seq rec \<mapsto> stateRetry)"
  "d_config (push_retry rec a t d) = d_config d" "d_closed (push_retry rec a t d) = d_closed d"
  "d_cursor (push_retry rec a t d) = d_cursor d" "d_scanDone (push_retry rec a t d) = d_scanDone d"
  "d_scanEmpty (push_retry rec a t d) = d_scanEmpty d"
  "d_preferRetry (push_retry rec a t d) = d_preferRetry d" "d_signal (push_retry rec a t d) = d_signal d"
  "d_stats (push_retry rec a t d) = d_stats d" "d_expireAt (push_retry rec a t d) = d_expireAt d"
  by (simp_all add: push_retry_def)

definition retry_item :: "store_record \<Rightarrow> u32 \<Rightarrow> time \<Rightarrow> queuedRecord" where
  "retry_item rec a t = \<lparr>qr_record = rec, qr_attempt = a, qr_readyAt = t, qr_index = - 1\<rparr>"

lemma push_retry_items:
  "rh_inv (d_retries d) \<Longrightarrow> rh_inv (d_retries (push_retry rec a t d))
     \<and> rh_items (d_retries (push_retry rec a t d)) = add_mset (retry_item rec a t) (rh_items (d_retries d))
     \<and> length (d_retries (push_retry rec a t d)) = Suc (length (d_retries d))"
  using heap_Push_correct [of "d_retries d"] by (simp add: push_retry_def retry_item_def unindex_def)

text \<open>Taking a flight out of the in-flight lane and pushing it as a retry moves its sequence.\<close>

definition flight_to_retry :: "receipt \<Rightarrow> flight \<Rightarrow> u32 \<Rightarrow> time \<Rightarrow> dispatcher \<Rightarrow> dispatcher" where
  "flight_to_retry r f a t d =
     push_retry (f_record f) a t (d\<lparr>d_inFlight := AList.delete r (d_inFlight d)\<rparr>)"

lemma lane_delete:
  assumes "distinct (keys (d_inFlight d))" "map_of (d_inFlight d) r = Some f"
  shows "lane d stateInFlight =
    add_mset (r_Seq (f_record f)) (mset (map flight_seq (AList.delete r (d_inFlight d))))"
  using mset_delete [OF assms] by (simp add: flight_seq_def)

lemma flight_to_retry_tracks:
  assumes "tracks d" "distinct (keys (d_inFlight d))" "map_of (d_inFlight d) r = Some f" "rh_inv (d_retries d)"
  shows "tracks (flight_to_retry r f a t d)"
proof (rule tracks_move [OF assms(1) lane_delete [OF assms(2,3)]])
  have items: "rh_items (d_retries (flight_to_retry r f a t d)) = add_mset (retry_item (f_record f) a t) (rh_items (d_retries d))"
    using push_retry_items [of "d\<lparr>d_inFlight := AList.delete r (d_inFlight d)\<rparr>"] assms(4)
    by (simp add: flight_to_retry_def)
  then show "lane (flight_to_retry r f a t d) stateRetry = add_mset (r_Seq (f_record f)) (lane d stateRetry)"
    by (simp add: seq_of_def retry_item_def)
  show "lane (flight_to_retry r f a t d) l = lane d l" if "l \<noteq> stateInFlight" "l \<noteq> stateRetry" for l
    using that by (cases l) (simp_all add: flight_to_retry_def disp_simps)
qed (simp_all add: flight_to_retry_def disp_simps)

section \<open>Expiry\<close>

definition expired :: "time \<Rightarrow> receipt \<times> flight \<Rightarrow> bool" where
  "expired now p \<longleftrightarrow> f_deadline (snd p) \<le> now"

definition expired_item :: "time \<Rightarrow> receipt \<times> flight \<Rightarrow> queuedRecord" where
  "expired_item now p = retry_item (f_record (snd p)) (nextAttempt (f_attempt (snd p))) now"

text \<open>The fields that expiry and the completion of deliveries leave alone.\<close>

definition same_control :: "dispatcher \<Rightarrow> dispatcher \<Rightarrow> bool" where
  "same_control d d' \<longleftrightarrow> d_config d' = d_config d \<and> d_closed d' = d_closed d \<and> d_cursor d' = d_cursor d
     \<and> d_scanDone d' = d_scanDone d \<and> d_scanEmpty d' = d_scanEmpty d \<and> d_fresh d' = d_fresh d
     \<and> d_preferRetry d' = d_preferRetry d"

lemma same_control_refl [simp]: "same_control d d"
  by (simp add: same_control_def)

lemma same_control_trans: "same_control a b \<Longrightarrow> same_control b c \<Longrightarrow> same_control a c"
  by (simp add: same_control_def)

text \<open>The sections that complete or shift leases keep the invariant for the same reasons.\<close>

lemma disp_inv_shrink:
  assumes "disp_inv d" "same_control d d'" "tracks d'" "rh_inv (d_retries d')" "flights_ok d'"
    and "length (d_inFlight d') \<le> length (d_inFlight d)"
    and "length (d_retries d') + length (d_inFlight d') \<le> length (d_retries d) + length (d_inFlight d)"
    and "dom (d_states d') \<subseteq> dom (d_states d)"
  shows "disp_inv d'"
proof -
  have "bounds_ok d'" using assms(1,2,6,7) by (simp add: disp_inv_def bounds_ok_def same_control_def)
  moreover have "cursor_ok d'"
    using assms(1,2,8) by (auto simp: disp_inv_def cursor_ok_def same_control_def)
  ultimately show ?thesis using assms by (simp add: disp_inv_def same_control_def)
qed

definition expire_post :: "time \<Rightarrow> (receipt \<times> flight) list \<Rightarrow> dispatcher \<Rightarrow> dispatcher \<Rightarrow> bool" where
  "expire_post now L d d' \<longleftrightarrow>
     same_control d d' \<and> d_signal d' = d_signal d \<and> d_expireAt d' = d_expireAt d
     \<and> tracks d' \<and> rh_inv (d_retries d')
     \<and> d_inFlight d' = filter (\<lambda>p. \<not> (p \<in> set L \<and> expired now p)) (d_inFlight d)
     \<and> rh_items (d_retries d') = rh_items (d_retries d) + mset (map (expired_item now) (filter (expired now) L))
     \<and> dom (d_states d') = dom (d_states d)"

definition expire_step :: "time \<Rightarrow> receipt \<times> flight \<Rightarrow> dispatcher \<Rightarrow> dispatcher" where
  "expire_step now p d =
     (let d = flight_to_retry (fst p) (snd p) (nextAttempt (f_attempt (snd p))) now d
      in d\<lparr>d_stats := (d_stats d)\<lparr>st_LeaseExpirations := st_LeaseExpirations (d_stats d) + 1\<rparr>\<rparr>)"

lemma tracks_stats [simp]: "tracks (d\<lparr>d_stats := x\<rparr>) = tracks d"
proof -
  have "lane (d\<lparr>d_stats := x\<rparr>) l = lane d l" for l by (cases l) simp_all
  then show ?thesis by (simp add: tracks_def)
qed

lemma tracks_expireAt [simp]: "tracks (d\<lparr>d_expireAt := x\<rparr>) = tracks d"
proof -
  have "lane (d\<lparr>d_expireAt := x\<rparr>) l = lane d l" for l by (cases l) simp_all
  then show ?thesis by (simp add: tracks_def)
qed

lemma tracks_signal [simp]: "tracks (d\<lparr>d_signal := x\<rparr>) = tracks d"
proof -
  have "lane (d\<lparr>d_signal := x\<rparr>) l = lane d l" for l by (cases l) simp_all
  then show ?thesis by (simp add: tracks_def)
qed

lemma expire_step_post:
  assumes "tracks d" "distinct (keys (d_inFlight d))" "p \<in> set (d_inFlight d)" "rh_inv (d_retries d)"
    and "expired now p"
  shows "expire_post now [p] d (expire_step now p d)"
proof -
  obtain r f where p: "p = (r, f)" by (cases p)
  have m: "map_of (d_inFlight d) r = Some f" using assms(2,3) p by simp
  let ?d = "d\<lparr>d_inFlight := AList.delete r (d_inFlight d)\<rparr>"
  have "AList.delete r (d_inFlight d) = filter (\<lambda>x. \<not> (x = p)) (d_inFlight d)"
    unfolding AList.delete_eq
  proof (rule filter_cong [OF refl])
    fix x assume x: "x \<in> set (d_inFlight d)"
    obtain k g where k: "x = (k, g)" by (cases x)
    moreover from this have "map_of (d_inFlight d) k = Some g" using x assms(2) by simp
    ultimately show "(case x of (k', _) \<Rightarrow> r \<noteq> k') \<longleftrightarrow> \<not> x = p" using m p by auto
  qed
  moreover have "tracks (flight_to_retry r f (nextAttempt (f_attempt f)) now d)"
    by (rule flight_to_retry_tracks [OF assms(1,2) m assms(4)])
  moreover have "d_states d (r_Seq (f_record f)) = Some stateInFlight"
    using tracks_mem [OF assms(1), of _ stateInFlight] assms(3) p by (force simp: flight_seq_def)
  ultimately show ?thesis
    using push_retry_items [of ?d "f_record f" "nextAttempt (f_attempt f)" now] assms(4,5) p
    by (auto simp: expire_post_def expire_step_def Let_def flight_to_retry_def disp_simps same_control_def
        expired_item_def)
qed

lemma expire_loop_Cons:
  "expire_loop now (p # L) e d =
     (if expired now p then expire_loop now L e (expire_step now p d)
      else expire_loop now L (min (f_deadline (snd p)) e) d)"
  by (cases p) (auto simp: expired_def expire_step_def flight_to_retry_def Let_def min_def)

lemma expire_post_distinct:
  "expire_post now L d d' \<Longrightarrow> distinct (keys (d_inFlight d)) \<Longrightarrow> distinct (keys (d_inFlight d'))"
  by (auto simp: expire_post_def intro: distinct_map_filter)

lemma expire_loop_post:
  "tracks d \<Longrightarrow> distinct (keys (d_inFlight d)) \<Longrightarrow> set L \<subseteq> set (d_inFlight d) \<Longrightarrow> distinct L \<Longrightarrow>
   rh_inv (d_retries d) \<Longrightarrow> expire_loop now L e d = (e', d') \<Longrightarrow>
     expire_post now L d d' \<and> e' \<le> e \<and> (\<forall>p \<in> set L. \<not> expired now p \<longrightarrow> e' \<le> f_deadline (snd p))"
proof (induction L arbitrary: d e)
  case Nil
  then show ?case by (auto simp: expire_post_def)
next
  case (Cons p L)
  show ?case
  proof (cases "expired now p")
    case True
    let ?d1 = "expire_step now p d"
    have s: "expire_post now [p] d ?d1" using Cons.prems True by (intro expire_step_post) auto
    then have "set L \<subseteq> set (d_inFlight ?d1)" using Cons.prems(3,4) by (auto simp: expire_post_def)
    moreover have "tracks ?d1" "rh_inv (d_retries ?d1)" using s by (simp_all add: expire_post_def)
    moreover have "expire_loop now L e ?d1 = (e', d')" using Cons.prems(6) True by (simp add: expire_loop_Cons)
    ultimately have IH: "expire_post now L ?d1 d'"
      "e' \<le> e \<and> (\<forall>p \<in> set L. \<not> expired now p \<longrightarrow> e' \<le> f_deadline (snd p))"
      using Cons.IH [of ?d1 e] Cons.prems(2,4) expire_post_distinct [OF s] by auto
    have "filter (\<lambda>x. \<not> (x \<in> set L \<and> expired now x)) (filter (\<lambda>x. \<not> (x \<in> set [p] \<and> expired now x)) xs) =
        filter (\<lambda>x. \<not> (x \<in> set (p # L) \<and> expired now x)) xs" for xs
      unfolding filter_filter by (rule filter_cong) auto
    with s IH(1) True have "expire_post now (p # L) d d'"
      unfolding expire_post_def by (simp add: same_control_def)
    with IH(2) True show ?thesis by simp
  next
    case False
    then have "expire_loop now L (min (f_deadline (snd p)) e) d = (e', d')"
      using Cons.prems(6) by (simp add: expire_loop_Cons)
    from Cons.IH [OF Cons.prems(1,2) _ _ Cons.prems(5) this] Cons.prems(3,4)
    have IH: "expire_post now L d d'" "e' \<le> min (f_deadline (snd p)) e"
      "\<forall>p \<in> set L. \<not> expired now p \<longrightarrow> e' \<le> f_deadline (snd p)" by simp_all
    have "(\<lambda>x. \<not> (x \<in> set (p # L) \<and> expired now x)) = (\<lambda>x. \<not> (x \<in> set L \<and> expired now x))"
      using False by auto
    with IH False show ?thesis unfolding expire_post_def by simp
  qed
qed

text \<open>What the map iteration of Go may do: visit the entries in any order, each once.\<close>

definition any_order :: "('a list \<Rightarrow> 'a list) \<Rightarrow> bool" where
  "any_order ord \<longleftrightarrow> (\<forall>xs. mset (ord xs) = mset xs)"

lemma any_order_set: "any_order ord \<Longrightarrow> set (ord xs) = set xs"
  unfolding any_order_def by (metis set_mset_mset)

lemma any_order_distinct: "any_order ord \<Longrightarrow> distinct xs \<Longrightarrow> distinct (ord xs)"
  unfolding any_order_def by (metis mset_eq_imp_distinct_iff)

definition expire_result :: "time \<Rightarrow> dispatcher \<Rightarrow> dispatcher \<Rightarrow> bool" where
  "expire_result now d d' \<longleftrightarrow>
     same_control d d' \<and> d_signal d' = d_signal d
     \<and> d_inFlight d' = filter (\<lambda>p. \<not> expired now p) (d_inFlight d)
     \<and> rh_items (d_retries d') =
         rh_items (d_retries d) + mset (map (expired_item now) (filter (expired now) (d_inFlight d)))
     \<and> dom (d_states d') = dom (d_states d)"

text \<open>Whatever the watermark, an expiry sweep moves exactly the expired leases to the retry lane.\<close>

lemma expireLocked_correct:
  assumes inv: "disp_inv d" and ord: "any_order ord"
  shows "expire_result now d (expireLocked ord now d) \<and> disp_inv (expireLocked ord now d)"
proof (cases "now < d_expireAt d")
  case True
  have none: "\<not> expired now p" if "p \<in> set (d_inFlight d)" for p
    using inv that True by (force simp: disp_inv_defs expired_def)
  then have "filter (\<lambda>p. \<not> expired now p) (d_inFlight d) = d_inFlight d" "filter (expired now) (d_inFlight d) = []"
    by (auto simp: filter_id_conv filter_empty_conv)
  with True inv show ?thesis by (simp add: expireLocked_def expire_result_def)
next
  case False
  let ?L = "ord (d_inFlight d)"
  obtain e d' where run: "expire_loop now ?L farFuture d = (e, d')" by fastforce
  have base: "tracks d" "distinct (keys (d_inFlight d))" "rh_inv (d_retries d)"
    using inv by (simp_all add: disp_inv_defs)
  then have "distinct (d_inFlight d)" by (simp add: distinct_map)
  with base run any_order_set [OF ord] any_order_distinct [OF ord]
  have p: "expire_post now ?L d d'" and e: "\<forall>p \<in> set (d_inFlight d). \<not> expired now p \<longrightarrow> e \<le> f_deadline (snd p)"
    using expire_loop_post [of d ?L now farFuture e d'] by auto
  have d': "expireLocked ord now d = d'\<lparr>d_expireAt := e\<rparr>" using False run by (simp add: expireLocked_def)
  have "filter (\<lambda>p. \<not> (p \<in> set ?L \<and> expired now p)) (d_inFlight d) = filter (\<lambda>p. \<not> expired now p) (d_inFlight d)"
    by (rule filter_cong) (simp_all add: any_order_set [OF ord])
  moreover have "mset (map (expired_item now) (filter (expired now) ?L)) =
      mset (map (expired_item now) (filter (expired now) (d_inFlight d)))"
    using ord by (simp add: any_order_def)
  ultimately have r: "expire_result now d (expireLocked ord now d)"
    using p unfolding d' expire_post_def expire_result_def same_control_def by simp
  have "rh_items (d_retries d') =
      rh_items (d_retries d) + mset (map (expired_item now) (filter (expired now) (d_inFlight d)))"
    using r by (simp add: d' expire_result_def)
  from arg_cong [OF this, of size] have "length (d_retries d') + length (d_inFlight d') = length (d_retries d) + length (d_inFlight d)"
    using r sum_length_filter_compl [of "expired now" "d_inFlight d"]
    by (simp add: d' expire_result_def del: mset_map mset_filter)
  moreover have "length (d_inFlight d') \<le> length (d_inFlight d)"
    using r by (simp add: d' expire_result_def)
  moreover have "flights_ok (d'\<lparr>d_expireAt := e\<rparr>)"
    using e inv r unfolding d' expire_result_def disp_inv_defs
    by (auto simp: distinct_map_filter)
  ultimately have "disp_inv (d'\<lparr>d_expireAt := e\<rparr>)"
    using p r by (intro disp_inv_shrink [OF inv])
      (simp_all add: d' expire_result_def expire_post_def same_control_def)
  with r show ?thesis by (simp add: d')
qed

end
