(* ===== verification/Dispatcher_Ops.thy ===== *)
theory Dispatcher_Ops
  imports Dispatcher_Inv
begin

text \<open>
  The operations on deliveries. A delivery is valid when its receipt is in flight for that
  sequence and attempt; \<open>validateLocked\<close> accepts exactly the lists of distinct valid deliveries.
  The locale \<open>delivery_op\<close> is what the loops of \<open>Commit\<close>, \<open>Retry\<close>, \<open>Extend\<close> and \<open>DeadLetter\<close> have
  in common: they handle one valid delivery after the other, and none disturbs the next.
\<close>

section \<open>Valid deliveries\<close>

definition valid_delivery :: "dispatcher \<Rightarrow> delivery \<Rightarrow> bool" where
  "valid_delivery d x \<longleftrightarrow>
     (\<exists>f. map_of (d_inFlight d) (dl_Receipt x) = Some f \<and> r_Seq (f_record f) = r_Seq (dl_Record x)
          \<and> f_attempt f = dl_Attempt x)"

definition dl_seq :: "delivery \<Rightarrow> u64" where
  "dl_seq x = r_Seq (dl_Record x)"

lemma validate_loop_Inr:
  "validate_loop d seen ds = Inr seqs \<longleftrightarrow>
     distinct (map dl_Receipt ds) \<and> set seen \<inter> dl_Receipt ` set ds = {}
     \<and> (\<forall>x \<in> set ds. valid_delivery d x) \<and> seqs = map dl_seq ds"
proof (induction ds arbitrary: seen seqs)
  case Nil
  then show ?case by auto
next
  case (Cons x ds)
  then show ?case
    by (auto simp: gbind_Inr_iff valid_delivery_def dl_seq_def split: option.splits)
qed

lemma validate_loop_Inl: "validate_loop d seen ds = Inl e \<Longrightarrow> e = DispatchError DispatchErrStaleDelivery"
  by (induction ds arbitrary: seen) (auto simp: gbind_Inl_iff split: if_splits option.splits)

lemma validateLocked_iff:
  "validateLocked d ds = Inr seqs \<longleftrightarrow>
     distinct (map dl_Receipt ds) \<and> (\<forall>x \<in> set ds. valid_delivery d x) \<and> seqs = map dl_seq ds"
  by (simp add: validateLocked_def validate_loop_Inr)

lemma validateLocked_error: "validateLocked d ds = Inl e \<Longrightarrow> e = DispatchError DispatchErrStaleDelivery"
  unfolding validateLocked_def by (rule validate_loop_Inl)

lemma valid_delivery_state:
  assumes "disp_inv d" "valid_delivery d x"
  shows "d_states d (dl_seq x) = Some stateInFlight"
proof -
  obtain f where f: "(dl_Receipt x, f) \<in> set (d_inFlight d)" "r_Seq (f_record f) = dl_seq x"
    using assms(2) by (auto simp: valid_delivery_def dl_seq_def dest: map_of_SomeD)
  then have "dl_seq x \<in># lane d stateInFlight" by (force simp: flight_seq_def)
  moreover have "tracks d" using assms(1) by (simp add: disp_inv_def)
  ultimately show ?thesis using tracks_mem by blast
qed

lemma flight_unique_seq:
  assumes "tracks d" "distinct (keys (d_inFlight d))"
    and "map_of (d_inFlight d) r = Some f" "map_of (d_inFlight d) r' = Some f'"
    and "r_Seq (f_record f) = r_Seq (f_record f')"
  shows "r = r'"
proof (rule ccontr)
  assume ne: "r \<noteq> r'"
  let ?M = "mset (map flight_seq (AList.delete r (d_inFlight d)))"
  have "lane d stateInFlight = add_mset (r_Seq (f_record f)) ?M" by (rule lane_delete [OF assms(2,3)])
  then have "r_Seq (f_record f) \<notin># ?M" using tracks_once [OF assms(1)] by blast
  moreover have "(r', f') \<in> set (AList.delete r (d_inFlight d))"
    using ne assms(4) map_of_SomeD by (force simp: AList.delete_eq)
  then have "r_Seq (f_record f') \<in># ?M" by (force simp: flight_seq_def)
  ultimately show False using assms(5) by simp
qed

lemma valid_seq_inj:
  assumes "disp_inv d" "valid_delivery d x" "valid_delivery d y" "dl_seq x = dl_seq y"
  shows "dl_Receipt x = dl_Receipt y"
  using assms flight_unique_seq [of d]
  unfolding valid_delivery_def disp_inv_def flights_ok_def dl_seq_def by metis

section \<open>Handling a list of deliveries\<close>

locale delivery_op =
  fixes op1 :: "delivery \<Rightarrow> dispatcher \<Rightarrow> dispatcher"
  assumes step_inv: "disp_inv d \<Longrightarrow> valid_delivery d x \<Longrightarrow> disp_inv (op1 x d)"
    and step_other: "r \<noteq> dl_Receipt x \<Longrightarrow> map_of (d_inFlight (op1 x d)) r = map_of (d_inFlight d) r"
    and step_control: "same_control d (op1 x d) \<and> d_signal (op1 x d) = d_signal d"
    and step_states: "disp_inv d \<Longrightarrow> valid_delivery d x \<Longrightarrow> q \<noteq> dl_seq x \<Longrightarrow> d_states (op1 x d) q = d_states d q"
begin

lemma step_valid: "dl_Receipt y \<noteq> dl_Receipt x \<Longrightarrow> valid_delivery (op1 x d) y \<longleftrightarrow> valid_delivery d y"
  by (simp add: valid_delivery_def step_other)

lemma rest_valid:
  "distinct (map dl_Receipt (x # ds)) \<Longrightarrow> \<forall>y \<in> set ds. valid_delivery d y \<Longrightarrow> \<forall>y \<in> set ds. valid_delivery (op1 x d) y"
  using step_valid by (metis distinct.simps(2) image_eqI list.set_map list.simps(9))

lemma all_inv:
  "disp_inv d \<Longrightarrow> distinct (map dl_Receipt ds) \<Longrightarrow> \<forall>x \<in> set ds. valid_delivery d x \<Longrightarrow> disp_inv (fold op1 ds d)"
proof (induction ds arbitrary: d)
  case (Cons x ds)
  then have "\<forall>y \<in> set ds. valid_delivery (op1 x d) y" by (intro rest_valid) auto
  with Cons show ?case by (auto intro: step_inv)
qed simp

lemma all_other:
  "r \<notin> dl_Receipt ` set ds \<Longrightarrow> map_of (d_inFlight (fold op1 ds d)) r = map_of (d_inFlight d) r"
  by (induction ds arbitrary: d) (auto simp: step_other)

lemma all_control: "same_control d (fold op1 ds d) \<and> d_signal (fold op1 ds d) = d_signal d"
proof (induction ds arbitrary: d)
  case (Cons x ds)
  from Cons [of "op1 x d"] step_control [of d x] show ?case by (auto intro: same_control_trans)
qed simp

lemma all_states:
  "disp_inv d \<Longrightarrow> distinct (map dl_Receipt ds) \<Longrightarrow> \<forall>x \<in> set ds. valid_delivery d x \<Longrightarrow>
     q \<notin> dl_seq ` set ds \<Longrightarrow> d_states (fold op1 ds d) q = d_states d q"
proof (induction ds arbitrary: d)
  case (Cons x ds)
  then have "\<forall>y \<in> set ds. valid_delivery (op1 x d) y" "disp_inv (op1 x d)"
    using rest_valid [of x ds d] by (auto intro: step_inv)
  with Cons show ?case by (simp add: step_states)
qed simp

text \<open>A state that one step sets and no other step touches holds at the end.\<close>

lemma all_set:
  assumes "\<And>d x. disp_inv d \<Longrightarrow> valid_delivery d x \<Longrightarrow> d_states (op1 x d) (dl_seq x) = s"
  shows "disp_inv d \<Longrightarrow> distinct (map dl_Receipt ds) \<Longrightarrow> \<forall>x \<in> set ds. valid_delivery d x \<Longrightarrow>
     q \<in> dl_seq ` set ds \<Longrightarrow> d_states (fold op1 ds d) q = s"
proof (induction ds arbitrary: d)
  case (Cons x ds)
  have v: "\<forall>y \<in> set ds. valid_delivery (op1 x d) y" "disp_inv (op1 x d)"
    using Cons.prems rest_valid [of x ds d] by (auto intro: step_inv)
  show ?case
  proof (cases "q \<in> dl_seq ` set ds")
    case True
    with Cons v show ?thesis by simp
  next
    case False
    with Cons.prems v assms show ?thesis by (auto simp: all_states)
  qed
qed simp

end

section \<open>Completing\<close>

lemma flights_ok_delete:
  "flights_ok d \<Longrightarrow> flights_ok (d\<lparr>d_inFlight := AList.delete r (d_inFlight d)\<rparr>)"
  by (auto simp: flights_ok_def AList.delete_eq distinct_map_filter)

lemma length_delete_le: "length (AList.delete r m) \<le> length m"
  by (simp add: AList.delete_eq)

interpretation releasing: delivery_op release
proof
  fix d x
  assume inv: "disp_inv d" and v: "valid_delivery d x"
  then obtain f where f: "map_of (d_inFlight d) (dl_Receipt x) = Some f" "r_Seq (f_record f) = r_Seq (dl_Record x)"
    by (auto simp: valid_delivery_def)
  have base: "tracks d" "distinct (keys (d_inFlight d))" using inv by (simp_all add: disp_inv_defs)
  have "tracks (release x d)"
  proof (rule tracks_drop [OF base(1) lane_delete [OF base(2) f(1)]])
    show "lane (release x d) l = lane d l" if "l \<noteq> stateInFlight" for l
      using that by (cases l) (simp_all add: release_def)
  qed (simp_all add: release_def f)
  moreover have "flights_ok (release x d)"
    using inv flights_ok_delete [of d "dl_Receipt x"] by (simp add: disp_inv_def release_def flights_ok_def)
  ultimately show "disp_inv (release x d)"
    using inv by (intro disp_inv_shrink [OF inv])
      (auto simp: release_def same_control_def disp_inv_def length_delete_le)
qed (auto simp: release_def same_control_def delete_conv' dl_seq_def)

lemma release_states: "d_states (release x d) (dl_seq x) = None"
  by (simp add: release_def dl_seq_def)

section \<open>Retrying\<close>

lemma flight_to_retry_inv:
  assumes inv: "disp_inv d" and m: "map_of (d_inFlight d) r = Some f"
  shows "disp_inv (flight_to_retry r f a t d)"
proof -
  let ?d = "d\<lparr>d_inFlight := AList.delete r (d_inFlight d)\<rparr>"
  have base: "tracks d" "distinct (keys (d_inFlight d))" "rh_inv (d_retries d)"
    using inv by (simp_all add: disp_inv_defs)
  have "flights_ok (flight_to_retry r f a t d)"
    using inv flights_ok_delete [of d r] by (simp add: disp_inv_def flight_to_retry_def flights_ok_def disp_simps)
  moreover have "d_states d (r_Seq (f_record f)) = Some stateInFlight"
    using tracks_mem [OF base(1), of _ stateInFlight] lane_delete [OF base(2) m] by (metis union_single_eq_member)
  moreover have "length (d_inFlight d) = Suc (length (AList.delete r (d_inFlight d)))"
    by (rule length_delete [OF base(2) m])
  ultimately show ?thesis
    using push_retry_items [of ?d "f_record f" a t] base(3) flight_to_retry_tracks [OF base(1,2) m base(3)]
    by (intro disp_inv_shrink [OF inv])
      (auto simp: flight_to_retry_def same_control_def disp_simps)
qed

lemma disp_inv_stats [simp]: "disp_inv (d\<lparr>d_stats := x\<rparr>) = disp_inv d"
  by (simp add: disp_inv_defs)

lemma disp_inv_signal [simp]: "disp_inv (d\<lparr>d_signal := x\<rparr>) = disp_inv d"
  by (simp add: disp_inv_defs)

lemma retry_one_eq:
  "valid_delivery d x \<Longrightarrow> retry_one oor now x d =
     (let f = the (map_of (d_inFlight d) (dl_Receipt x));
          d' = flight_to_retry (dl_Receipt x) f (nextAttempt (f_attempt f))
                 (now + retryDelay oor (d_config d) (f_attempt f)) d
      in d'\<lparr>d_stats := (d_stats d')\<lparr>st_Retries := st_Retries (d_stats d') + 1\<rparr>\<rparr>)"
  by (auto simp: retry_one_def lookup_flight_def flight_to_retry_def valid_delivery_def Let_def)

lemma retry_one_fields:
  "map_of (d_inFlight (retry_one oor now x d)) r = (if r = dl_Receipt x then None else map_of (d_inFlight d) r)"
  "same_control d (retry_one oor now x d)" "d_signal (retry_one oor now x d) = d_signal d"
  by (auto simp: retry_one_def Let_def disp_simps same_control_def delete_conv')

interpretation retrying: delivery_op "retry_one oor now"
proof
  fix d x
  assume inv: "disp_inv d" and v: "valid_delivery d x"
  then show "disp_inv (retry_one oor now x d)"
    by (auto simp: retry_one_eq Let_def valid_delivery_def flight_to_retry_inv)
  fix q assume "q \<noteq> dl_seq x"
  with v show "d_states (retry_one oor now x d) q = d_states d q"
    by (auto simp: retry_one_eq Let_def valid_delivery_def flight_to_retry_def disp_simps dl_seq_def)
qed (simp_all add: retry_one_fields)

lemma retry_one_states:
  "valid_delivery d x \<Longrightarrow> d_states (retry_one oor now x d) (dl_seq x) = Some stateRetry"
  by (auto simp: retry_one_eq Let_def valid_delivery_def flight_to_retry_def disp_simps dl_seq_def)

lemma other_receipt: "distinct (map dl_Receipt (x # ds)) \<Longrightarrow> y \<in> set ds \<Longrightarrow> dl_Receipt y \<noteq> dl_Receipt x"
  by (metis distinct.simps(2) image_eqI list.map(2) list.set_map)

text \<open>What a batch of retries adds to the heap.\<close>

definition retried :: "(float64 \<Rightarrow> duration) \<Rightarrow> time \<Rightarrow> dispatcher \<Rightarrow> delivery \<Rightarrow> queuedRecord" where
  "retried oor now d x =
     retry_item (f_record (lookup_flight d (dl_Receipt x))) (nextAttempt (dl_Attempt x))
       (now + retryDelay oor (d_config d) (dl_Attempt x))"

lemma retry_one_items:
  assumes "disp_inv d" "valid_delivery d x"
  shows "rh_items (d_retries (retry_one oor now x d)) = add_mset (retried oor now d x) (rh_items (d_retries d))"
proof -
  obtain f where f: "map_of (d_inFlight d) (dl_Receipt x) = Some f" "f_attempt f = dl_Attempt x"
    using assms(2) by (auto simp: valid_delivery_def)
  show ?thesis
    using push_retry_items [of "d\<lparr>d_inFlight := AList.delete (dl_Receipt x) (d_inFlight d)\<rparr>"] assms(1) f
    by (simp add: retry_one_def Let_def lookup_flight_def retried_def disp_inv_def)
qed

lemma retry_all_items:
  "disp_inv d \<Longrightarrow> distinct (map dl_Receipt ds) \<Longrightarrow> \<forall>x \<in> set ds. valid_delivery d x \<Longrightarrow>
     rh_items (d_retries (fold (retry_one oor now) ds d)) = rh_items (d_retries d) + mset (map (retried oor now d) ds)"
proof (induction ds arbitrary: d)
  case (Cons x ds)
  let ?d = "retry_one oor now x d"
  have "image_mset (retried oor now ?d) (mset ds) = image_mset (retried oor now d) (mset ds)"
    using other_receipt [OF Cons.prems(2)] retry_one_fields(1,2) [where oor = oor and now = now and x = x and d = d]
    by (intro image_mset_cong) (simp add: retried_def lookup_flight_def same_control_def)
  moreover have "\<forall>y \<in> set ds. valid_delivery ?d y" using Cons.prems retrying.rest_valid by auto
  ultimately show ?case
    using Cons.IH [of ?d] Cons.prems retrying.step_inv [of d x] retry_one_items [of d x oor now] by simp
qed simp

section \<open>Extending\<close>

lemma extend_one_eq:
  "map_of (d_inFlight d) (dl_Receipt x) = Some f \<Longrightarrow>
     extend_one e x d = d\<lparr>d_inFlight := AList.update (dl_Receipt x) (f\<lparr>f_deadline := f_deadline f + e\<rparr>) (d_inFlight d)\<rparr>"
  by (simp add: extend_one_def lookup_flight_def)

lemma map_update_same:
  assumes "distinct (keys m)" "map_of m k = Some v" "h (k, v) = h (k, v')"
  shows "mset (map h (AList.update k v' m)) = mset (map h m)"
  using assms
proof (induction m)
  case (Cons p m)
  show ?case
  proof (cases "fst p = k")
    case True
    with Cons.prems have "p = (k, v)" by (cases p) auto
    with Cons.prems True show ?thesis by simp
  next
    case False
    with Cons show ?thesis by (cases p) auto
  qed
qed simp

lemma extend_one_inv:
  assumes inv: "disp_inv d" and v: "valid_delivery d x" and e: "0 < e"
  shows "disp_inv (extend_one e x d)"
proof -
  obtain f where f: "map_of (d_inFlight d) (dl_Receipt x) = Some f" using v by (auto simp: valid_delivery_def)
  let ?f = "f\<lparr>f_deadline := f_deadline f + e\<rparr>" and ?r = "dl_Receipt x"
  let ?m = "AList.update ?r ?f (d_inFlight d)"
  have base: "tracks d" "distinct (keys (d_inFlight d))" using inv by (simp_all add: disp_inv_defs)
  have "mset (map flight_seq ?m) = mset (map flight_seq (d_inFlight d))"
    by (rule map_update_same [OF base(2) f]) (simp add: flight_seq_def)
  then have "lane (d\<lparr>d_inFlight := ?m\<rparr>) l = lane d l" for l by (cases l) simp_all
  then have "tracks (d\<lparr>d_inFlight := ?m\<rparr>)" by (rule tracks_cong [OF base(1)]) simp
  moreover have "length ?m = length (d_inFlight d)"
    using arg_cong [OF map_update_same [OF base(2) f, of "\<lambda>_. ()" ?f], of size] by simp
  moreover have "flights_ok (d\<lparr>d_inFlight := ?m\<rparr>)"
    unfolding flights_ok_def
  proof (intro conjI ballI)
    show "distinct (keys (d_inFlight (d\<lparr>d_inFlight := ?m\<rparr>)))" using base(2) by (simp add: distinct_update)
    fix p assume p: "p \<in> set (d_inFlight (d\<lparr>d_inFlight := ?m\<rparr>))"
    obtain k g where k: "p = (k, g)" by (cases p)
    have "map_of ?m k = Some g" using p k base(2) by (simp add: distinct_update)
    then have "(k = ?r \<and> g = ?f) \<or> map_of (d_inFlight d) k = Some g" by (auto simp: update_conv' split: if_splits)
    moreover have "f_receipt f = ?r \<and> d_expireAt d \<le> f_deadline f"
      using inv map_of_SomeD [OF f] by (auto simp: disp_inv_defs)
    ultimately show "case p of (r, f) \<Rightarrow> f_receipt f = r \<and> d_expireAt (d\<lparr>d_inFlight := ?m\<rparr>) \<le> f_deadline f"
      using k inv e by (auto simp: disp_inv_defs dest!: map_of_SomeD)
  qed
  ultimately show ?thesis
    using inv by (intro disp_inv_shrink [OF inv])
      (auto simp: extend_one_eq [OF f] same_control_def disp_inv_def)
qed

lemma extending: "0 < e \<Longrightarrow> delivery_op (extend_one e)"
  by (unfold_locales, rule extend_one_inv)
    (auto simp: extend_one_def Let_def same_control_def update_conv' valid_delivery_def)

lemma extend_all_flights:
  "distinct (map dl_Receipt ds) \<Longrightarrow> \<forall>x \<in> set ds. valid_delivery d x \<Longrightarrow>
     map_of (d_inFlight (fold (extend_one e) ds d)) r =
       (if r \<in> dl_Receipt ` set ds then map_option (\<lambda>f. f\<lparr>f_deadline := f_deadline f + e\<rparr>) (map_of (d_inFlight d) r)
        else map_of (d_inFlight d) r)"
proof (induction ds arbitrary: d)
  case (Cons x ds)
  obtain f where f: "map_of (d_inFlight d) (dl_Receipt x) = Some f" using Cons.prems(2) by (auto simp: valid_delivery_def)
  have look: "map_of (d_inFlight (extend_one e x d)) k =
      (if k = dl_Receipt x then Some (f\<lparr>f_deadline := f_deadline f + e\<rparr>) else map_of (d_inFlight d) k)" for k
    by (simp add: extend_one_eq [OF f] update_conv')
  have "\<forall>y \<in> set ds. valid_delivery (extend_one e x d) y"
    using Cons.prems(2) look other_receipt [OF Cons.prems(1)] by (simp add: valid_delivery_def)
  with Cons.IH [of "extend_one e x d"] Cons.prems(1) look f show ?case by auto
qed simp

section \<open>The operations\<close>

lemma notifyLocked_fields [disp_simps]:
  "d_inFlight (notifyLocked d) = d_inFlight d" "d_states (notifyLocked d) = d_states d"
  "d_signal (notifyLocked d)" "disp_inv (notifyLocked d) = disp_inv d"
  "same_control (notifyLocked d) d' = same_control d d'" "same_control d' (notifyLocked d) = same_control d' d"
  by (simp_all add: notifyLocked_def same_control_def)

text \<open>What every operation on deliveries guarantees, whether it succeeds or not: the invariant, the
  fields it never touches, and no new tracked sequence.\<close>

definition op_frame :: "dispatcher \<Rightarrow> dispatcher \<Rightarrow> bool" where
  "op_frame d d' \<longleftrightarrow> disp_inv d' \<and> same_control d d' \<and> dom (d_states d') \<subseteq> dom (d_states d)"

lemma expire_frame: "disp_inv d \<Longrightarrow> any_order ord \<Longrightarrow> op_frame d (expireLocked ord now d)"
  using expireLocked_correct [of d ord now] by (simp add: op_frame_def expire_result_def)

lemma op_frame_trans: "op_frame a b \<Longrightarrow> op_frame b c \<Longrightarrow> op_frame a c"
  unfolding op_frame_def using same_control_trans by blast

lemma op_frame_refl: "disp_inv d \<Longrightarrow> op_frame d d"
  by (simp add: op_frame_def)

lemma op_frame_signal: "disp_inv d \<Longrightarrow> op_frame d (d\<lparr>d_signal := b\<rparr>)"
  by (simp add: op_frame_def same_control_def)

lemma release_all_states:
  assumes "disp_inv d" "distinct (map dl_Receipt ds)" "\<forall>x \<in> set ds. valid_delivery d x"
  shows "d_states (fold release ds d) = (d_states d) |` (- dl_seq ` set ds)"
proof
  fix q
  show "d_states (fold release ds d) q = ((d_states d) |` (- dl_seq ` set ds)) q"
    using releasing.all_set [OF release_states assms] releasing.all_states [OF assms]
    by (cases "q \<in> dl_seq ` set ds") (simp_all add: restrict_map_def)
qed

lemma valid_seqs_distinct:
  assumes "disp_inv d" "distinct (map dl_Receipt ds)" "\<forall>x \<in> set ds. valid_delivery d x"
  shows "distinct (map dl_seq ds)"
  using assms(2,3) valid_seq_inj [OF assms(1)] unfolding distinct_map inj_on_def by blast

lemma Dispatch_Commit_cases:
  assumes "Dispatch_Commit ord now ds persist d s = (r, d', s')" "disp_inv d" "any_order ord"
  obtains (skipped) "ds = []" "r = None" "d' = d" "s' = s"
  | (rejected) e where "r = Some e" "s' = s" "op_frame d d'" "dom (d_states d') = dom (d_states d)"
      "d_closed d \<and> e = DispatchError DispatchErrClosed \<or> e = DispatchError DispatchErrStaleDelivery"
  | (failed) e where "r = Some e" "persist (map dl_seq ds) s = (Some e, s')" "op_frame d d'"
      "dom (d_states d') = dom (d_states d)"
  | (completed) d1 where "r = None" "\<not> d_closed d" "d1 = expireLocked ord now d" "persist (map dl_seq ds) s = (None, s')"
      "\<forall>x \<in> set ds. valid_delivery d1 x" "distinct (map dl_seq ds)" "op_frame d d'"
      "d_states d' = (d_states d1) |` (- dl_seq ` set ds)" "dom (d_states d1) = dom (d_states d)" "d_signal d'"
proof (cases "ds = [] \<or> d_closed d")
  case True
  then have "ds = [] \<and> r = None \<and> d' = d \<and> s' = s
      \<or> d_closed d \<and> r = Some (DispatchError DispatchErrClosed) \<and> d' = d \<and> s' = s"
    using assms(1) by (auto simp: Dispatch_Commit_def split: if_splits)
  then show ?thesis using skipped rejected op_frame_refl [OF assms(2)] by blast
next
  case False
  define d1 where "d1 = expireLocked ord now d"
  have inv: "disp_inv d1" and dom1: "dom (d_states d1) = dom (d_states d)" and fr: "op_frame d d1"
    using expireLocked_correct [OF assms(2,3)] expire_frame [OF assms(2,3)]
    by (simp_all add: d1_def expire_result_def)
  show ?thesis
  proof (cases "validateLocked d1 ds")
    case (Inl e)
    then have "r = Some e" "d' = d1" "s' = s" using False assms(1)
      by (auto simp: Dispatch_Commit_def d1_def [symmetric] Let_def)
    then show ?thesis using rejected validateLocked_error [OF Inl] fr dom1 by blast
  next
    case (Inr seqs)
    then have v: "distinct (map dl_Receipt ds)" "\<forall>x \<in> set ds. valid_delivery d1 x" "seqs = map dl_seq ds"
      by (simp_all add: validateLocked_iff)
    show ?thesis
    proof (cases "persist seqs s")
      case (Pair re s1)
      show ?thesis
      proof (cases re)
        case (Some e)
        then have "r = Some e" "d' = d1" "s' = s1" using False assms(1) Inr Pair
          by (auto simp: Dispatch_Commit_def d1_def [symmetric] Let_def)
        then show ?thesis using failed Pair v(3) Some fr dom1 by blast
      next
        case None
        then have r: "r = None" "d' = notifyLocked (fold release ds d1)" "s' = s1" using False assms(1) Inr Pair
          by (auto simp: Dispatch_Commit_def d1_def [symmetric] Let_def)
        have st: "d_states d' = (d_states d1) |` (- dl_seq ` set ds)"
          using release_all_states [OF inv v(1,2)] r(2) by (simp add: disp_simps)
        have "disp_inv d'" "same_control d1 d'"
          using releasing.all_inv [OF inv v(1,2)] releasing.all_control [of d1 ds] r(2) by (simp_all add: disp_simps)
        then have "op_frame d1 d'" using st by (auto simp: op_frame_def)
        then have "op_frame d d'" using fr op_frame_trans by blast
        then show ?thesis
          using completed [OF r(1) _ d1_def _ v(2) valid_seqs_distinct [OF inv v(1,2)] _ st dom1] False r Pair None v(3)
          by (simp add: disp_simps)
      qed
    qed
  qed
qed

lemma Dispatch_DeadLetter_cases:
  assumes "Dispatch_DeadLetter ord now x persist d s = (r, d', s')" "disp_inv d" "any_order ord"
  obtains (rejected) e where "r = Some e" "s' = s" "op_frame d d'" "dom (d_states d') = dom (d_states d)"
      "d_closed d \<and> e = DispatchError DispatchErrClosed \<or> e = DispatchError DispatchErrStaleDelivery"
  | (failed) e where "r = Some e" "persist (dl_seq x) s = (Some e, s')" "op_frame d d'"
      "dom (d_states d') = dom (d_states d)"
  | (completed) d1 where "r = None" "\<not> d_closed d" "d1 = expireLocked ord now d" "persist (dl_seq x) s = (None, s')"
      "valid_delivery d1 x" "op_frame d d'" "d_states d' = (d_states d1)(dl_seq x := None)"
      "dom (d_states d1) = dom (d_states d)" "d_signal d'"
proof (cases "d_closed d")
  case True
  with assms(1) rejected op_frame_refl [OF assms(2)] show ?thesis
    by (auto simp: Dispatch_DeadLetter_def)
next
  case False
  define d1 where "d1 = expireLocked ord now d"
  have inv: "disp_inv d1" and dom1: "dom (d_states d1) = dom (d_states d)" and fr: "op_frame d d1"
    using expireLocked_correct [OF assms(2,3)] expire_frame [OF assms(2,3)]
    by (simp_all add: d1_def expire_result_def)
  show ?thesis
  proof (cases "validateLocked d1 [x]")
    case (Inl e)
    then have "r = Some e" "d' = d1" "s' = s" using False assms(1)
      by (auto simp: Dispatch_DeadLetter_def d1_def [symmetric] Let_def)
    then show ?thesis using rejected validateLocked_error [OF Inl] fr dom1 by blast
  next
    case (Inr seqs)
    then have v: "valid_delivery d1 x" by (simp add: validateLocked_iff)
    obtain re s1 where p: "persist (dl_seq x) s = (re, s1)" by fastforce
    show ?thesis
    proof (cases re)
      case (Some e)
      then have "r = Some e" "d' = d1" "s' = s1" using False assms(1) Inr p
        by (auto simp: Dispatch_DeadLetter_def d1_def [symmetric] Let_def dl_seq_def)
      then show ?thesis using failed p Some fr dom1 by blast
    next
      case None
      then have r: "r = None" "d' = notifyLocked (release x d1)" "s' = s1" using False assms(1) Inr p
        by (auto simp: Dispatch_DeadLetter_def d1_def [symmetric] Let_def dl_seq_def)
      have st: "d_states d' = (d_states d1)(dl_seq x := None)"
        using r(2) by (simp add: disp_simps release_def dl_seq_def)
      have "disp_inv d'" "same_control d1 d'"
        using releasing.step_inv [OF inv v] releasing.step_control [of d1 x] r(2) by (simp_all add: disp_simps)
      then have "op_frame d1 d'" using st by (auto simp: op_frame_def)
      then have "op_frame d d'" using fr op_frame_trans by blast
      then show ?thesis using completed [OF r(1) False d1_def _ v _ st dom1] r p None by (simp add: disp_simps)
    qed
  qed
qed

text \<open>\<open>Retry\<close> and \<open>Extend\<close> change no sequence's being tracked.\<close>

definition lease_op :: "flight_order \<Rightarrow> time \<Rightarrow> (delivery \<Rightarrow> dispatcher \<Rightarrow> dispatcher) \<Rightarrow> delivery list \<Rightarrow> dispatcher
    \<Rightarrow> gerror option \<times> dispatcher" where
  "lease_op ord now f ds d =
     (if ds = [] then (None, d)
      else if d_closed d then (Some (DispatchError DispatchErrClosed), d)
      else let d = expireLocked ord now d
           in case validateLocked d ds of
                Inl err \<Rightarrow> (Some err, d)
              | Inr _ \<Rightarrow> (None, notifyLocked (fold f ds d)))"

lemma Dispatch_Retry_lease: "Dispatch_Retry oor ord now ds d = lease_op ord now (retry_one oor now) ds d"
  by (simp add: Dispatch_Retry_def lease_op_def)

lemma Dispatch_Extend_lease:
  "0 < e \<Longrightarrow> Dispatch_Extend ord now e ds d = lease_op ord now (extend_one e) ds d"
  by (simp add: Dispatch_Extend_def lease_op_def)

lemma lease_op_cases:
  assumes "lease_op ord now f ds d = (r, d')" "disp_inv d" "any_order ord" "delivery_op f"
    and keeps: "\<forall>d x. disp_inv d \<and> valid_delivery d x \<longrightarrow> d_states (f x d) (dl_seq x) = Some l"
  obtains (skipped) "ds = []" "r = None" "d' = d"
  | (rejected) e where "r = Some e" "op_frame d d'" "dom (d_states d') = dom (d_states d)"
      "d_closed d \<and> e = DispatchError DispatchErrClosed \<or> e = DispatchError DispatchErrStaleDelivery"
  | (completed) d1 where "r = None" "\<not> d_closed d" "d1 = expireLocked ord now d"
      "\<forall>x \<in> set ds. valid_delivery d1 x" "distinct (map dl_Receipt ds)" "op_frame d d'"
      "d' = notifyLocked (fold f ds d1)" "dom (d_states d') = dom (d_states d)"
      "\<forall>x \<in> set ds. d_states d' (dl_seq x) = Some l" "d_signal d'"
proof (cases "ds = [] \<or> d_closed d")
  case True
  then have "ds = [] \<and> r = None \<and> d' = d \<or> d_closed d \<and> r = Some (DispatchError DispatchErrClosed) \<and> d' = d"
    using assms(1) by (auto simp: lease_op_def split: if_splits)
  then show ?thesis using skipped rejected op_frame_refl [OF assms(2)] by blast
next
  case False
  define d1 where "d1 = expireLocked ord now d"
  have inv: "disp_inv d1" and dom1: "dom (d_states d1) = dom (d_states d)" and fr: "op_frame d d1"
    using expireLocked_correct [OF assms(2,3)] expire_frame [OF assms(2,3)]
    by (simp_all add: d1_def expire_result_def)
  show ?thesis
  proof (cases "validateLocked d1 ds")
    case (Inl e)
    then have "r = Some e" "d' = d1" using False assms(1)
      by (auto simp: lease_op_def d1_def [symmetric] Let_def)
    then show ?thesis using rejected validateLocked_error [OF Inl] fr dom1 by blast
  next
    case (Inr seqs)
    then have v: "distinct (map dl_Receipt ds)" "\<forall>x \<in> set ds. valid_delivery d1 x"
      by (simp_all add: validateLocked_iff)
    have r: "r = None" "d' = notifyLocked (fold f ds d1)" using False assms(1) Inr
      by (auto simp: lease_op_def d1_def [symmetric] Let_def)
    have on: "d_states d' q = Some l" if "q \<in> dl_seq ` set ds" for q
      using delivery_op.all_set [OF assms(4) _ inv v that, of "Some l"] keeps r(2) by (simp add: disp_simps)
    have off: "d_states d' q = d_states d1 q" if "q \<notin> dl_seq ` set ds" for q
      using delivery_op.all_states [OF assms(4) inv v that] r(2) by (simp add: disp_simps)
    have "dl_seq ` set ds \<subseteq> dom (d_states d1)" using v(2) valid_delivery_state [OF inv] by blast
    then have "d_states d' q = None \<longleftrightarrow> d_states d1 q = None" for q
      using on [of q] off [of q] by (cases "q \<in> dl_seq ` set ds") auto
    then have dom: "dom (d_states d') = dom (d_states d1)" by (simp add: dom_def)
    have "disp_inv d'" "same_control d1 d'"
      using delivery_op.all_inv [OF assms(4) inv v] delivery_op.all_control [OF assms(4), of d1 ds] r(2)
      by (simp_all add: disp_simps)
    then have "op_frame d1 d'" using dom by (simp add: op_frame_def)
    then have "op_frame d d'" using fr op_frame_trans by blast
    then show ?thesis
      using completed [OF r(1) _ d1_def v(2,1) _ r(2)] False dom dom1 on r(2) by (simp add: disp_simps)
  qed
qed

lemma retry_keeps: "\<forall>d x. disp_inv d \<and> valid_delivery d x \<longrightarrow> d_states (retry_one oor now x d) (dl_seq x) = Some stateRetry"
  using retry_one_states by blast

lemma extend_one_states: "disp_inv d \<Longrightarrow> valid_delivery d x \<Longrightarrow> d_states (extend_one e x d) (dl_seq x) = Some stateInFlight"
  using valid_delivery_state [of d x] by (simp add: extend_one_def Let_def)

lemma extend_keeps: "\<forall>d x. disp_inv d \<and> valid_delivery d x \<longrightarrow> d_states (extend_one e x d) (dl_seq x) = Some stateInFlight"
  using extend_one_states by blast

lemma Snapshot_frame:
  assumes "disp_inv d" "any_order ord" "Snapshot ord now d = (st, d')"
  shows "op_frame d d' \<and> dom (d_states d') = dom (d_states d)
    \<and> st_Ready st = word_of_nat (size (lane d' stateFresh)) \<and> st_Retry st = word_of_nat (size (lane d' stateRetry))
    \<and> st_InFlight st = word_of_nat (size (lane d' stateInFlight))"
proof -
  have d': "d' = expireLocked ord now d" using assms(3) by (simp add: Snapshot_def Let_def)
  then have "op_frame d d'" "dom (d_states d') = dom (d_states d)"
    using expire_frame [OF assms(1,2), of now] expireLocked_correct [OF assms(1,2), of now]
    by (simp_all add: expire_result_def)
  then show ?thesis using assms(3) by (auto simp: Snapshot_def Let_def d' [symmetric])
qed

lemma Dispatch_Close_inv: "disp_inv (Dispatch_Close d) = disp_inv d"
proof -
  have "lane (Dispatch_Close d) l = lane d l" for l
    by (cases l) (simp_all add: Dispatch_Close_def notifyLocked_def)
  then show ?thesis
    by (simp add: disp_inv_defs tracks_def Dispatch_Close_def notifyLocked_def)
qed

lemma Notify_inv: "disp_inv (Notify d) = disp_inv d"
proof -
  have "lane (Notify d) l = lane d l" for l by (cases l) (simp_all add: Notify_def notifyLocked_def)
  then show ?thesis by (simp add: disp_inv_defs tracks_def Notify_def notifyLocked_def)
qed

end
