(* ===== verification/Dispatcher_Take.thy ===== *)
theory Dispatcher_Take
  imports Dispatcher_Ops
begin

text \<open>
  Leasing records and filling the fresh lane. \<open>takeLocked\<close> either leases records from the fresh
  and retry lanes, each under a new receipt, within the in-flight limit, or fails and puts
  back everything it had taken. \<open>fill_end\<close> tracks the scanned records and moves the cursor past
  them.
\<close>

section \<open>One iteration of the take loop\<close>

text \<open>The fields that taking leaves alone.\<close>

definition same_scan :: "dispatcher \<Rightarrow> dispatcher \<Rightarrow> bool" where
  "same_scan d d' \<longleftrightarrow> d_config d' = d_config d \<and> d_closed d' = d_closed d \<and> d_cursor d' = d_cursor d
     \<and> d_scanDone d' = d_scanDone d \<and> d_scanEmpty d' = d_scanEmpty d \<and> d_signal d' = d_signal d"

lemma same_scan_refl [simp]: "same_scan d d"
  by (simp add: same_scan_def)

lemma same_scan_trans: "same_scan a b \<Longrightarrow> same_scan b c \<Longrightarrow> same_scan a c"
  by (simp add: same_scan_def)

lemma select_item_cases:
  assumes "select_item now d = (item, prev, d')" "retryReady now d \<or> freshReady d"
  obtains (from_retry) h p where "prev = stateRetry" "retryReady now d" "heap_Pop (d_retries d) = (item, h)"
      "d' = d\<lparr>d_retries := h, d_preferRetry := p\<rparr>"
  | (from_fresh) xs p where "prev = stateFresh" "freshReady d" "d_fresh d = item # xs"
      "d' = d\<lparr>d_fresh := xs, d_preferRetry := p\<rparr>"
proof -
  obtain it h where pop: "heap_Pop (d_retries d) = (it, h)" by fastforce
  have eta: "d\<lparr>d_retries := h\<rparr> = d\<lparr>d_retries := h, d_preferRetry := d_preferRetry d\<rparr>"
    "d\<lparr>d_fresh := xs\<rparr> = d\<lparr>d_fresh := xs, d_preferRetry := d_preferRetry d\<rparr>" for xs by simp_all
  have fresh: thesis if "freshReady d" "prev = stateFresh" "item = hd (d_fresh d)"
    "d' = d\<lparr>d_fresh := tl (d_fresh d), d_preferRetry := p\<rparr>" for p
    using that from_fresh [of "tl (d_fresh d)" p] by (simp add: freshReady_def)
  have retry: thesis if "retryReady now d" "prev = stateRetry" "item = it" "d' = d\<lparr>d_retries := h, d_preferRetry := p\<rparr>" for p
    using that from_retry [of h p] pop by simp
  show ?thesis
  proof (cases "retryReady now d \<and> freshReady d")
    case True
    with assms(1) pop show ?thesis
      by (cases "d_preferRetry d")
        (auto simp: select_item_def popRetryLocked_def popFreshLocked_def intro: fresh [of True] retry [of False])
  next
    case False
    show ?thesis
    proof (cases "retryReady now d")
      case True
      with False assms(1) pop have "prev = stateRetry" "item = it" "d' = d\<lparr>d_retries := h\<rparr>"
        by (auto simp: select_item_def popRetryLocked_def)
      with True show ?thesis using retry eta(1) by blast
    next
      case nr: False
      with assms have "freshReady d" "prev = stateFresh" "item = hd (d_fresh d)" "d' = d\<lparr>d_fresh := tl (d_fresh d)\<rparr>"
        by (auto simp: select_item_def popFreshLocked_def)
      then show ?thesis using fresh eta(2) by blast
    qed
  qed
qed

lemma lease_item_eq:
  assumes "receipt \<notin> set (keys (d_inFlight d))"
  shows "lease_item now receipt item d =
    (\<lparr>dl_Record = qr_record item, dl_Receipt = receipt, dl_Attempt = qr_attempt item,
      dl_Deadline = now + VisibilityTimeout (d_config d)\<rparr>,
     d\<lparr>d_expireAt := min (now + VisibilityTimeout (d_config d)) (d_expireAt d),
       d_inFlight := d_inFlight d @ [(receipt, \<lparr>f_record = qr_record item, f_receipt = receipt,
          f_attempt = qr_attempt item, f_deadline = now + VisibilityTimeout (d_config d)\<rparr>)],
       d_states := (d_states d)(r_Seq (qr_record item) \<mapsto> stateInFlight),
       d_stats := (d_stats d)\<lparr>st_Deliveries := st_Deliveries (d_stats d) + 1\<rparr>\<rparr>)"
  using assms by (simp add: lease_item_def Let_def update_fresh min_def)

definition flight_of :: "delivery \<Rightarrow> receipt \<times> flight" where
  "flight_of x = (dl_Receipt x, \<lparr>f_record = dl_Record x, f_receipt = dl_Receipt x,
     f_attempt = dl_Attempt x, f_deadline = dl_Deadline x\<rparr>)"

lemma wrap_int_le: "0 \<le> x \<Longrightarrow> wrap_int x \<le> x"
  using zmod_le_nonneg_dividend [of "x + 2 ^ 63" "2 ^ 64"] by (simp add: wrap_int_def)

text \<open>One iteration: what the selected and leased record does to the dispatcher, and that putting
  it back undoes it.\<close>

definition undone :: "dispatcher \<Rightarrow> dispatcher \<Rightarrow> bool" where
  "undone d d0 \<longleftrightarrow> same_scan d0 d \<and> d_fresh d = d_fresh d0 \<and> d_inFlight d = d_inFlight d0
     \<and> d_states d = d_states d0 \<and> rh_inv (d_retries d) \<and> rh_items (d_retries d) = rh_items (d_retries d0)
     \<and> d_expireAt d \<le> d_expireAt d0"

text \<open>What waits for delivery, and that only due retries leave the heap.\<close>

definition contents :: "queuedRecord \<Rightarrow> store_record \<times> u32" where
  "contents q = (qr_record q, qr_attempt q)"

definition waiting :: "dispatcher \<Rightarrow> (store_record \<times> u32) multiset" where
  "waiting d = image_mset contents (mset (d_fresh d) + rh_items (d_retries d))"

definition pops_due :: "time \<Rightarrow> dispatcher \<Rightarrow> dispatcher \<Rightarrow> bool" where
  "pops_due now d d' \<longleftrightarrow>
     (\<exists>due. rh_items (d_retries d) = due + rh_items (d_retries d') \<and> (\<forall>y \<in># due. qr_readyAt y \<le> now))"

lemma pops_due_refl: "rh_items (d_retries d') = rh_items (d_retries d) \<Longrightarrow> pops_due now d d'"
  unfolding pops_due_def by (intro exI [of _ "{#}"]) simp

lemma pops_due_trans:
  assumes "pops_due now a b" "pops_due now b c"
  shows "pops_due now a c"
proof -
  obtain x y where "rh_items (d_retries a) = x + rh_items (d_retries b)" "\<forall>q \<in># x. qr_readyAt q \<le> now"
    "rh_items (d_retries b) = y + rh_items (d_retries c)" "\<forall>q \<in># y. qr_readyAt q \<le> now"
    using assms unfolding pops_due_def by blast
  then show ?thesis unfolding pops_due_def by (intro exI [of _ "x + y"]) (auto simp: add.assoc)
qed

lemma contents_unindex [simp]: "contents (unindex q) = contents q"
  by (simp add: contents_def)

lemma take_step:
  assumes inv: "disp_inv d" and ready: "retryReady now d \<or> freshReady d"
    and sel: "select_item now d = (item, prev, d1)" and rc: "receipt \<notin> set (keys (d_inFlight d))"
    and slot: "int (length (d_inFlight d)) < MaxInFlight (d_config d)"
    and lease: "lease_item now receipt item d1 = (x, d2)"
  shows "disp_inv d2" "d_inFlight d2 = d_inFlight d @ [flight_of x]" "same_scan d d2"
    "dom (d_states d2) = dom (d_states d)" "d_states d (dl_seq x) = Some prev" "prev \<noteq> stateInFlight"
    "dl_Receipt x = receipt" "dl_Deadline x = now + VisibilityTimeout (d_config d)"
    "dl_seq x = seq_of item"
    "\<exists>pre. d_fresh d = pre @ d_fresh d2" "pops_due now d d2"
    "d_stats d2 = (d_stats d)\<lparr>st_Deliveries := st_Deliveries (d_stats d) + 1\<rparr>"
    "undone (rollback_one \<lparr>sel_item = item, sel_previousState = prev, sel_receipt = receipt\<rparr> d2) d"
    "waiting d = add_mset (dl_Record x, dl_Attempt x) (waiting d2)"
proof -
  let ?dl = "now + VisibilityTimeout (d_config d)"
  let ?f = "\<lparr>f_record = qr_record item, f_receipt = receipt, f_attempt = qr_attempt item, f_deadline = ?dl\<rparr>"
  have tr: "tracks d" and rh: "rh_inv (d_retries d)" and fl: "flights_ok d" and bd: "bounds_ok d" and cu: "cursor_ok d"
    and cf: "config_ok (d_config d)" using inv by (simp_all add: disp_inv_def)
  from sel ready have pick: "lane d prev = add_mset (seq_of item) (lane d1 prev) \<and> prev \<noteq> stateInFlight
      \<and> (\<forall>l. l \<noteq> prev \<longrightarrow> lane d1 l = lane d l) \<and> d_states d1 = d_states d \<and> rh_inv (d_retries d1)
      \<and> d_inFlight d1 = d_inFlight d \<and> same_scan d d1 \<and> d_stats d1 = d_stats d \<and> d_expireAt d1 = d_expireAt d
      \<and> (\<exists>pre. d_fresh d = pre @ d_fresh d1) \<and> pops_due now d d1 \<and> waiting d = add_mset (contents item) (waiting d1)
      \<and> int (length (d_retries d1)) + int (length (d_inFlight d)) < PrefetchCapacity (d_config d) + MaxInFlight (d_config d)
      \<and> length (d_fresh d1) \<le> length (d_fresh d)
      \<and> (if prev = stateRetry then d_fresh d1 = d_fresh d \<and> rh_items (d_retries d) = add_mset (unindex item) (rh_items (d_retries d1))
         else d_fresh d = item # d_fresh d1 \<and> rh_items (d_retries d1) = rh_items (d_retries d))"
  proof (cases rule: select_item_cases)
    case (from_retry h p)
    then have ne: "d_retries d \<noteq> []" by (simp add: retryReady_def)
    note pop = heap_Pop_correct [OF rh ne from_retry(3)]
    then have "unindex item = item" by auto
    moreover have "qr_readyAt item \<le> now" using pop ne from_retry(2) by (simp add: retryReady_def hd_conv_nth)
    then have "pops_due now d d1" using pop from_retry(4) unfolding pops_due_def by (intro exI [of _ "{#item#}"]) simp
    moreover have "lane d1 l = lane d l" if "l \<noteq> stateRetry" for l using that from_retry(4) by (cases l) simp_all
    ultimately show ?thesis using pop from_retry bd
      by (auto simp: same_scan_def bounds_ok_def waiting_def)
  next
    case (from_fresh xs p)
    have "int (length (d_retries d)) + int (length (d_inFlight d)) < trackedLimit d"
      using from_fresh(2) by (simp add: freshReady_def)
    also have "\<dots> \<le> PrefetchCapacity (d_config d) + MaxInFlight (d_config d)"
      unfolding trackedLimit_def using cf by (intro wrap_int_le) (simp add: config_ok_def)
    finally have "int (length (d_retries d)) + int (length (d_inFlight d)) < PrefetchCapacity (d_config d) + MaxInFlight (d_config d)" .
    moreover have "lane d1 l = lane d l" if "l \<noteq> stateFresh" for l using that from_fresh(4) by (cases l) simp_all
    moreover have "pops_due now d d1" using from_fresh(4) by (simp add: pops_due_refl)
    ultimately show ?thesis using from_fresh rh by (auto simp: same_scan_def waiting_def)
  qed
  have rc1: "receipt \<notin> set (keys (d_inFlight d1))" using rc pick by simp
  have cfg: "d_config d1 = d_config d" using pick by (simp add: same_scan_def)
  have x: "x = \<lparr>dl_Record = qr_record item, dl_Receipt = receipt, dl_Attempt = qr_attempt item, dl_Deadline = ?dl\<rparr>"
    and d2: "d2 = d1\<lparr>d_expireAt := min ?dl (d_expireAt d), d_inFlight := d_inFlight d @ [(receipt, ?f)],
       d_states := (d_states d)(seq_of item \<mapsto> stateInFlight),
       d_stats := (d_stats d)\<lparr>st_Deliveries := st_Deliveries (d_stats d) + 1\<rparr>\<rparr>"
    using lease pick cfg by (simp_all add: lease_item_eq [OF rc1] seq_of_def)
  show seq: "dl_seq x = seq_of item" "dl_Receipt x = receipt" "dl_Deadline x = ?dl"
    by (simp_all add: x dl_seq_def seq_of_def)
  show prevst: "d_states d (dl_seq x) = Some prev" "prev \<noteq> stateInFlight"
    using tracks_mem [OF tr, of "seq_of item" prev] pick seq by auto
  show fl2: "d_inFlight d2 = d_inFlight d @ [flight_of x]" by (simp add: d2 flight_of_def x)
  show sc: "same_scan d d2" using pick by (simp add: d2 same_scan_def)
  show dom: "dom (d_states d2) = dom (d_states d)" using prevst seq by (auto simp: d2)
  show "\<exists>pre. d_fresh d = pre @ d_fresh d2" "pops_due now d d2"
    "d_stats d2 = (d_stats d)\<lparr>st_Deliveries := st_Deliveries (d_stats d) + 1\<rparr>"
    using pick by (auto simp: d2 pops_due_def)
  show "waiting d = add_mset (dl_Record x, dl_Attempt x) (waiting d2)"
    using pick by (simp add: d2 x waiting_def contents_def)
  have "tracks d2"
  proof (rule tracks_move [OF tr, of prev "seq_of item" "lane d1 prev"])
    show "lane d2 prev = lane d1 prev" using prevst(2) by (cases prev) (simp_all add: d2)
    show "lane d2 stateInFlight = add_mset (seq_of item) (lane d stateInFlight)"
      by (simp add: d2 flight_seq_def seq_of_def)
    show "lane d2 l = lane d l" if "l \<noteq> prev" "l \<noteq> stateInFlight" for l
      using that pick by (cases l) (auto simp: d2)
  qed (use pick prevst in \<open>simp_all add: d2\<close>)
  moreover have "flights_ok d2" using fl rc by (auto simp: flights_ok_def d2 min_def)
  moreover have "bounds_ok d2" using bd pick slot sc by (simp add: bounds_ok_def d2 same_scan_def)
  moreover have "cursor_ok d2"
    using cu pick sc dom by (auto simp: cursor_ok_def d2 same_scan_def sorted_wrt_append)
  ultimately show "disp_inv d2" using pick cf by (simp add: disp_inv_def d2 same_scan_def)
  have "AList.delete receipt (d_inFlight d @ [(receipt, ?f)]) = d_inFlight d"
    using delete_absent [OF rc] by (simp add: AList.delete_eq)
  moreover have "(d_states d)(seq_of item \<mapsto> prev) = d_states d" using prevst seq by (simp add: fun_upd_idem)
  ultimately show "undone (rollback_one \<lparr>sel_item = item, sel_previousState = prev, sel_receipt = receipt\<rparr> d2) d"
    using pick heap_Push_correct [of "d_retries d1" item] prevst(2)
    by (auto simp: undone_def rollback_one_def Let_def d2 seq_of_def same_scan_def split: if_splits)
qed

section \<open>The take loop\<close>

lemma undone_refl: "rh_inv (d_retries d) \<Longrightarrow> undone d d"
  by (simp add: undone_def)

lemma undone_trans: "undone a b \<Longrightarrow> undone b c \<Longrightarrow> undone a c"
  unfolding undone_def by (auto intro: same_scan_trans order_trans)

lemma rollback_cong: "undone d e \<Longrightarrow> rh_inv (d_retries e) \<Longrightarrow> undone (rollback_one c d) (rollback_one c e)"
  using heap_Push_correct [of "d_retries d" "sel_item c"] heap_Push_correct [of "d_retries e" "sel_item c"]
  by (simp add: undone_def rollback_one_def Let_def same_scan_def)

lemma rollback_rh_inv: "rh_inv (d_retries d) \<Longrightarrow> rh_inv (d_retries (rollback_one c d))"
  using heap_Push_correct [of "d_retries d" "sel_item c"] by (simp add: rollback_one_def Let_def)

lemma rollback_all_cong:
  "undone d e \<Longrightarrow> rh_inv (d_retries e) \<Longrightarrow> undone (fold rollback_one cs d) (fold rollback_one cs e)"
  by (induction cs arbitrary: d e) (auto intro: rollback_cong rollback_rh_inv)

lemma rollback_stats: "d_stats (fold rollback_one cs d) = d_stats d"
  by (induction cs arbitrary: d) (auto simp: rollback_one_def Let_def)

lemma rollback_all_rh_inv: "rh_inv (d_retries d) \<Longrightarrow> rh_inv (d_retries (fold rollback_one cs d))"
  by (induction cs arbitrary: d) (auto intro: rollback_rh_inv)

lemma unique_loop_fresh:
  "unique_loop newReceipt n d g = (Inr receipt, g') \<Longrightarrow> receipt \<notin> set (keys (d_inFlight d))"
  by (induction n arbitrary: g) (auto split: sum.splits prod.splits if_splits)

text \<open>What a failed take leaves behind, and what a successful one did.\<close>

definition take_failed :: "dispatcher \<Rightarrow> dispatcher \<Rightarrow> bool" where
  "take_failed d0 d' \<longleftrightarrow> undone d' d0 \<and> d_preferRetry d' = d_preferRetry d0 \<and> d_stats d' = d_stats d0"

definition take_done :: "time \<Rightarrow> dispatcher \<Rightarrow> delivery list \<Rightarrow> dispatcher \<Rightarrow> bool" where
  "take_done now d ds d' \<longleftrightarrow>
     disp_inv d' \<and> same_scan d d' \<and> d_inFlight d' = d_inFlight d @ map flight_of ds
     \<and> dom (d_states d') = dom (d_states d)
     \<and> (\<forall>x \<in> set ds. d_states d (dl_seq x) \<in> {Some stateFresh, Some stateRetry}
          \<and> dl_Deadline x = now + VisibilityTimeout (d_config d))
     \<and> distinct (map dl_seq ds)
     \<and> (\<exists>pre. d_fresh d = pre @ d_fresh d') \<and> pops_due now d d'
     \<and> waiting d = mset (map (\<lambda>x. (dl_Record x, dl_Attempt x)) ds) + waiting d'
     \<and> st_Deliveries (d_stats d') = st_Deliveries (d_stats d) + word_of_nat (length ds)"

lemma take_done_Nil: "disp_inv d \<Longrightarrow> take_done now d [] d"
  by (simp add: take_done_def pops_due_refl)

lemma take_done_Cons:
  assumes s: "disp_inv d2" "d_inFlight d2 = d_inFlight d @ [flight_of x]" "same_scan d d2"
    "dom (d_states d2) = dom (d_states d)" "d_states d (dl_seq x) \<in> {Some stateFresh, Some stateRetry}"
    "dl_Deadline x = now + VisibilityTimeout (d_config d)"
    "\<exists>pre. d_fresh d = pre @ d_fresh d2" "pops_due now d d2"
    "d_stats d2 = (d_stats d)\<lparr>st_Deliveries := st_Deliveries (d_stats d) + 1\<rparr>"
    "waiting d = add_mset (dl_Record x, dl_Attempt x) (waiting d2)"
    and t: "take_done now d2 ds d'" and inv: "disp_inv d"
  shows "take_done now d (x # ds) d'"
proof -
  have tr: "tracks d" "tracks d2" using inv s(1) by (simp_all add: disp_inv_def)
  have fl: "flight_seq (flight_of y) = dl_seq y" for y by (simp add: flight_seq_def flight_of_def dl_seq_def)
  have x2: "d_states d2 (dl_seq x) = Some stateInFlight"
    using tracks_mem [OF tr(2), of "dl_seq x" stateInFlight] s(2) fl by simp
  have y: "d_states d (dl_seq y) \<in> {Some stateFresh, Some stateRetry}" if "y \<in> set ds" for y
  proof -
    have y2: "d_states d2 (dl_seq y) \<in> {Some stateFresh, Some stateRetry}" using t that by (simp add: take_done_def)
    show ?thesis
    proof (cases "d_states d2 (dl_seq y) = Some stateFresh")
      case True
      then have "dl_seq y \<in># lane d2 stateFresh" using tracks_mem [OF tr(2)] by blast
      then have "dl_seq y \<in># lane d stateFresh" using s(7) by auto
      then show ?thesis using tracks_mem [OF tr(1)] by blast
    next
      case False
      with y2 have "dl_seq y \<in># lane d2 stateRetry" using tracks_mem [OF tr(2)] by blast
      then have "dl_seq y \<in># lane d stateRetry" using s(8) by (auto simp: pops_due_def)
      then show ?thesis using tracks_mem [OF tr(1)] by blast
    qed
  qed
  have "dl_seq x \<notin> dl_seq ` set ds" using t x2 by (force simp: take_done_def)
  moreover have "\<exists>pre. d_fresh d = pre @ d_fresh d'" using s(7) t unfolding take_done_def by (metis append.assoc)
  moreover have "pops_due now d d'" using s(8) t pops_due_trans unfolding take_done_def by blast
  moreover have "same_scan d d'" using s(3) t same_scan_trans by (simp add: take_done_def)
  moreover have "d_config d2 = d_config d" using s(3) by (simp add: same_scan_def)
  ultimately show ?thesis using s t y unfolding take_done_def by (simp add: add.assoc add.commute)
qed

lemma take_loop_correct:
  assumes "take_loop newReceipt now pref n rs d g = (r, d', g')" "disp_inv d" "disp_inv d0"
    and "int n \<le> MaxInFlight (d_config d) - int (length (d_inFlight d))"
    and "undone (fold rollback_one rs d) d0" "pref = d_preferRetry d0"
    and "d_stats d = (d_stats d0)\<lparr>st_Deliveries := st_Deliveries (d_stats d0) + word_of_nat (length rs)\<rparr>"
  shows "case r of Inl e \<Rightarrow> take_failed d0 d' | Inr ds \<Rightarrow> take_done now d ds d' \<and> length ds \<le> n"
  using assms
proof (induction n arbitrary: rs d g r d' g')
  case 0
  then show ?case by (auto simp: take_done_Nil)
next
  case (Suc n)
  show ?case
  proof (cases "retryReady now d \<or> freshReady d")
    case False
    with Suc.prems show ?thesis by (auto simp: take_done_Nil)
  next
    case ready: True
    obtain rr g1 where u: "uniqueReceiptLocked newReceipt d g = (rr, g1)" by fastforce
    show ?thesis
    proof (cases rr)
      case (Inl e)
      with Suc.prems(1) ready u have "r = Inl (Errorf [e])" "d' = rollbackSelectionLocked rs pref d" by auto
      with Suc.prems(5-7) show ?thesis
        by (simp add: take_failed_def rollbackSelectionLocked_def Let_def rollback_stats undone_def same_scan_def)
    next
      case (Inr receipt)
      have rc: "receipt \<notin> set (keys (d_inFlight d))"
        using u Inr unique_loop_fresh by (simp add: uniqueReceiptLocked_def)
      obtain item prev d1 where sel: "select_item now d = (item, prev, d1)" by (cases "select_item now d")
      obtain x d2 where lease: "lease_item now receipt item d1 = (x, d2)" by fastforce
      have slot: "int (length (d_inFlight d)) < MaxInFlight (d_config d)" using Suc.prems(4) by simp
      note st = take_step [OF Suc.prems(2) ready sel rc slot lease]
      let ?c = "\<lparr>sel_item = item, sel_previousState = prev, sel_receipt = receipt\<rparr>"
      obtain r2 d3 g2 where rec: "take_loop newReceipt now pref n (?c # rs) d2 g1 = (r2, d3, g2)"
        by (cases "take_loop newReceipt now pref n (?c # rs) d2 g1")
      have rh: "rh_inv (d_retries d)" using Suc.prems(2) by (simp add: disp_inv_def)
      have "undone (fold rollback_one (?c # rs) d2) d0"
        using undone_trans [OF rollback_all_cong [OF st(13) rh] Suc.prems(5)] by simp
      moreover have "int n \<le> MaxInFlight (d_config d2) - int (length (d_inFlight d2))"
        using Suc.prems(4) st(2,3) by (simp add: same_scan_def)
      moreover have "d_stats d2 = (d_stats d0)\<lparr>st_Deliveries := st_Deliveries (d_stats d0) + word_of_nat (length (?c # rs))\<rparr>"
        using st(12) Suc.prems(7) by simp
      ultimately have IH: "case r2 of Inl e \<Rightarrow> take_failed d0 d3 | Inr ds \<Rightarrow> take_done now d2 ds d3 \<and> length ds \<le> n"
        using Suc.IH [OF rec st(1) Suc.prems(3) _ _ Suc.prems(6)] by blast
      have d': "d' = d3" and r: "r = (case r2 of Inl e \<Rightarrow> Inl e | Inr ds \<Rightarrow> Inr (x # ds))"
        using Suc.prems(1) ready u Inr sel lease rec by (auto split: sum.splits)
      have "d_states d (dl_seq x) \<in> {Some stateFresh, Some stateRetry}" using st(5,6) by (cases prev) auto
      then show ?thesis
        using IH r d' take_done_Cons [OF st(1-4) _ st(8,10-12,14) _ Suc.prems(2)] by (auto split: sum.splits)
    qed
  qed
qed

lemma takeCount_nonneg: "disp_inv d \<Longrightarrow> 0 < wanted \<Longrightarrow> 0 \<le> takeCount wanted d"
  by (simp add: takeCount_def Let_def disp_inv_def bounds_ok_def)

lemma takeLocked_correct:
  assumes "takeLocked newReceipt wanted now d g = (r, d', g')" "disp_inv d" "0 < wanted"
  shows "case r of Inl e \<Rightarrow> take_failed d d' | Inr ds \<Rightarrow> take_done now d ds d' \<and> int (length ds) \<le> wanted"
proof -
  let ?n = "nat (takeCount wanted d)"
  have n: "int ?n \<le> MaxInFlight (d_config d) - int (length (d_inFlight d))" "int ?n \<le> wanted"
    using takeCount_nonneg [OF assms(2,3)] by (auto simp: takeCount_def Let_def)
  have rh: "rh_inv (d_retries d)" using assms(2) by (simp add: disp_inv_def)
  have "case r of Inl e \<Rightarrow> take_failed d d' | Inr ds \<Rightarrow> take_done now d ds d' \<and> length ds \<le> ?n"
    using take_loop_correct [OF assms(1) [unfolded takeLocked_def] assms(2,2) n(1)] undone_refl [OF rh] by simp
  moreover have "length ds \<le> ?n \<Longrightarrow> int (length ds) \<le> wanted" for ds :: "delivery list"
    using n(2) by linarith
  ultimately show ?thesis by (auto split: sum.splits)
qed

lemma take_failed_inv: "disp_inv d \<Longrightarrow> take_failed d d' \<Longrightarrow> disp_inv d'"
proof -
  assume inv: "disp_inv d" and f: "take_failed d d'"
  then have u: "same_scan d d'" "d_fresh d' = d_fresh d" "d_inFlight d' = d_inFlight d" "d_states d' = d_states d"
    "rh_inv (d_retries d')" "rh_items (d_retries d') = rh_items (d_retries d)" "d_expireAt d' \<le> d_expireAt d"
    by (simp_all add: take_failed_def undone_def)
  then have "length (d_retries d') = length (d_retries d)" by (metis size_rh_items)
  moreover have "lane d' l = lane d l" for l using u by (cases l) simp_all
  then have "tracks d'" using inv u by (auto simp: disp_inv_def intro: tracks_cong)
  ultimately show ?thesis
    using inv u by (fastforce simp: disp_inv_defs same_scan_def)
qed

text \<open>Progress: with a free slot and a record due, a take whose receipts can be generated returns
  something.\<close>

lemma takeLocked_progress:
  assumes "takeLocked newReceipt wanted now d g = (Inr ds, d', g')" "0 < wanted"
    and "int (length (d_inFlight d)) < MaxInFlight (d_config d)" "retryReady now d \<or> freshReady d"
  shows "ds \<noteq> []"
proof -
  have "0 < takeCount wanted d" using assms(2,3) by (simp add: takeCount_def Let_def)
  then obtain n where "nat (takeCount wanted d) = Suc n" by (metis gr0_implies_Suc zero_less_nat_eq)
  with assms(1,4) show ?thesis
    by (auto simp: takeLocked_def split: prod.splits sum.splits)
qed

lemma takeLocked_Nil:
  assumes "takeLocked newReceipt wanted now d g = (Inr [], d', g')"
  shows "d' = d \<and> g' = g"
  using assms by (cases "nat (takeCount wanted d)") (auto simp: takeLocked_def split: if_splits prod.splits sum.splits)

section \<open>Filling\<close>

text \<open>The sequences the cursor has passed.\<close>

definition covered :: "dispatcher \<Rightarrow> u64 \<Rightarrow> bool" where
  "covered d q \<longleftrightarrow> q < d_cursor d \<or> d_scanDone d"

definition fresh_item :: "store_record \<Rightarrow> queuedRecord" where
  "fresh_item rec = \<lparr>qr_record = rec, qr_attempt = 1, qr_readyAt = zeroTime, qr_index = 0\<rparr>"

definition fill_post :: "store_record list \<Rightarrow> dispatcher \<Rightarrow> dispatcher \<Rightarrow> bool" where
  "fill_post recs d d' \<longleftrightarrow>
     disp_inv d' \<and> d_fresh d' = d_fresh d @ map fresh_item recs
     \<and> dom (d_states d') = dom (d_states d) \<union> r_Seq ` set recs
     \<and> (\<forall>q. covered d' q \<longleftrightarrow> covered d q \<or> (\<exists>r \<in> set recs. q \<le> r_Seq r))
     \<and> (d_scanDone d' \<longleftrightarrow> d_scanDone d \<or> MaxUint64 \<in> r_Seq ` set recs)
     \<and> d_config d' = d_config d \<and> d_closed d' = d_closed d \<and> d_scanEmpty d' = d_scanEmpty d
     \<and> d_signal d' = d_signal d \<and> d_retries d' = d_retries d \<and> d_inFlight d' = d_inFlight d
     \<and> d_stats d' = d_stats d"

definition fill_step :: "store_record \<Rightarrow> dispatcher \<Rightarrow> dispatcher" where
  "fill_step rec d =
     (let d = (if r_Seq rec = MaxUint64 then d\<lparr>d_scanDone := True\<rparr> else d\<lparr>d_cursor := r_Seq rec + 1\<rparr>)
      in d\<lparr>d_states := (d_states d)(r_Seq rec \<mapsto> stateFresh), d_fresh := d_fresh d @ [fresh_item rec]\<rparr>)"

lemma le_less_inc: "s \<noteq> MaxUint64 \<Longrightarrow> (q :: u64) < s + 1 \<longleftrightarrow> q \<le> s"
  using unat_inc [of s] by (auto simp: word_less_nat_alt word_le_nat_alt)

lemma fill_step_post:
  assumes inv: "disp_inv d" and s: "d_cursor d \<le> r_Seq rec" "\<not> d_scanDone d"
    and room: "int (length (d_fresh d)) < PrefetchCapacity (d_config d)"
  shows "fill_post [rec] d (fill_step rec d)" "d_states d (r_Seq rec) = None"
proof -
  let ?s = "r_Seq rec" and ?d = "fill_step rec d"
  have lt: "q < d_cursor d" if "d_states d q \<noteq> None" for q
    using inv that s(2) by (auto simp: disp_inv_defs)
  show none: "d_states d ?s = None" using lt [of ?s] s(1) by force
  have tr: "tracks d" using inv by (simp add: disp_inv_def)
  have "tracks ?d"
  proof (rule tracks_add [OF tr none])
    show "lane ?d stateFresh = add_mset ?s (lane d stateFresh)"
      by (simp add: fill_step_def Let_def seq_of_def fresh_item_def)
    show "lane ?d l = lane d l" if "l \<noteq> stateFresh" for l using that by (cases l) (simp_all add: fill_step_def Let_def)
  qed (simp add: fill_step_def Let_def)
  moreover have fresh_lt: "q < ?s" if "q \<in> set (map seq_of (d_fresh d))" for q
  proof -
    have "q \<in># lane d stateFresh" using that by simp
    then have "d_states d q \<noteq> None" using tracks_mem [OF tr] by blast
    with lt s(1) show ?thesis by force
  qed
  have "cursor_ok ?d"
  proof (cases "?s = MaxUint64")
    case True
    with inv fresh_lt lt show ?thesis
      by (auto simp: cursor_ok_def disp_inv_def fill_step_def Let_def sorted_wrt_append fresh_item_def seq_of_def)
  next
    case False
    have "0 < ?s + 1" using less_inc [OF False] word_zero_le le_less_trans by blast
    moreover have "q < ?s + 1" if "d_states d q \<noteq> None \<or> q = ?s" for q
      using that lt s(1) le_less_inc [OF False] by force
    ultimately show ?thesis using False inv fresh_lt
      by (auto simp: cursor_ok_def disp_inv_def fill_step_def Let_def sorted_wrt_append fresh_item_def seq_of_def)
  qed
  ultimately have "disp_inv ?d"
    using inv room by (simp add: disp_inv_def bounds_ok_def flights_ok_def fill_step_def Let_def)
  moreover have "covered ?d q \<longleftrightarrow> covered d q \<or> q \<le> ?s" for q
    using s le_less_inc [of ?s q] by (auto simp: covered_def fill_step_def Let_def)
  ultimately show "fill_post [rec] d ?d"
    using s(2) by (auto simp: fill_post_def fill_step_def Let_def)
qed

lemma fill_loop_Cons:
  "d_cursor d \<le> r_Seq rec \<Longrightarrow> d_states d (r_Seq rec) = None \<Longrightarrow>
     fill_loop (rec # rest) p d = fill_loop rest True (fill_step rec d)"
  by (cases "r_Seq rec = MaxUint64") (simp_all add: fill_step_def Let_def fresh_item_def not_less [symmetric])

lemma fill_post_trans: "fill_post xs a b \<Longrightarrow> fill_post ys b c \<Longrightarrow> fill_post (xs @ ys) a c"
  unfolding fill_post_def by (elim conjE, intro conjI) (simp_all add: Un_assoc bex_Un disj_assoc image_Un)

lemma fill_loop_correct:
  assumes "fill_loop recs p d = (p', d')" "disp_inv d" "sorted_wrt (<) (map r_Seq recs)"
    and "\<forall>r \<in> set recs. d_cursor d \<le> r_Seq r" "recs \<noteq> [] \<Longrightarrow> \<not> d_scanDone d"
    and "int (length (d_fresh d)) + int (length recs) \<le> PrefetchCapacity (d_config d)"
  shows "fill_post recs d d' \<and> p' = (p \<or> recs \<noteq> [])"
  using assms
proof (induction recs arbitrary: p d)
  case Nil
  then show ?case by (auto simp: fill_post_def)
next
  case (Cons rec recs)
  let ?d = "fill_step rec d"
  have st: "fill_post [rec] d ?d" "d_states d (r_Seq rec) = None"
    using Cons.prems by (intro fill_step_post; simp)+
  have run: "fill_loop recs True ?d = (p', d')"
    using Cons.prems(1,4) st(2) fill_loop_Cons [of d rec recs p] by simp
  have later: "r_Seq rec < r_Seq r" if "r \<in> set recs" for r using Cons.prems(3) that by simp
  have "d_cursor ?d \<le> r_Seq r" if "r \<in> set recs" for r
    using later [OF that] Cons.prems(4) that le_less_inc [of "r_Seq rec" "r_Seq r"]
    by (auto simp: fill_step_def Let_def not_less [symmetric])
  moreover have "\<not> d_scanDone ?d" if ne: "recs \<noteq> []"
  proof -
    obtain r where "r \<in> set recs" using hd_in_set [OF ne] by blast
    with later have "r_Seq rec \<noteq> MaxUint64" using word_order.extremum [of "r_Seq r"] by force
    then show ?thesis using Cons.prems(5) by (simp add: fill_step_def Let_def)
  qed
  ultimately have "fill_post recs ?d d' \<and> p' = (True \<or> recs \<noteq> [])"
    using Cons.IH [OF run] st(1) Cons.prems(3,6) by (auto simp: fill_post_def)
  with fill_post_trans [OF st(1)] show ?case by fastforce
qed

lemma disp_inv_scanEmpty [simp]: "disp_inv (d\<lparr>d_scanEmpty := b\<rparr>) = disp_inv d"
proof -
  have "lane (d\<lparr>d_scanEmpty := b\<rparr>) l = lane d l" for l by (cases l) simp_all
  then show ?thesis by (simp add: disp_inv_defs tracks_def)
qed

section \<open>The locked section of Read\<close>

text \<open>\<open>same_scan\<close>, the tracked sequences and the invariant survive whatever the section does; the
  fresh lane only shrinks.\<close>

definition read_frame :: "dispatcher \<Rightarrow> dispatcher \<Rightarrow> bool" where
  "read_frame d d' \<longleftrightarrow> disp_inv d' \<and> same_scan d d' \<and> dom (d_states d') = dom (d_states d)
     \<and> length (d_fresh d') \<le> length (d_fresh d)"

lemma expire_read_frame:
  assumes "disp_inv d" "any_order ord"
  shows "read_frame d (expireLocked ord now d)"
  using expireLocked_correct [OF assms, of now]
  by (simp add: read_frame_def expire_result_def same_control_def same_scan_def)

lemma read_frame_trans: "read_frame a b \<Longrightarrow> read_frame b c \<Longrightarrow> read_frame a c"
  unfolding read_frame_def using same_scan_trans by auto

lemma take_done_frame: "take_done now d ds d' \<Longrightarrow> read_frame d d'"
  unfolding take_done_def read_frame_def by (metis le_add2 length_append)

lemma take_failed_frame: "disp_inv d \<Longrightarrow> take_failed d d' \<Longrightarrow> read_frame d d'"
  using take_failed_inv by (simp add: read_frame_def take_failed_def undone_def)

lemma read_section_open:
  assumes "\<not> d_closed d" "d1 = expireLocked ord now d"
  shows "read_section ord newReceipt wanted now d g =
    (if d_fresh d1 = [] \<and> d_retries d1 \<noteq> [] \<and> int (length (d_inFlight d1)) < MaxInFlight (d_config d1)
        \<and> \<not> d_scanDone d1 \<and> \<not> d_scanEmpty d1
     then (ReadRefill, d1, g)
     else case takeLocked newReceipt wanted now d1 g of
       (Inl err, d, g) \<Rightarrow> (ReadReturn (Inl err), d, g)
     | (Inr ds, d, g) \<Rightarrow>
         if ds \<noteq> [] then (ReadReturn (Inr ds), d, g)
         else (ReadIdle (nextWakeLocked ord d),
               (if MaxInFlight (d_config d) \<le> int (length (d_inFlight d))
                   \<or> PrefetchCapacity (d_config d) \<le> int (length (d_fresh d))
                then d\<lparr>d_stats := (d_stats d)\<lparr>st_Backpressure := st_Backpressure (d_stats d) + 1\<rparr>\<rparr>
                else d), g))"
  unfolding read_section_def assms(2) Let_def using assms(1) by (simp cong: if_cong)

lemma read_section_cases:
  assumes run: "read_section ord newReceipt wanted now d g = (out, d', g')" and inv: "disp_inv d"
    and ord: "any_order ord" and wanted: "0 < wanted"
  obtains (closed) "d_closed d" "out = ReadReturn (Inl (DispatchError DispatchErrClosed))" "d' = d" "g' = g"
  | (refill) "\<not> d_closed d" "out = ReadRefill" "d' = expireLocked ord now d" "d_fresh d' = []" "\<not> d_scanEmpty d" "\<not> d_scanDone d"
  | (failed) e where "\<not> d_closed d" "out = ReadReturn (Inl e)" "take_failed (expireLocked ord now d) d'"
  | (taken) ds where "\<not> d_closed d" "out = ReadReturn (Inr ds)" "ds \<noteq> []" "int (length ds) \<le> wanted"
      "take_done now (expireLocked ord now d) ds d'"
  | (idle) d1 where "\<not> d_closed d" "d1 = expireLocked ord now d" "out = ReadIdle (nextWakeLocked ord d1)"
      "\<exists>st. d' = d1\<lparr>d_stats := st\<rparr>" "g' = g"
      "takeLocked newReceipt wanted now d1 g = (Inr [], d1, g)"
proof (cases "d_closed d")
  case True
  then have "out = ReadReturn (Inl (DispatchError DispatchErrClosed))" "d' = d" "g' = g"
    using run by (simp_all add: read_section_def)
  with True show ?thesis by (rule closed)
next
  case False
  define d1 where "d1 = expireLocked ord now d"
  have inv1: "disp_inv d1" and sc: "same_scan d d1"
    using expire_read_frame [OF inv ord, of now] by (simp_all add: d1_def read_frame_def)
  note unf = run [unfolded read_section_open [OF False d1_def]]
  let ?c = "d_fresh d1 = [] \<and> d_retries d1 \<noteq> [] \<and> int (length (d_inFlight d1)) < MaxInFlight (d_config d1)
            \<and> \<not> d_scanDone d1 \<and> \<not> d_scanEmpty d1"
  show ?thesis
  proof (cases ?c)
    case True
    with unf have "out = ReadRefill" "d' = d1" by simp_all
    then show ?thesis using refill [OF False] True sc by (simp add: same_scan_def d1_def [symmetric])
  next
    case nc: False
    obtain r d2 g2 where t: "takeLocked newReceipt wanted now d1 g = (r, d2, g2)"
      by (cases "takeLocked newReceipt wanted now d1 g")
    note tc = takeLocked_correct [OF t inv1 wanted]
    show ?thesis
    proof (cases r)
      case (Inl e)
      then have "out = ReadReturn (Inl e)" "d' = d2" using unf t unfolding if_not_P [OF nc] by simp_all
      then show ?thesis using failed [OF False] tc Inl by (simp add: d1_def [symmetric])
    next
      case (Inr ds)
      show ?thesis
      proof (cases "ds = []")
        case False': False
        then have "out = ReadReturn (Inr ds)" "d' = d2" using unf t Inr unfolding if_not_P [OF nc] by simp_all
        then show ?thesis using taken [OF False _ False'] tc Inr by (simp add: d1_def [symmetric])
      next
        case True
        then have e: "d2 = d1" "g2 = g" using takeLocked_Nil [of newReceipt wanted now d1 g d2 g2] t Inr by simp_all
        then have "out = ReadIdle (nextWakeLocked ord d1)" "g' = g" "d' = d1 \<or> (\<exists>st. d' = d1\<lparr>d_stats := st\<rparr>)"
          using unf t Inr True unfolding if_not_P [OF nc] by (simp_all split: if_splits) blast
        moreover have "d1 = d1\<lparr>d_stats := d_stats d1\<rparr>" by simp
        ultimately show ?thesis using idle [OF False d1_def] t Inr True e by metis
      qed
    qed
  qed
qed

lemma read_section_frame:
  assumes "read_section ord newReceipt wanted now d g = (out, d', g')" "disp_inv d" "any_order ord" "0 < wanted"
  shows "read_frame d d'"
  using assms
proof (cases rule: read_section_cases)
  case closed
  with assms(2) show ?thesis by (simp add: read_frame_def)
next
  case refill
  with expire_read_frame [OF assms(2,3)] show ?thesis by simp
next
  case (failed e)
  have "disp_inv (expireLocked ord now d)"
    using expireLocked_correct [OF assms(2,3)] by blast
  with failed show ?thesis
    using read_frame_trans [OF expire_read_frame [OF assms(2,3)] take_failed_frame] by blast
next
  case (taken ds)
  then show ?thesis
    using read_frame_trans [OF expire_read_frame [OF assms(2,3)] take_done_frame] by blast
next
  case (idle d1)
  then obtain st where "d' = (expireLocked ord now d)\<lparr>d_stats := st\<rparr>" by blast
  then show ?thesis
    using expire_read_frame [OF assms(2,3), of now] by (simp add: read_frame_def same_scan_def)
qed

end
