(* ===== verification/System.thy ===== *)
theory System
  imports Dispatcher_Take Store_History
begin

text \<open>
  One stream at work: the store, its dispatcher, writers, readers and completions, interleaved in
  any order at the granularity of the code's critical sections. A durable append and the
  \<open>Notify\<close> that follows it are two steps, and so are the three parts of \<open>fillFresh\<close>: another
  operation can come in between. \<open>y_owed\<close> counts the writers between the two steps, \<open>y_scan\<close> is the
  scan in progress (at most one, under \<open>scanMu\<close>). A crash loses the dispatcher and reopens the
  stream.

  \<open>sys_inv\<close> is the at-least-once invariant: a pending record below the cursor is tracked in
  exactly one lane, one at or above the cursor is still to be scanned, and the flag that
  stops scanning is never set while something unscanned is pending, unless a writer still owes
  its notification.
\<close>

section \<open>States and steps\<close>

datatype scan_phase = NoScan | ScanStarted u64 int | Scanned u64 int "gerror + store_record list"

record ('db, 'g) sys =
  y_stream :: stream
  y_db :: 'db
  y_disp :: dispatcher
  y_rng :: 'g
  y_scan :: scan_phase
  y_owed :: nat

inductive sys_step ::
  "('db, 'txn) badger \<Rightarrow> (float64 \<Rightarrow> duration) \<Rightarrow> ('g \<Rightarrow> (gerror + receipt) \<times> 'g) \<Rightarrow> dconfig
   \<Rightarrow> ('db, 'g) sys \<Rightarrow> ('db, 'g) sys \<Rightarrow> bool" for B oor newReceipt config where
  produce: "length ps < 2 ^ 63 \<Longrightarrow> AppendBatch B (y_stream y) (y_db y) ps now = (Inr recs, s', db') \<Longrightarrow>
     sys_step B oor newReceipt config y (y\<lparr>y_stream := s', y_db := db', y_owed := Suc (y_owed y)\<rparr>)"
| produce_fails: "length ps < 2 ^ 63 \<Longrightarrow> AppendBatch B (y_stream y) (y_db y) ps now = (Inl e, s', db') \<Longrightarrow>
     sys_step B oor newReceipt config y (y\<lparr>y_stream := s', y_db := db'\<rparr>)"
| requeue: "Requeue B (y_stream y) seq (y_db y) = (Inr rec, s', db') \<Longrightarrow>
     sys_step B oor newReceipt config y (y\<lparr>y_stream := s', y_db := db', y_owed := Suc (y_owed y)\<rparr>)"
| requeue_fails: "Requeue B (y_stream y) seq (y_db y) = (Inl e, s', db') \<Longrightarrow>
     sys_step B oor newReceipt config y (y\<lparr>y_stream := s', y_db := db'\<rparr>)"
| notify: "y_owed y = Suc n \<Longrightarrow>
     sys_step B oor newReceipt config y (y\<lparr>y_disp := Notify (y_disp y), y_owed := n\<rparr>)"
| commit: "any_order ord \<Longrightarrow>
     Dispatch_Commit ord now ds (\<lambda>seqs. Commit B (y_stream y) seqs) (y_disp y) (y_db y) = (r, d', db') \<Longrightarrow>
     sys_step B oor newReceipt config y (y\<lparr>y_disp := d', y_db := db'\<rparr>)"
| dead_letter: "any_order ord \<Longrightarrow>
     Dispatch_DeadLetter ord now x (\<lambda>seq. DeadLetter B (y_stream y) seq reason t) (y_disp y) (y_db y) = (r, d', db') \<Longrightarrow>
     sys_step B oor newReceipt config y (y\<lparr>y_disp := d', y_db := db'\<rparr>)"
| retry: "any_order ord \<Longrightarrow> Dispatch_Retry oor ord now ds (y_disp y) = (r, d') \<Longrightarrow>
     sys_step B oor newReceipt config y (y\<lparr>y_disp := d'\<rparr>)"
| extend: "any_order ord \<Longrightarrow> Dispatch_Extend ord now e ds (y_disp y) = (r, d') \<Longrightarrow>
     sys_step B oor newReceipt config y (y\<lparr>y_disp := d'\<rparr>)"
| snapshot: "any_order ord \<Longrightarrow> Snapshot ord now (y_disp y) = (st, d') \<Longrightarrow>
     sys_step B oor newReceipt config y (y\<lparr>y_disp := d'\<rparr>)"
| read: "any_order ord \<Longrightarrow> 0 < wanted \<Longrightarrow>
     read_section ord newReceipt wanted now (y_disp y) (y_rng y) = (out, d', g') \<Longrightarrow>
     sys_step B oor newReceipt config y (y\<lparr>y_disp := d', y_rng := g'\<rparr>)"
| fill_start: "y_scan y = NoScan \<Longrightarrow> fill_begin (y_disp y) = (Some (lo, free), d') \<Longrightarrow>
     sys_step B oor newReceipt config y (y\<lparr>y_disp := d', y_scan := ScanStarted lo free\<rparr>)"
| fill_scan: "y_scan y = ScanStarted lo free \<Longrightarrow>
     sys_step B oor newReceipt config y
       (y\<lparr>y_scan := Scanned lo free (ScanBatch B (s_name (y_stream y)) (y_db y) lo free)\<rparr>)"
| fill_finish: "y_scan y = Scanned lo free (Inr recs) \<Longrightarrow> fill_end free recs (y_disp y) = (p, d') \<Longrightarrow>
     sys_step B oor newReceipt config y (y\<lparr>y_disp := d', y_scan := NoScan\<rparr>)"
| fill_error: "y_scan y = Scanned lo free (Inl e) \<Longrightarrow>
     sys_step B oor newReceipt config y (y\<lparr>y_disp := fill_failed (y_disp y), y_scan := NoScan\<rparr>)"
| close: "sys_step B oor newReceipt config y (y\<lparr>y_disp := Dispatch_Close (y_disp y)\<rparr>)"
| wake: "(r, d') \<in> set (wait_select c now wakeAt (y_disp y)) \<Longrightarrow>
     sys_step B oor newReceipt config y (y\<lparr>y_disp := d'\<rparr>)"
| crash: "load B (s_name (y_stream y)) (y_db y) = (Inr tail, db') \<Longrightarrow> New False config = Inr d' \<Longrightarrow>
     sys_step B oor newReceipt config y
       (y\<lparr>y_stream := \<lparr>s_name = s_name (y_stream y), s_tail = tail, s_beforeCommit = None\<rparr>,
          y_db := db', y_disp := d', y_scan := NoScan, y_owed := 0\<rparr>)"

section \<open>The invariant\<close>

definition pending_set :: "(bytes \<rightharpoonup> bytes) \<Rightarrow> stream \<Rightarrow> u64 set" where
  "pending_set v s = dom (pend v (s_name s))"

text \<open>The dispatcher's view of a set \<open>P\<close> of pending sequences below a tail.\<close>

definition view_ok :: "u64 set \<Rightarrow> u64 \<Rightarrow> dispatcher \<Rightarrow> bool" where
  "view_ok P tail d \<longleftrightarrow> disp_inv d \<and> dom (d_states d) = {q \<in> P. covered d q}
     \<and> (\<forall>q. covered d q \<longrightarrow> q \<le> tail)"

text \<open>What a scan in progress knows: it started at the cursor, the room it asked for is still
  there, and a result it brings back is a gap-free piece of what is pending.\<close>

fun scan_ok :: "u64 set \<Rightarrow> dispatcher \<Rightarrow> scan_phase \<Rightarrow> bool" where
  "scan_ok P d NoScan \<longleftrightarrow> True"
| "scan_ok P d (ScanStarted lo free) \<longleftrightarrow> lo = d_cursor d \<and> \<not> d_scanDone d \<and> 0 < free
     \<and> int (length (d_fresh d)) + free \<le> PrefetchCapacity (d_config d)"
| "scan_ok P d (Scanned lo free r) \<longleftrightarrow> lo = d_cursor d \<and> \<not> d_scanDone d \<and> 0 < free
     \<and> int (length (d_fresh d)) + free \<le> PrefetchCapacity (d_config d)
     \<and> (case r of Inl _ \<Rightarrow> True | Inr recs \<Rightarrow>
          sorted_wrt (<) (map r_Seq recs) \<and> int (length recs) \<le> free
          \<and> (\<forall>x \<in> set recs. lo \<le> r_Seq x \<and> r_Seq x \<in> P)
          \<and> (\<forall>q \<in> P. lo \<le> q \<and> (\<exists>x \<in> set recs. q \<le> r_Seq x) \<longrightarrow> q \<in> r_Seq ` set recs))"

text \<open>With \<open>scanEmpty\<close> set nobody scans, so nothing unscanned may be pending.\<close>

fun empty_ok :: "u64 set \<Rightarrow> dispatcher \<Rightarrow> scan_phase \<Rightarrow> bool" where
  "empty_ok P d NoScan \<longleftrightarrow> (\<forall>q \<in> P. covered d q)"
| "empty_ok P d (ScanStarted lo free) \<longleftrightarrow> True"
| "empty_ok P d (Scanned lo free r) \<longleftrightarrow>
     (case r of Inl _ \<Rightarrow> True | Inr recs \<Rightarrow>
        int (length recs) < free \<longrightarrow> (\<forall>q \<in> P. lo \<le> q \<longrightarrow> q \<in> r_Seq ` set recs))"

definition sys_inv :: "('db \<Rightarrow> bytes \<rightharpoonup> bytes) \<Rightarrow> ('db, 'g) sys \<Rightarrow> bool" where
  "sys_inv db_view y \<longleftrightarrow>
     (let P = pending_set (db_view (y_db y)) (y_stream y)
      in stream_wf (db_view (y_db y)) (y_stream y)
         \<and> view_ok P (s_tail (y_stream y)) (y_disp y)
         \<and> scan_ok P (y_disp y) (y_scan y)
         \<and> (d_scanEmpty (y_disp y) \<and> y_owed y = 0 \<longrightarrow> empty_ok P (y_disp y) (y_scan y)))"

section \<open>Steps of the store\<close>

text \<open>The pending set grows above the tail.\<close>

definition grown :: "u64 set \<Rightarrow> u64 \<Rightarrow> u64 set \<Rightarrow> u64 \<Rightarrow> bool" where
  "grown P tail P' tail' \<longleftrightarrow> tail \<le> tail' \<and> P \<subseteq> P' \<and> (\<forall>q \<in> P' - P. tail < q)"

lemma append_grown:
  assumes "append_effect s v ps now recs s' v'"
  shows "stream_wf v' s' \<and> grown (pending_set v s) (s_tail s) (pending_set v' s') (s_tail s')"
proof -
  let ?new = "set (next_seqs (s_tail s) (length ps))"
  have e: "abs_stream v' s' = q_append now ps (abs_stream v s)" "unat (s_tail s) + length ps < 2 ^ 64"
    "s' = s\<lparr>s_tail := s_tail s + word_of_nat (length ps)\<rparr>" "stream_wf v' s'"
    using assms by (auto simp: append_effect_def)
  from e(1,3) have "pending_set v' s' = pending_set v s \<union> ?new"
    by (auto simp: pending_set_def abs_stream_def q_append_def dom_map_of_zip)
  moreover have "?new = {q. s_tail s < q \<and> q \<le> s_tail s'}" using next_seqs_interval [OF e(2)] e(3) by simp
  moreover have "s_tail s \<le> s_tail s'"
    using e(2,3) by (simp add: word_le_nat_alt unat_word_ariths unat_of_nat)
  ultimately show ?thesis using e(4) by (auto simp: grown_def)
qed

lemma requeue_grown:
  assumes "requeue_effect s v seq rec s' v'"
  shows "stream_wf v' s' \<and> grown (pending_set v s) (s_tail s) (pending_set v' s') (s_tail s')"
proof -
  have s': "s' = s\<lparr>s_tail := s_tail s + 1\<rparr>" and top: "s_tail s \<noteq> MaxUint64" and wf: "stream_wf v' s'"
    and p: "dom (pend v' (s_name s)) = insert (s_tail s + 1) (dom (pend v (s_name s)))"
    using assms by (auto simp: requeue_effect_def abs_stream_def q_requeue_def)
  from less_inc [OF top] show ?thesis using s' p wf by (auto simp: grown_def pending_set_def)
qed

lemma commit_pending:
  assumes "commit_effect s v seqs v'"
  shows "pending_set v' s = pending_set v s - set seqs"
proof -
  have "pend v' (s_name s) = pend v (s_name s) |` (- set seqs)"
    using assms by (simp add: commit_effect_def abs_stream_def q_commit_def)
  then show ?thesis by (auto simp: pending_set_def)
qed

lemma deadletter_pending:
  assumes "deadletter_effect s v seq reason t v'"
  shows "pending_set v' s = pending_set v s - {seq}"
proof -
  have "pend v' (s_name s) = (pend v (s_name s))(seq := None)"
    using assms by (auto simp: deadletter_effect_def abs_stream_def q_deadletter_def)
  then show ?thesis by (simp add: pending_set_def)
qed

lemma view_ok_grown: "view_ok P tail d \<Longrightarrow> grown P tail P' tail' \<Longrightarrow> view_ok P' tail' d"
  unfolding view_ok_def grown_def by (auto intro: order_trans) (meson DiffI leD)

lemma scan_ok_grown:
  assumes "scan_ok P d ph" "grown P tail P' tail'" "\<forall>q \<in> P. q \<le> tail"
  shows "scan_ok P' d ph"
proof (cases ph)
  case (Scanned lo free r)
  show ?thesis
  proof (cases r)
    case (Inr recs)
    have "q \<in> P" if "q \<in> P'" "x \<in> set recs" "q \<le> r_Seq x" for q x
    proof (rule ccontr)
      assume "q \<notin> P"
      with that(1) assms(2) have "tail < q" by (auto simp: grown_def)
      moreover have "r_Seq x \<le> tail" using assms(1,3) Scanned Inr that(2) by auto
      ultimately show False using that(3) by simp
    qed
    with assms(1,2) Scanned Inr show ?thesis by (auto simp: grown_def)
  qed (use assms(1) Scanned in simp)
qed (use assms(1) in simp_all)

lemma pending_le_tail: "stream_wf v s \<Longrightarrow> q \<in> pending_set v s \<Longrightarrow> 0 < q \<and> q \<le> s_tail s"
  unfolding pending_set_def by (rule pend_dom_bounds)

text \<open>A durable step that adds records owes a notification, so \<open>empty_ok\<close> is not asked for.\<close>

lemma sys_inv_grown:
  assumes "sys_inv db_view y" "stream_wf (db_view db') s'"
    and "grown (pending_set (db_view (y_db y)) (y_stream y)) (s_tail (y_stream y)) (pending_set (db_view db') s') (s_tail s')"
  shows "sys_inv db_view (y\<lparr>y_stream := s', y_db := db', y_owed := Suc (y_owed y)\<rparr>)"
proof -
  have i: "stream_wf (db_view (y_db y)) (y_stream y)"
    "view_ok (pending_set (db_view (y_db y)) (y_stream y)) (s_tail (y_stream y)) (y_disp y)"
    "scan_ok (pending_set (db_view (y_db y)) (y_stream y)) (y_disp y) (y_scan y)"
    using assms(1) by (simp_all add: sys_inv_def Let_def)
  show ?thesis
    using assms(2) view_ok_grown [OF i(2) assms(3)] scan_ok_grown [OF i(3) assms(3)] pending_le_tail [OF i(1)]
    by (simp add: sys_inv_def Let_def)
qed

lemma sys_inv_same:
  assumes "sys_inv db_view y" "s' = y_stream y" "db_view db' = db_view (y_db y)"
  shows "sys_inv db_view (y\<lparr>y_stream := s', y_db := db'\<rparr>)"
  using assms by (simp add: sys_inv_def Let_def)

section \<open>Steps of the dispatcher\<close>

text \<open>A section that leaves the scan position alone and forgets the tracked sequences \<open>R\<close> that the
  store no longer has.\<close>

lemma sys_inv_disp:
  assumes inv: "sys_inv db_view y" and d: "disp_inv d'" "d_cursor d' = d_cursor (y_disp y)"
    "d_scanDone d' = d_scanDone (y_disp y)" "d_scanEmpty d' = d_scanEmpty (y_disp y)"
    "d_config d' = d_config (y_disp y)" "length (d_fresh d') \<le> length (d_fresh (y_disp y))"
    and R: "R \<subseteq> dom (d_states (y_disp y))" "dom (d_states d') = dom (d_states (y_disp y)) - R"
    and P: "pending_set (db_view db') (y_stream y) = pending_set (db_view (y_db y)) (y_stream y) - R"
    and wf: "stream_wf (db_view db') (y_stream y)"
  shows "sys_inv db_view (y\<lparr>y_disp := d', y_db := db'\<rparr>)"
proof -
  let ?P = "pending_set (db_view (y_db y)) (y_stream y)" and ?d = "y_disp y"
  have i: "view_ok ?P (s_tail (y_stream y)) ?d" "scan_ok ?P ?d (y_scan y)"
    "d_scanEmpty ?d \<and> y_owed y = 0 \<longrightarrow> empty_ok ?P ?d (y_scan y)"
    using inv by (simp_all add: sys_inv_def Let_def)
  have cov: "covered d' q \<longleftrightarrow> covered ?d q" for q using d(2,3) by (simp add: covered_def)
  have Rc: "covered ?d q" if "q \<in> R" for q using i(1) R(1) that unfolding view_ok_def by blast
  have "view_ok (?P - R) (s_tail (y_stream y)) d'"
    using i(1) d(1) R(2) cov unfolding view_ok_def by blast
  moreover have "scan_ok (?P - R) d' (y_scan y)"
  proof (cases "y_scan y")
    case (Scanned lo free r)
    have "q \<notin> R" if "lo \<le> q" for q
      using Rc [of q] that i(2) Scanned by (auto simp: covered_def)
    with i(2) Scanned d show ?thesis by (cases r) auto
  qed (use i(2) d in simp_all)
  moreover have "empty_ok (?P - R) d' (y_scan y)" if "empty_ok ?P ?d (y_scan y)"
    using that cov by (cases "y_scan y") (auto split: sum.splits)
  ultimately show ?thesis using i(3) d(4) wf by (simp add: sys_inv_def Let_def P)
qed

lemma sys_inv_quiet:
  assumes "sys_inv db_view y" "op_frame (y_disp y) d'" "dom (d_states d') = dom (d_states (y_disp y))"
  shows "sys_inv db_view (y\<lparr>y_disp := d'\<rparr>)"
proof -
  have "sys_inv db_view (y\<lparr>y_disp := d', y_db := y_db y\<rparr>)"
    by (rule sys_inv_disp [OF assms(1), where R = "{}"])
      (use assms in \<open>auto simp: op_frame_def same_control_def sys_inv_def Let_def\<close>)
  then show ?thesis by simp
qed

lemma sys_inv_rng: "sys_inv db_view (y\<lparr>y_rng := g\<rparr>) = sys_inv db_view y"
  by (simp add: sys_inv_def)

lemma sys_inv_read:
  assumes "sys_inv db_view y" "read_frame (y_disp y) d'"
  shows "sys_inv db_view (y\<lparr>y_disp := d', y_rng := g\<rparr>)"
proof -
  have "sys_inv db_view (y\<lparr>y_disp := d', y_db := y_db y\<rparr>)"
    by (rule sys_inv_disp [OF assms(1), where R = "{}"])
      (use assms in \<open>auto simp: read_frame_def same_scan_def sys_inv_def Let_def\<close>)
  then show ?thesis using sys_inv_rng [where y = "y\<lparr>y_disp := d'\<rparr>"] by simp
qed

lemma sys_inv_disp_inv: "sys_inv db_view y \<Longrightarrow> disp_inv (y_disp y)"
  by (simp add: sys_inv_def view_ok_def Let_def)

lemma sys_inv_wf: "sys_inv db_view y \<Longrightarrow> stream_wf (db_view (y_db y)) (y_stream y)"
  by (simp add: sys_inv_def Let_def)

lemma sys_inv_fill_start:
  assumes inv: "sys_inv db_view y" and ph: "y_scan y = NoScan" and b: "fill_begin (y_disp y) = (Some (lo, free), d')"
  shows "sys_inv db_view (y\<lparr>y_disp := d', y_scan := ScanStarted lo free\<rparr>)"
proof -
  from b have b': "lo = d_cursor (y_disp y)" "free = PrefetchCapacity (d_config (y_disp y)) - int (length (d_fresh (y_disp y)))"
    "0 < free" "\<not> d_scanDone (y_disp y)" "d' = (y_disp y)\<lparr>d_scanEmpty := True\<rparr>"
    by (auto simp: fill_begin_def Let_def split: if_splits)
  have "covered d' = covered (y_disp y)" by (simp add: covered_def b'(5) fun_eq_iff)
  with inv b' show ?thesis by (simp add: sys_inv_def Let_def view_ok_def)
qed

lemma sys_inv_fill_finish:
  assumes inv: "sys_inv db_view y" and ph: "y_scan y = Scanned lo free (Inr recs)"
    and run: "fill_end free recs (y_disp y) = (p, d')"
  shows "sys_inv db_view (y\<lparr>y_disp := d', y_scan := NoScan\<rparr>)"
proof -
  let ?P = "pending_set (db_view (y_db y)) (y_stream y)" and ?d = "y_disp y" and ?Q = "r_Seq ` set recs"
  define d0 where "d0 = (if int (length recs) = free then ?d\<lparr>d_scanEmpty := False\<rparr> else ?d)"
  have wf: "stream_wf (db_view (y_db y)) (y_stream y)" and v: "view_ok ?P (s_tail (y_stream y)) ?d"
    and sc: "lo = d_cursor ?d" "\<not> d_scanDone ?d" "int (length (d_fresh ?d)) + free \<le> PrefetchCapacity (d_config ?d)"
    "sorted_wrt (<) (map r_Seq recs)" "int (length recs) \<le> free" "\<forall>x \<in> set recs. lo \<le> r_Seq x \<and> r_Seq x \<in> ?P"
    "\<forall>q \<in> ?P. lo \<le> q \<and> (\<exists>x \<in> set recs. q \<le> r_Seq x) \<longrightarrow> q \<in> ?Q"
    and em: "d_scanEmpty ?d \<and> y_owed y = 0 \<and> int (length recs) < free \<longrightarrow> (\<forall>q \<in> ?P. lo \<le> q \<longrightarrow> q \<in> ?Q)"
    using inv ph by (auto simp: sys_inv_def Let_def)
  have d0: "disp_inv d0" "d_cursor d0 = d_cursor ?d" "d_scanDone d0 = d_scanDone ?d" "d_fresh d0 = d_fresh ?d"
    "d_config d0 = d_config ?d" "d_states d0 = d_states ?d"
    using v by (simp_all add: d0_def view_ok_def)
  then have cov0: "covered d0 = covered ?d" by (simp add: covered_def fun_eq_iff)
  have "fill_loop recs False d0 = (p, d')" using run by (simp add: fill_end_def d0_def)
  then have f: "fill_post recs d0 d'"
    using fill_loop_correct [of recs False d0 p d'] d0 sc by simp
  then have cov: "covered d' q \<longleftrightarrow> covered ?d q \<or> (\<exists>x \<in> set recs. q \<le> r_Seq x)" for q
    unfolding fill_post_def cov0 by blast
  have dom: "dom (d_states d') = dom (d_states ?d) \<union> ?Q" and se: "d_scanEmpty d' = d_scanEmpty d0"
    and di: "disp_inv d'" using f d0(6) unfolding fill_post_def by simp_all
  have ncov: "covered ?d q \<longleftrightarrow> q < lo" for q using sc(1,2) by (simp add: covered_def)
  have "dom (d_states d') = {q \<in> ?P. covered d' q}"
  proof (intro equalityI subsetI)
    fix q assume "q \<in> dom (d_states d')"
    then show "q \<in> {q \<in> ?P. covered d' q}" using dom v sc(6) cov unfolding view_ok_def by auto
  next
    fix q assume q: "q \<in> {q \<in> ?P. covered d' q}"
    show "q \<in> dom (d_states d')"
    proof (cases "q < lo")
      case True
      with q v ncov dom show ?thesis unfolding view_ok_def by blast
    next
      case False
      with q cov ncov sc(7) dom show ?thesis by (auto simp: not_less)
    qed
  qed
  moreover have "q \<le> s_tail (y_stream y)" if "covered d' q" for q
    using that cov v sc(6) pending_le_tail [OF wf] unfolding view_ok_def by (meson order_trans)
  ultimately have "view_ok ?P (s_tail (y_stream y)) d'" using di by (simp add: view_ok_def)
  moreover have "\<forall>q \<in> ?P. covered d' q" if "d_scanEmpty d'" "y_owed y = 0"
  proof -
    have "int (length recs) < free" "d_scanEmpty ?d" using that(1) se sc(5) by (auto simp: d0_def split: if_splits)
    with em that(2) have all: "\<forall>q \<in> ?P. lo \<le> q \<longrightarrow> q \<in> ?Q" by simp
    show ?thesis
    proof
      fix q assume "q \<in> ?P"
      with all have "q < lo \<or> q \<in> ?Q" by (auto simp: not_less)
      with cov [of q] ncov [of q] show "covered d' q" by auto
    qed
  qed
  ultimately show ?thesis using wf by (simp add: sys_inv_def Let_def)
qed

section \<open>Every step keeps the invariant\<close>

context badger_store
begin

lemma sys_inv_fill_scan:
  assumes inv: "sys_inv db_view y" and ph: "y_scan y = ScanStarted lo free"
  shows "sys_inv db_view (y\<lparr>y_scan := Scanned lo free (ScanBatch B (s_name (y_stream y)) (y_db y) lo free)\<rparr>)"
proof (cases "ScanBatch B (s_name (y_stream y)) (y_db y) lo free")
  case (Inl e)
  with inv ph show ?thesis by (simp add: sys_inv_def Let_def)
next
  case (Inr recs)
  let ?st = "(y_stream y, y_db y)"
  have ok: "stream_wf (db_view (y_db y)) (y_stream y)" using inv by (rule sys_inv_wf)
  note src = source.scan_strict [of ?st lo free recs] source.scan_length [of ?st lo free recs]
    source.scan_sound [of ?st lo free recs] source.scan_complete [of ?st lo free recs]
  from src ok Inr inv ph show ?thesis
    by (auto simp: sys_inv_def Let_def pending_set_def)
qed

lemma sys_step_inv:
  assumes "sys_step B oor newReceipt config y y'" and inv: "sys_inv db_view y"
  shows "sys_inv db_view y'"
  using assms(1)
proof cases
  case (produce ps now recs s' db')
  from AppendBatch_refines [OF sys_inv_wf [OF inv] _ produce(3)] produce(2)
  have "append_effect (y_stream y) (db_view (y_db y)) ps now recs s' (db_view db')" by simp
  with append_grown sys_inv_grown [OF inv] produce(1) show ?thesis by blast
next
  case (produce_fails ps now e s' db')
  with AppendBatch_failed sys_inv_same [OF inv] show ?thesis by blast
next
  case (requeue seq rec s' db')
  with requeue_grown [OF Requeue_refines [OF sys_inv_wf [OF inv]]] sys_inv_grown [OF inv] show ?thesis by blast
next
  case (requeue_fails seq e s' db')
  with Requeue_failed sys_inv_same [OF inv] show ?thesis by blast
next
  case (notify n)
  have "covered (Notify (y_disp y)) = covered (y_disp y)"
    by (simp add: covered_def Notify_def notifyLocked_def fun_eq_iff)
  then have "view_ok P t (Notify (y_disp y)) = view_ok P t (y_disp y)" for P t
    by (simp add: view_ok_def Notify_inv) (simp add: Notify_def notifyLocked_def)
  moreover have "scan_ok P (Notify (y_disp y)) ph = scan_ok P (y_disp y) ph" for P ph
    by (cases ph) (simp_all add: Notify_def notifyLocked_def)
  ultimately show ?thesis using inv notify by (simp add: sys_inv_def Let_def) (simp add: Notify_def notifyLocked_def)
next
  case (commit ord now ds r d' db')
  from commit(3) sys_inv_disp_inv [OF inv] commit(2) show ?thesis
  proof (cases rule: Dispatch_Commit_cases)
    case skipped
    with commit(1) inv show ?thesis by simp
  next
    case (rejected e)
    with commit(1) sys_inv_quiet [OF inv] show ?thesis by simp
  next
    case (failed e)
    have "sys_inv db_view (y\<lparr>y_disp := d', y_db := db'\<rparr>)"
      by (rule sys_inv_disp [OF inv, where R = "{}"])
        (use failed Commit_failed [OF failed(2)] sys_inv_wf [OF inv] in \<open>auto simp: op_frame_def same_control_def\<close>)
    with commit(1) show ?thesis by simp
  next
    case (completed d1)
    have e: "commit_effect (y_stream y) (db_view (y_db y)) (map dl_seq ds) (db_view db')"
      by (rule Commit_refines [OF sys_inv_wf [OF inv] completed(4)])
    have i1: "disp_inv d1" using expireLocked_correct [OF sys_inv_disp_inv [OF inv] commit(2)] completed(3) by blast
    have "sys_inv db_view (y\<lparr>y_disp := d', y_db := db'\<rparr>)"
    proof (rule sys_inv_disp [OF inv, where R = "dl_seq ` set ds"])
      show "dl_seq ` set ds \<subseteq> dom (d_states (y_disp y))"
        using completed(5,9) valid_delivery_state [OF i1] by blast
      show "dom (d_states d') = dom (d_states (y_disp y)) - dl_seq ` set ds"
        using completed(8,9) by auto
      show "pending_set (db_view db') (y_stream y) = pending_set (db_view (y_db y)) (y_stream y) - dl_seq ` set ds"
        using commit_pending [OF e] by simp
    qed (use completed(7) e in \<open>auto simp: op_frame_def same_control_def commit_effect_def\<close>)
    with commit(1) show ?thesis by simp
  qed
next
  case (dead_letter ord now x reason t r d' db')
  from dead_letter(3) sys_inv_disp_inv [OF inv] dead_letter(2) show ?thesis
  proof (cases rule: Dispatch_DeadLetter_cases)
    case (rejected e)
    with dead_letter(1) sys_inv_quiet [OF inv] show ?thesis by simp
  next
    case (failed e)
    have "sys_inv db_view (y\<lparr>y_disp := d', y_db := db'\<rparr>)"
      by (rule sys_inv_disp [OF inv, where R = "{}"])
        (use failed DeadLetter_failed [OF failed(2)] sys_inv_wf [OF inv] in \<open>auto simp: op_frame_def same_control_def\<close>)
    with dead_letter(1) show ?thesis by simp
  next
    case (completed d1)
    have e: "deadletter_effect (y_stream y) (db_view (y_db y)) (dl_seq x) reason t (db_view db')"
      by (rule DeadLetter_refines [OF sys_inv_wf [OF inv] completed(4)])
    have i1: "disp_inv d1" using expireLocked_correct [OF sys_inv_disp_inv [OF inv] dead_letter(2)] completed(3) by blast
    have "sys_inv db_view (y\<lparr>y_disp := d', y_db := db'\<rparr>)"
    proof (rule sys_inv_disp [OF inv, where R = "{dl_seq x}"])
      show "{dl_seq x} \<subseteq> dom (d_states (y_disp y))"
        using completed(5,8) valid_delivery_state [OF i1] by blast
      show "dom (d_states d') = dom (d_states (y_disp y)) - {dl_seq x}"
        using completed(7,8) by auto
      show "pending_set (db_view db') (y_stream y) = pending_set (db_view (y_db y)) (y_stream y) - {dl_seq x}"
        by (rule deadletter_pending [OF e])
    qed (use completed(6) e in \<open>auto simp: op_frame_def same_control_def deadletter_effect_def\<close>)
    with dead_letter(1) show ?thesis by simp
  qed
next
  case (retry ord now ds r d')
  from retry(3) [unfolded Dispatch_Retry_lease] sys_inv_disp_inv [OF inv] retry(2) retrying.delivery_op_axioms retry_keeps
  have "op_frame (y_disp y) d' \<and> dom (d_states d') = dom (d_states (y_disp y))"
    by (cases rule: lease_op_cases) (auto simp: op_frame_refl sys_inv_disp_inv [OF inv])
  with retry(1) sys_inv_quiet [OF inv] show ?thesis by blast
next
  case (extend ord now e ds r d')
  have "op_frame (y_disp y) d' \<and> dom (d_states d') = dom (d_states (y_disp y))"
  proof (cases "0 < e")
    case True
    from extend(3) [unfolded Dispatch_Extend_lease [OF True]] sys_inv_disp_inv [OF inv] extend(2) extending [OF True] extend_keeps
    show ?thesis by (cases rule: lease_op_cases) (auto simp: op_frame_refl sys_inv_disp_inv [OF inv])
  next
    case False
    with extend(3) sys_inv_disp_inv [OF inv] show ?thesis by (auto simp: Dispatch_Extend_def op_frame_refl)
  qed
  with extend(1) sys_inv_quiet [OF inv] show ?thesis by blast
next
  case (snapshot ord now st d')
  with Snapshot_frame [OF sys_inv_disp_inv [OF inv]] sys_inv_quiet [OF inv] show ?thesis by blast
next
  case (read ord wanted now out d' g')
  with read_section_frame [OF read(4) sys_inv_disp_inv [OF inv] read(2,3)] sys_inv_read [OF inv] show ?thesis by blast
next
  case (fill_start lo free d')
  with sys_inv_fill_start [OF inv] show ?thesis by blast
next
  case (fill_scan lo free)
  with sys_inv_fill_scan [OF inv] show ?thesis by blast
next
  case (fill_finish lo free recs p d')
  with sys_inv_fill_finish [OF inv] show ?thesis by blast
next
  case (fill_error lo free e)
  have "covered (fill_failed (y_disp y)) = covered (y_disp y)" by (simp add: covered_def fill_failed_def fun_eq_iff)
  with inv fill_error show ?thesis by (simp add: sys_inv_def Let_def view_ok_def fill_failed_def)
next
  case close
  have "covered (Dispatch_Close (y_disp y)) = covered (y_disp y)"
    by (simp add: covered_def Dispatch_Close_def notifyLocked_def fun_eq_iff)
  moreover have "scan_ok P (Dispatch_Close (y_disp y)) ph = scan_ok P (y_disp y) ph"
    "empty_ok P (Dispatch_Close (y_disp y)) ph = empty_ok P (y_disp y) ph" for P ph
    using calculation by (cases ph; simp add: Dispatch_Close_def notifyLocked_def)+
  moreover have "d_states (Dispatch_Close (y_disp y)) = d_states (y_disp y)"
    "d_scanEmpty (Dispatch_Close (y_disp y)) = d_scanEmpty (y_disp y)"
    by (simp_all add: Dispatch_Close_def notifyLocked_def)
  ultimately show ?thesis using inv close by (simp add: sys_inv_def Let_def view_ok_def Dispatch_Close_inv)
next
  case (wake r d' c now wakeAt)
  then have "op_frame (y_disp y) d' \<and> d_states d' = d_states (y_disp y)"
    using sys_inv_disp_inv [OF inv] by (auto simp: wait_select_def intro: op_frame_signal op_frame_refl split: option.splits if_splits)
  with wake(1) sys_inv_quiet [OF inv] show ?thesis by simp
next
  case (crash tail db' d')
  have wf: "stream_wf (db_view (y_db y)) (y_stream y)" using inv by (rule sys_inv_wf)
  then have v: "db_view db' = db_view (y_db y)" and ok: "loaded_ok (db_view db') (s_name (y_stream y)) tail"
    using load_done [OF crash(2)] by (auto simp: stream_wf_def fun_upd_idem)
  have t: "tail = s_tail (y_stream y)"
    using ok wf v by (auto simp: loaded_ok_def stream_wf_def dest: tail_wf_unique)
  have d: "disp_inv d'" "d_states d' = Map.empty" "d_cursor d' = 1" "\<not> d_scanDone d'" "\<not> d_scanEmpty d'"
    using New_inv [OF crash(3)] New_fields [OF crash(3)] by auto
  have cov: "covered d' q \<longleftrightarrow> q = 0" for q using d(3,4) by (simp add: covered_def word_less_1)
  have "view_ok (pending_set (db_view (y_db y)) (y_stream y)) (s_tail (y_stream y)) d'"
    using d cov pending_le_tail [OF wf] by (force simp: view_ok_def)
  with wf crash(1) d(5) show ?thesis by (simp add: sys_inv_def Let_def v t pending_set_def stream_wf_def)
qed

lemma sys_run_inv: "(sys_step B oor newReceipt config)\<^sup>*\<^sup>* y y' \<Longrightarrow> sys_inv db_view y \<Longrightarrow> sys_inv db_view y'"
  by (induction rule: rtranclp_induct) (auto intro: sys_step_inv)

end

section \<open>Opening a stream\<close>

text \<open>A stream just opened: the loaded store and a new dispatcher.\<close>

definition sys_open :: "stream \<Rightarrow> 'db \<Rightarrow> dispatcher \<Rightarrow> 'g \<Rightarrow> ('db, 'g) sys" where
  "sys_open s db d g = \<lparr>y_stream = s, y_db = db, y_disp = d, y_rng = g, y_scan = NoScan, y_owed = 0\<rparr>"

lemma sys_open_inv:
  assumes "stream_wf (db_view db) s" "New False config = Inr d"
  shows "sys_inv db_view (sys_open s db d g)"
proof -
  have d: "disp_inv d" "d_states d = Map.empty" "d_cursor d = 1" "\<not> d_scanDone d" "\<not> d_scanEmpty d"
    using New_inv [OF assms(2)] New_fields [OF assms(2)] by auto
  have cov: "covered d q \<longleftrightarrow> q = 0" for q using d(3,4) by (simp add: covered_def word_less_1)
  have "view_ok (pending_set (db_view db) s) (s_tail s) d"
    using d cov pending_le_tail [OF assms(1)] by (force simp: view_ok_def)
  with assms(1) d(5) show ?thesis by (simp add: sys_inv_def Let_def sys_open_def)
qed

lemma fill_loop_config: "fill_loop recs p d = (p', d') \<Longrightarrow> d_config d' = d_config d"
  by (induction recs p d rule: fill_loop.induct) (auto simp: Let_def split: if_splits)

lemma sys_step_config:
  assumes "sys_step B oor newReceipt config y y'" "disp_inv (y_disp y)" "d_config (y_disp y) = config"
  shows "d_config (y_disp y') = config"
  using assms(1)
proof cases
  case (commit ord now ds r d' db')
  from commit(3) assms(2) commit(2) have "d' = y_disp y \<or> op_frame (y_disp y) d'"
    by (cases rule: Dispatch_Commit_cases) auto
  with commit(1) assms(3) show ?thesis by (auto simp: op_frame_def same_control_def)
next
  case (dead_letter ord now x reason t r d' db')
  from dead_letter(3) assms(2) dead_letter(2) have "op_frame (y_disp y) d'"
    by (cases rule: Dispatch_DeadLetter_cases) auto
  with dead_letter(1) assms(3) show ?thesis by (auto simp: op_frame_def same_control_def)
next
  case (retry ord now ds r d')
  from retry(3) [unfolded Dispatch_Retry_lease] assms(2) retry(2) retrying.delivery_op_axioms retry_keeps
  have "d' = y_disp y \<or> op_frame (y_disp y) d'" by (cases rule: lease_op_cases) auto
  with retry(1) assms(3) show ?thesis by (auto simp: op_frame_def same_control_def)
next
  case (extend ord now e ds r d')
  have "d' = y_disp y \<or> op_frame (y_disp y) d'"
  proof (cases "0 < e")
    case True
    from extend(3) [unfolded Dispatch_Extend_lease [OF True]] assms(2) extend(2) extending [OF True] extend_keeps
    show ?thesis by (cases rule: lease_op_cases) auto
  qed (use extend(3) in \<open>simp add: Dispatch_Extend_def\<close>)
  with extend(1) assms(3) show ?thesis by (auto simp: op_frame_def same_control_def)
next
  case (snapshot ord now st d')
  with Snapshot_frame [OF assms(2)] assms(3) show ?thesis by (auto simp: op_frame_def same_control_def)
next
  case (read ord wanted now out d' g')
  with read_section_frame [OF read(4) assms(2) read(2,3)] assms(3) show ?thesis
    by (simp add: read_frame_def same_scan_def)
next
  case (fill_start lo free d')
  then show ?thesis using assms(3) by (auto simp: fill_begin_def Let_def split: if_splits)
next
  case (fill_finish lo free recs p d')
  then show ?thesis using assms(3) fill_loop_config [of recs False] by (auto simp: fill_end_def split: if_splits)
next
  case (wake r d' c now wakeAt)
  then show ?thesis using assms(3) by (auto simp: wait_select_def split: option.splits if_splits)
next
  case (crash tail db' d')
  then show ?thesis using New_inv by auto
qed (use assms(3) in \<open>simp_all add: Notify_def notifyLocked_def fill_failed_def Dispatch_Close_def\<close>)

section \<open>Other streams\<close>

text \<open>What a step does in the database it does as a step of the store, so it stays within the keys
  of its stream.\<close>

lemma Dispatch_Commit_persist:
  assumes "Dispatch_Commit ord now ds persist d s = (r, d', s')"
  shows "s' = s \<or> (\<exists>seqs e. persist seqs s = (e, s'))"
  using assms by (auto simp: Dispatch_Commit_def Let_def split: if_splits sum.splits prod.splits option.splits)

lemma Dispatch_DeadLetter_persist:
  assumes "Dispatch_DeadLetter ord now x persist d s = (r, d', s')"
  shows "s' = s \<or> (\<exists>seq e. persist seq s = (e, s'))"
  using assms by (auto simp: Dispatch_DeadLetter_def Let_def split: if_splits sum.splits prod.splits option.splits)

lemma store_step_commit: "Commit B s seqs db = (e, db') \<Longrightarrow> \<exists>C'. store_step B (s, db, C) (s, db', C')"
  by (cases e) (blast intro: store_step.commit store_step.commit_fails)+

lemma sys_step_store:
  assumes "sys_step B oor newReceipt config y y'"
  shows "y_stream y' = y_stream y \<and> y_db y' = y_db y
    \<or> (\<exists>C'. store_step B (y_stream y, y_db y, {}) (y_stream y', y_db y', C'))"
  using assms
proof cases
  case (produce ps now recs s' db')
  with store_step.append [OF produce(2,3), of "{}"] show ?thesis by auto
next
  case (produce_fails ps now e s' db')
  with store_step.append [OF produce_fails(2,3), of "{}"] show ?thesis by auto
next
  case (requeue seq rec s' db')
  with store_step.requeue [OF requeue(2), of "{}"] show ?thesis by auto
next
  case (requeue_fails seq e s' db')
  with store_step.requeue_fails [OF requeue_fails(2), of "{}"] show ?thesis by auto
next
  case (commit ord now ds r d' db')
  consider "db' = y_db y" | seqs e where "Commit B (y_stream y) seqs (y_db y) = (e, db')"
    using Dispatch_Commit_persist [OF commit(3)] by blast
  then show ?thesis
  proof cases
    case 2
    with commit(1) store_step_commit [OF 2, of "{}"] show ?thesis by simp
  qed (use commit(1) in simp)
next
  case (dead_letter ord now x reason t r d' db')
  consider "db' = y_db y" | seq e where "DeadLetter B (y_stream y) seq reason t (y_db y) = (e, db')"
    using Dispatch_DeadLetter_persist [OF dead_letter(3)] by blast
  then show ?thesis
  proof cases
    case 2
    with dead_letter(1) store_step.dead_letter [OF 2, of "{}"] show ?thesis by auto
  qed (use dead_letter(1) in simp)
next
  case (crash tail db' d')
  with store_step.restart [OF crash(2), of "{}"] show ?thesis by auto
qed simp_all

lemma store_step_name: "store_step B (s, db, C) (s', db', C') \<Longrightarrow> s_name s' = s_name s"
  by (erule store_stepE)
    (auto simp: AppendBatch_def Requeue_def Let_def split: if_splits sum.splits prod.splits)

lemma same_elsewhere_trans: "same_elsewhere n u v \<Longrightarrow> same_elsewhere n v w \<Longrightarrow> same_elsewhere n u w"
  by (simp add: same_elsewhere_def)

context badger_store
begin

lemma sys_step_elsewhere:
  assumes "sys_step B oor newReceipt config y y'" "sys_inv db_view y"
  shows "same_elsewhere (s_name (y_stream y)) (db_view (y_db y)) (db_view (y_db y')) \<and> s_name (y_stream y') = s_name (y_stream y)"
  using sys_step_store [OF assms(1)] step_elsewhere [OF _ sys_inv_wf [OF assms(2)]] store_step_name by fastforce

lemma sys_run_elsewhere:
  assumes "(sys_step B oor newReceipt config)\<^sup>*\<^sup>* y y'" "sys_inv db_view y"
  shows "same_elsewhere (s_name (y_stream y)) (db_view (y_db y)) (db_view (y_db y')) \<and> s_name (y_stream y') = s_name (y_stream y)"
  using assms(1)
proof (induction rule: rtranclp_induct)
  case (step y1 y2)
  have "sys_inv db_view y1" by (rule sys_run_inv [OF step(1) assms(2)])
  with sys_step_elsewhere [OF step(2)] step.IH show ?case by (metis same_elsewhere_trans)
qed simp

end

end
