(* ===== verification/Reader.thy ===== *)
theory Reader
  imports System
begin

text \<open>
  The loop of \<open>Dispatcher.Read\<close> and the waiting of readers. \<open>Dispatch_Read\<close> runs one reader with
  nothing else interleaved, at a fixed time, until it returns or would have to wait; two rounds
  are enough fuel. The lemmas, inside the \<open>Source\<close> contract \<open>record_source\<close>, say that it waits only when
  nothing can be delivered. \<open>wait_select\<close> and \<open>park_step\<close> model the channel on which several
  readers wait.
\<close>

section \<open>The loop\<close>

datatype read_result = Returned "gerror + delivery list" | Blocked time

fun Dispatch_Read ::
  "nat \<Rightarrow> flight_order \<Rightarrow> ('g \<Rightarrow> (gerror + receipt) \<times> 'g) \<Rightarrow> (u64 \<Rightarrow> int \<Rightarrow> gerror + store_record list)
   \<Rightarrow> int \<Rightarrow> time \<Rightarrow> dispatcher \<Rightarrow> 'g \<Rightarrow> (read_result \<times> dispatcher \<times> 'g) option" where
  "Dispatch_Read 0 ord newReceipt scan wanted now d g = None"
| "Dispatch_Read (Suc fuel) ord newReceipt scan wanted now d g =
     (if wanted \<le> 0 then Some (Returned (Inl (DispatchError DispatchErrInvalidCount)), d, g)
      else case read_section ord newReceipt wanted now d g of
        (ReadReturn r, d, g) \<Rightarrow> Some (Returned r, d, g)
      | (ReadRefill, d, g) \<Rightarrow>
          (case fillFresh scan d of
             (Inl err, d) \<Rightarrow> Some (Returned (Inl err), d, g)
           | (Inr _, d) \<Rightarrow> Dispatch_Read fuel ord newReceipt scan wanted now d g)
      | (ReadIdle wakeAt, d, g) \<Rightarrow>
          (case fillFresh scan d of
             (Inl err, d) \<Rightarrow> Some (Returned (Inl err), d, g)
           | (Inr progress, d) \<Rightarrow>
               if progress then Dispatch_Read fuel ord newReceipt scan wanted now d g
               else Some (Blocked wakeAt, d, g)))"

section \<open>Waiting\<close>

text \<open>Why a reader waits: no slot, or nothing due: the retries lie in the future, and either
  every pending record is leased or waiting to be retried, or the tracking limit is reached.\<close>

definition nothing_due :: "u64 set \<Rightarrow> time \<Rightarrow> dispatcher \<Rightarrow> bool" where
  "nothing_due P now d \<longleftrightarrow>
     int (length (d_inFlight d)) = MaxInFlight (d_config d)
     \<or> (\<forall>x \<in># rh_items (d_retries d). now < qr_readyAt x)
       \<and> ((\<forall>q \<in> P. d_states d q \<in> {Some stateRetry, Some stateInFlight})
          \<or> trackedLimit d \<le> int (length (d_retries d)) + int (length (d_inFlight d)))"

section \<open>Filling without interference\<close>

definition quiet :: "u64 set \<Rightarrow> u64 \<Rightarrow> dispatcher \<Rightarrow> bool" where
  "quiet P tail d \<longleftrightarrow> view_ok P tail d \<and> (d_scanEmpty d \<longrightarrow> (\<forall>q \<in> P. covered d q)) \<and> (\<forall>q \<in> P. q \<le> tail)"

text \<open>No scan would bring anything, or there is no room for it.\<close>

definition settled :: "dispatcher \<Rightarrow> bool" where
  "settled d \<longleftrightarrow> d_closed d \<or> d_scanDone d \<or> d_scanEmpty d
     \<or> PrefetchCapacity (d_config d) \<le> int (length (d_fresh d))"

lemma fill_begin_None_iff: "fst (fill_begin d) = None \<longleftrightarrow> settled d"
  by (auto simp: fill_begin_def settled_def Let_def)

lemma settled_fill: "settled d \<Longrightarrow> fillFresh scan d = (Inr False, d)"
  by (auto simp: fillFresh_def fill_begin_def settled_def Let_def)

lemma quiet_read:
  assumes "quiet P tail d" "read_frame d d'"
  shows "quiet P tail d'"
proof -
  have "covered d' q \<longleftrightarrow> covered d q" for q using assms(2) by (simp add: covered_def read_frame_def same_scan_def)
  with assms show ?thesis by (simp add: quiet_def view_ok_def read_frame_def same_scan_def)
qed

text \<open>What a reader hands out at a time: different receipts, each in flight as the delivery says until one
  visibility timeout later.\<close>

definition fresh_leases :: "time \<Rightarrow> dispatcher \<Rightarrow> delivery list \<Rightarrow> bool" where
  "fresh_leases now d ds \<longleftrightarrow> distinct (map dl_Receipt ds)
     \<and> (\<forall>x \<in> set ds. map_of (d_inFlight d) (dl_Receipt x) = Some (snd (flight_of x))
          \<and> dl_Deadline x = now + VisibilityTimeout (d_config d))"

text \<open>The result of a reader's loop: it keeps the invariant, returns leased deliveries, and when it has
  to wait nothing is due.\<close>

definition read_ok :: "u64 set \<Rightarrow> u64 \<Rightarrow> int \<Rightarrow> time \<Rightarrow> read_result \<Rightarrow> dispatcher \<Rightarrow> bool" where
  "read_ok P tail wanted now r d' \<longleftrightarrow> quiet P tail d'
     \<and> (case r of Blocked wake \<Rightarrow> nothing_due P now d'
        | Returned (Inr ds) \<Rightarrow> ds \<noteq> [] \<and> int (length ds) \<le> wanted \<and> fresh_leases now d' ds
        | Returned (Inl e) \<Rightarrow> True)"

lemma take_done_leases:
  assumes "take_done now d ds d'"
  shows "fresh_leases now d' ds"
proof -
  have fl: "d_inFlight d' = d_inFlight d @ map flight_of ds" and dk: "distinct (keys (d_inFlight d'))"
    and cf: "d_config d' = d_config d" and dl: "\<forall>x \<in> set ds. dl_Deadline x = now + VisibilityTimeout (d_config d)"
    using assms unfolding take_done_def disp_inv_def flights_ok_def same_scan_def by blast+
  have "map fst (map flight_of ds) = map dl_Receipt ds" by (simp add: flight_of_def)
  then have "distinct (map dl_Receipt ds)" using dk fl by (metis distinct_append map_append)
  moreover have "map_of (d_inFlight d') (dl_Receipt x) = Some (snd (flight_of x))" if "x \<in> set ds" for x
    using dk fl that by (intro map_of_is_SomeI) (auto simp: flight_of_def intro: rev_image_eqI)
  ultimately show ?thesis using cf dl by (simp add: fresh_leases_def)
qed

context record_source
begin

lemma fillFresh_quiet:
  assumes st: "ok st" and q: "quiet (dom (pending st)) tail d" and run: "fillFresh (scan st) d = (r, d')"
  shows "quiet (dom (pending st)) tail d' \<and> (d_closed d' = d_closed d)
    \<and> (case r of Inl e \<Rightarrow> True
       | Inr p \<Rightarrow> settled d' \<and> (\<not> p \<longrightarrow> d_fresh d' = d_fresh d) \<and> d_retries d' = d_retries d
           \<and> d_inFlight d' = d_inFlight d \<and> d_config d' = d_config d)"
proof (cases "settled d")
  case True
  with run settled_fill [OF True] q show ?thesis by auto
next
  case ns: False
  let ?P = "dom (pending st)" and ?free = "PrefetchCapacity (d_config d) - int (length (d_fresh d))"
  let ?d = "d\<lparr>d_scanEmpty := True\<rparr>" and ?lo = "d_cursor d"
  have b: "fill_begin d = (Some (?lo, ?free), ?d)" "0 < ?free" "\<not> d_scanDone d" "\<not> d_closed d"
    using ns by (auto simp: fill_begin_def settled_def Let_def)
  have v: "view_ok ?P tail d" "\<forall>x \<in> ?P. x \<le> tail" using q by (simp_all add: quiet_def)
  have cov: "covered d x \<longleftrightarrow> x < ?lo" for x using b(3) by (simp add: covered_def)
  show ?thesis
  proof (cases "scan st ?lo ?free")
    case (Inl e)
    then have r: "r = Inl e" "d' = d\<lparr>d_scanEmpty := False\<rparr>" using run b by (simp_all add: fillFresh_def fill_failed_def)
    have "covered d' = covered d" by (simp add: r covered_def fun_eq_iff)
    then have "quiet ?P tail d'" using q by (simp add: quiet_def view_ok_def r)
    with r show ?thesis by simp
  next
    case (Inr recs)
    obtain p where f: "fill_end ?free recs ?d = (p, d')" and r: "r = Inr p"
      using run b Inr by (auto simp: fillFresh_def split: prod.splits)
    define d0 where "d0 = (if int (length recs) = ?free then ?d\<lparr>d_scanEmpty := False\<rparr> else ?d)"
    have d0: "disp_inv d0" "d_cursor d0 = ?lo" "d_scanDone d0 = d_scanDone d" "d_fresh d0 = d_fresh d"
      "d_config d0 = d_config d" "d_states d0 = d_states d" "d_closed d0 = d_closed d" "d_retries d0 = d_retries d"
      "d_inFlight d0 = d_inFlight d" "d_scanEmpty d0 \<longleftrightarrow> int (length recs) \<noteq> ?free"
      using v by (simp_all add: d0_def view_ok_def)
    then have cov0: "covered d0 = covered d" by (simp add: covered_def fun_eq_iff)
    note s = scan_strict [OF st Inr] scan_length [OF st Inr]
    have sound: "?lo \<le> r_Seq x \<and> r_Seq x \<in> ?P" if "x \<in> set recs" for x using scan_sound [OF st Inr that] .
    have fl: "fill_loop recs False d0 = (p, d')" using f by (simp add: fill_end_def d0_def)
    have post: "fill_post recs d0 d' \<and> p = (False \<or> recs \<noteq> [])"
      by (rule fill_loop_correct [OF fl d0(1) s(1)]) (use sound d0 b s(2) in auto)
    then have dom: "dom (d_states d') = dom (d_states d) \<union> r_Seq ` set recs"
      and cov': "\<And>x. covered d' x \<longleftrightarrow> covered d x \<or> (\<exists>y \<in> set recs. x \<le> r_Seq y)"
      and se: "d_scanEmpty d' \<longleftrightarrow> int (length recs) \<noteq> ?free" and di: "disp_inv d'"
      using d0 cov0 unfolding fill_post_def by simp_all
    have sub: "x \<in> r_Seq ` set recs" if "x \<in> ?P" "?lo \<le> x" "int (length recs) < ?free \<or> (\<exists>y \<in> set recs. x \<le> r_Seq y)" for x
      using scan_complete [OF st Inr that] .
    have "dom (d_states d') = {x \<in> ?P. covered d' x}"
    proof (intro equalityI subsetI)
      fix x assume "x \<in> dom (d_states d')"
      then show "x \<in> {x \<in> ?P. covered d' x}" using dom v(1) sound cov' unfolding view_ok_def by auto
    next
      fix x assume x: "x \<in> {x \<in> ?P. covered d' x}"
      show "x \<in> dom (d_states d')"
      proof (cases "x < ?lo")
        case True
        with x v(1) cov dom show ?thesis unfolding view_ok_def by blast
      next
        case False
        with x cov' cov sub dom show ?thesis by (auto simp: not_less)
      qed
    qed
    moreover have "x \<le> tail" if "covered d' x" for x
    proof -
      from that cov' consider "covered d x" | y where "y \<in> set recs" "x \<le> r_Seq y" by blast
      then show ?thesis using v sound unfolding view_ok_def by cases (blast, meson order_trans)
    qed
    moreover have "\<forall>x \<in> ?P. covered d' x" if "d_scanEmpty d'"
    proof
      fix x assume x: "x \<in> ?P"
      have "int (length recs) < ?free" using that se s(2) by simp
      then have "x < ?lo \<or> x \<in> r_Seq ` set recs" using sub [OF x] not_less by blast
      then show "covered d' x" using cov' cov by auto
    qed
    ultimately have "quiet ?P tail d'" using di v(2) by (simp add: quiet_def view_ok_def)
    moreover have "settled d'"
      using post se d0 s(2) b(2) unfolding settled_def fill_post_def by auto
    ultimately show ?thesis using post r d0 unfolding fill_post_def by auto
  qed
qed

text \<open>A round of the loop that neither returned nor made progress.\<close>

lemma idle_nothing_due:
  assumes st: "ok st" and q: "quiet (dom (pending st)) tail d" and inv: "disp_inv d"
    and take: "takeLocked newReceipt wanted now d g = (Inr [], d, g)" "0 < wanted"
    and fill: "fillFresh (scan st) (d\<lparr>d_stats := x\<rparr>) = (Inr False, d')" and op: "\<not> d_closed d"
  shows "nothing_due (dom (pending st)) now d'"
proof -
  let ?P = "dom (pending st)" and ?d = "d\<lparr>d_stats := x\<rparr>"
  have "covered ?d = covered d" by (simp add: covered_def fun_eq_iff)
  then have "quiet ?P tail ?d" using q by (simp add: quiet_def view_ok_def)
  from fillFresh_quiet [OF st this fill] have q': "quiet ?P tail d'" and se: "settled d'" and cl: "d_closed d' = d_closed d"
    and same: "d_fresh d' = d_fresh d" "d_retries d' = d_retries d" "d_inFlight d' = d_inFlight d" "d_config d' = d_config d"
    by simp_all
  have di: "disp_inv d'" using q' by (simp add: quiet_def view_ok_def)
  show ?thesis
  proof (cases "int (length (d_inFlight d)) < MaxInFlight (d_config d)")
    case False
    with inv same show ?thesis by (auto simp: nothing_due_def disp_inv_def bounds_ok_def)
  next
    case True
    with takeLocked_progress [OF take] have no: "\<not> retryReady now d" "\<not> freshReady d" by blast+
    have rt: "now < qr_readyAt y" if y: "y \<in># rh_items (d_retries d)" for y
    proof -
      have "d_retries d \<noteq> []" using y by auto
      with no(1) have "now < qr_readyAt (hd (d_retries d))" by (simp add: retryReady_def)
      moreover have "retry_key (unindex (hd (d_retries d))) \<le> retry_key y"
        using inv y retry_queue.top_least by (simp add: disp_inv_def)
      ultimately show ?thesis by (auto simp: retry_key_def)
    qed
    show ?thesis
    proof (cases "d_fresh d = []")
      case False
      with no(2) rt same show ?thesis by (simp add: nothing_due_def freshReady_def trackedLimit_def)
    next
      case fr: True
      have cap: "0 < PrefetchCapacity (d_config d')" using di by (simp add: disp_inv_def config_ok_def)
      have "d_states d' z \<in> {Some stateRetry, Some stateInFlight}" if z: "z \<in> ?P" for z
      proof -
        have "covered d' z" using se z fr same(1) cap q' cl op by (auto simp: settled_def quiet_def covered_def)
        then obtain l where l: "d_states d' z = Some l" using q' z unfolding quiet_def view_ok_def by blast
        moreover have "l \<noteq> stateFresh"
        proof
          assume "l = stateFresh"
          moreover have "tracks d'" using di by (simp add: disp_inv_def)
          ultimately have "z \<in># lane d' stateFresh" using l tracks_mem by blast
          with fr same(1) show False by simp
        qed
        ultimately show ?thesis by (cases l) auto
      qed
      then show ?thesis using rt same(2) by (simp add: nothing_due_def)
    qed
  qed
qed

lemma settled_no_refill:
  assumes "settled d" "disp_inv d" "any_order ord" "0 < wanted"
  shows "fst (read_section ord newReceipt wanted now d g) \<noteq> ReadRefill"
proof -
  obtain out d' g' where run: "read_section ord newReceipt wanted now d g = (out, d', g')"
    by (cases "read_section ord newReceipt wanted now d g")
  from run assms(2-4) have "out \<noteq> ReadRefill"
  proof (cases rule: read_section_cases)
    case refill
    have "d_config (expireLocked ord now d) = d_config d" "d_fresh (expireLocked ord now d) = d_fresh d"
      using expireLocked_correct [OF assms(2,3), of now] by (simp_all add: expire_result_def same_control_def)
    moreover have "0 < PrefetchCapacity (d_config d)" using assms(2) by (simp add: disp_inv_def config_ok_def)
    ultimately show ?thesis using refill assms(1) by (auto simp: settled_def)
  qed simp_all
  with run show ?thesis by simp
qed

lemma read_round:
  assumes st: "ok st" and q: "quiet (dom (pending st)) tail d" and ord: "any_order ord" and w: "0 < wanted"
    and run: "read_section ord newReceipt wanted now d g = (out, d1, g1)"
  shows "case out of
      ReadReturn r \<Rightarrow> read_ok (dom (pending st)) tail wanted now (Returned r) d1
    | ReadRefill \<Rightarrow> \<not> settled d \<and> (case fillFresh (scan st) d1 of
          (Inl e, d2) \<Rightarrow> read_ok (dom (pending st)) tail wanted now (Returned (Inl e)) d2
        | (Inr p, d2) \<Rightarrow> quiet (dom (pending st)) tail d2 \<and> settled d2)
    | ReadIdle wake \<Rightarrow> (case fillFresh (scan st) d1 of
          (Inl e, d2) \<Rightarrow> read_ok (dom (pending st)) tail wanted now (Returned (Inl e)) d2
        | (Inr p, d2) \<Rightarrow> quiet (dom (pending st)) tail d2 \<and> settled d2 \<and> (settled d \<longrightarrow> \<not> p)
            \<and> (\<not> p \<longrightarrow> read_ok (dom (pending st)) tail wanted now (Blocked wake) d2))"
proof -
  have inv: "disp_inv d" using q by (simp add: quiet_def view_ok_def)
  have fr: "read_frame d d1" by (rule read_section_frame [OF run inv ord w])
  have q1: "quiet (dom (pending st)) tail d1" by (rule quiet_read [OF q fr])
  from run inv ord w show ?thesis
  proof (cases rule: read_section_cases)
    case closed
    with q show ?thesis by (simp add: read_ok_def)
  next
    case refill
    then have "\<not> settled d" using settled_no_refill [OF _ inv ord w, of newReceipt now g] run by auto
    with refill(2) fillFresh_quiet [OF st q1] show ?thesis
      by (auto simp: read_ok_def split: prod.splits sum.splits)
  next
    case (failed e)
    with q1 show ?thesis by (simp add: read_ok_def)
  next
    case (taken ds)
    with q1 take_done_leases show ?thesis by (auto simp: read_ok_def)
  next
    case (idle dx)
    obtain x where x: "d1 = dx\<lparr>d_stats := x\<rparr>" using idle(4) by blast
    have invx: "disp_inv dx" "\<not> d_closed dx"
      using expire_read_frame [OF inv ord, of now] idle(1,2) by (simp_all add: read_frame_def same_scan_def)
    have qx: "quiet (dom (pending st)) tail dx" using quiet_read [OF q expire_read_frame [OF inv ord]] idle(2) by simp
    obtain r d2 where f: "fillFresh (scan st) d1 = (r, d2)" by fastforce
    note fq = fillFresh_quiet [OF st q1 f]
    have "settled d1" if "settled d"
    proof -
      have "d_fresh d1 = d_fresh d"
        using expireLocked_correct [OF inv ord, of now] idle(2) x by (simp add: expire_result_def same_control_def)
      then show ?thesis using that fr by (auto simp: settled_def read_frame_def same_scan_def)
    qed
    then have np: "settled d \<Longrightarrow> r = Inr False" using settled_fill f by auto
    have "nothing_due (dom (pending st)) now d2" if "r = Inr False"
      using idle_nothing_due [OF st qx invx(1) idle(6) w _ invx(2)] f x that by simp
    with fq idle(3) f np show ?thesis by (auto simp: read_ok_def split: sum.splits)
  qed
qed

lemma Dispatch_Read_settled:
  assumes st: "ok st" and q: "quiet (dom (pending st)) tail d" and ord: "any_order ord" and w: "0 < wanted"
    and s: "settled d"
  shows "\<exists>r d' g'. Dispatch_Read (Suc n) ord newReceipt (scan st) wanted now d g = Some (r, d', g')
     \<and> read_ok (dom (pending st)) tail wanted now r d'"
proof -
  obtain out d1 g1 where run: "read_section ord newReceipt wanted now d g = (out, d1, g1)"
    by (cases "read_section ord newReceipt wanted now d g")
  note rr = read_round [OF st q ord w run]
  show ?thesis
  proof (cases out)
    case (ReadReturn r)
    with run rr w show ?thesis by simp
  next
    case ReadRefill
    with rr s show ?thesis by simp
  next
    case (ReadIdle wake)
    with run rr w s show ?thesis by (auto split: prod.splits sum.splits)
  qed
qed

lemma Dispatch_Read_correct:
  assumes st: "ok st" and q: "quiet (dom (pending st)) tail d" and ord: "any_order ord" and w: "0 < wanted"
  shows "\<exists>r d' g'. Dispatch_Read (Suc (Suc n)) ord newReceipt (scan st) wanted now d g = Some (r, d', g')
     \<and> read_ok (dom (pending st)) tail wanted now r d'"
proof -
  obtain out d1 g1 where run: "read_section ord newReceipt wanted now d g = (out, d1, g1)"
    by (cases "read_section ord newReceipt wanted now d g")
  note rr = read_round [OF st q ord w run]
  obtain fr d2 where f: "fillFresh (scan st) d1 = (fr, d2)" by fastforce
  note again = Dispatch_Read_settled [OF st _ ord w, where n = n and d = d2 and g = g1 and newReceipt = newReceipt and now = now and tail = tail]
  show ?thesis
  proof (cases out)
    case (ReadReturn r)
    with run rr w show ?thesis by simp
  next
    case ReadRefill
    with run rr w f again show ?thesis by (cases fr) (auto simp del: Dispatch_Read.simps(2) simp add: Dispatch_Read.simps(2) [of "Suc n"])
  next
    case (ReadIdle wake)
    with run rr w f again show ?thesis by (cases fr) (auto simp del: Dispatch_Read.simps(2) simp add: Dispatch_Read.simps(2) [of "Suc n"])
  qed
qed

end

text \<open>The store provides this contract.\<close>

context badger_store
begin

lemma store_read_correct:
  assumes "stream_wf (db_view db) s" "quiet (pending_set (db_view db) s) tail d" "any_order ord" "0 < wanted"
  shows "\<exists>r d' g'. Dispatch_Read (Suc (Suc n)) ord newReceipt (ScanBatch B (s_name s) db) wanted now d g = Some (r, d', g')
     \<and> read_ok (pending_set (db_view db) s) tail wanted now r d'"
  using source.Dispatch_Read_correct [of "(s, db)" tail d ord wanted n newReceipt now g] assms
  by (simp add: pending_set_def)

end

section \<open>Several readers\<close>

text \<open>Readers parked in \<open>wait\<close> with no wake time and a live context. A step lets one of them
  receive from the channel and run its loop until it returns or parks again. Nothing on this path
  puts a token back.\<close>

inductive park_step ::
  "flight_order \<Rightarrow> ('g \<Rightarrow> (gerror + receipt) \<times> 'g) \<Rightarrow> (u64 \<Rightarrow> int \<Rightarrow> gerror + store_record list)
   \<Rightarrow> dispatcher \<times> nat \<times> 'g \<Rightarrow> dispatcher \<times> nat \<times> 'g \<Rightarrow> bool" for ord newReceipt scan where
  returns: "(None, d') \<in> set (wait_select None now zeroTime d) \<Longrightarrow>
     Dispatch_Read fuel ord newReceipt scan wanted now d' g = Some (Returned r, d'', g') \<Longrightarrow>
     park_step ord newReceipt scan (d, Suc n, g) (d'', n, g')"
| parks_again: "(None, d') \<in> set (wait_select None now zeroTime d) \<Longrightarrow>
     Dispatch_Read fuel ord newReceipt scan wanted now d' g = Some (Blocked zeroTime, d'', g') \<Longrightarrow>
     park_step ord newReceipt scan (d, Suc n, g) (d'', Suc n, g')"

lemma expire_loop_signal: "d_signal (snd (expire_loop now L e d)) = d_signal d \<and> d_closed (snd (expire_loop now L e d)) = d_closed d"
proof (induction L arbitrary: e d)
  case (Cons p L)
  then show ?case by (simp add: expire_loop_Cons expire_step_def flight_to_retry_def Let_def disp_simps)
qed simp

lemma expireLocked_signal: "d_signal (expireLocked ord now d) = d_signal d \<and> d_closed (expireLocked ord now d) = d_closed d"
  using expire_loop_signal [of now "ord (d_inFlight d)" farFuture d]
  by (cases "expire_loop now (ord (d_inFlight d)) farFuture d") (simp add: expireLocked_def)

lemma rollback_signal: "d_signal (rollbackSelectionLocked cs p d) = d_signal d \<and> d_closed (rollbackSelectionLocked cs p d) = d_closed d"
proof -
  have "d_signal (fold rollback_one cs d) = d_signal d \<and> d_closed (fold rollback_one cs d) = d_closed d" for d
    by (induction cs arbitrary: d) (simp_all add: rollback_one_def Let_def)
  then show ?thesis by (simp add: rollbackSelectionLocked_def Let_def)
qed

lemma select_item_signal: "select_item now d = (item, st, d') \<Longrightarrow> d_signal d' = d_signal d \<and> d_closed d' = d_closed d"
  by (auto simp: select_item_def popRetryLocked_def popFreshLocked_def split: prod.splits if_splits)

lemma lease_item_signal: "lease_item now r item d = (x, d') \<Longrightarrow> d_signal d' = d_signal d \<and> d_closed d' = d_closed d"
  by (auto simp: lease_item_def Let_def)

lemma take_loop_signal:
  "take_loop newReceipt now pref n rs d g = (r, d', g') \<Longrightarrow> d_signal d' = d_signal d \<and> d_closed d' = d_closed d"
proof (induction n arbitrary: rs d g r d' g')
  case (Suc n)
  show ?case
  proof (cases "\<not> retryReady now d \<and> \<not> freshReady d")
    case True
    with Suc.prems show ?thesis by simp
  next
    case ready: False
    obtain u g1 where u: "uniqueReceiptLocked newReceipt d g = (u, g1)" by fastforce
    show ?thesis
    proof (cases u)
      case (Inl e)
      with Suc.prems ready u show ?thesis by (auto simp: rollback_signal)
    next
      case (Inr rc)
      obtain item st d1 where s: "select_item now d = (item, st, d1)" by (rule prod_cases3)
      obtain x d2 where l: "lease_item now rc item d1 = (x, d2)" by fastforce
      obtain r3 d3 g3 where t: "take_loop newReceipt now pref n
          (\<lparr>sel_item = item, sel_previousState = st, sel_receipt = rc\<rparr> # rs) d2 g1 = (r3, d3, g3)"
        by (rule prod_cases3)
      have "d' = d3" using Suc.prems ready u Inr s l t by (auto split: sum.splits)
      then show ?thesis
        using Suc.IH [OF t] select_item_signal [OF s] lease_item_signal [OF l] by simp
    qed
  qed
qed simp

lemma read_section_signal:
  assumes "read_section ord newReceipt wanted now d g = (out, d', g')"
  shows "d_signal d' = d_signal d \<and> d_closed d' = d_closed d"
proof -
  let ?d = "expireLocked ord now d"
  obtain r d1 g1 where t: "takeLocked newReceipt wanted now ?d g = (r, d1, g1)" by (rule prod_cases3)
  have "d_signal d1 = d_signal d \<and> d_closed d1 = d_closed d"
    using take_loop_signal [OF t [unfolded takeLocked_def]] by (simp add: expireLocked_signal)
  with assms t show ?thesis
    by (auto simp: read_section_def Let_def expireLocked_signal split: if_splits sum.splits)
qed

lemma fill_loop_signal: "d_signal (snd (fill_loop recs p d)) = d_signal d \<and> d_closed (snd (fill_loop recs p d)) = d_closed d"
  by (induction recs p d rule: fill_loop.induct) (simp_all add: Let_def)

lemma fillFresh_signal:
  assumes "fillFresh scan d = (r, d')"
  shows "d_signal d' = d_signal d \<and> d_closed d' = d_closed d"
proof -
  obtain o1 d1 where b: "fill_begin d = (o1, d1)" by fastforce
  then have d1: "d_signal d1 = d_signal d \<and> d_closed d1 = d_closed d" by (auto simp: fill_begin_def Let_def split: if_splits)
  have e: "d_signal (snd (fill_end free recs d1)) = d_signal d \<and> d_closed (snd (fill_end free recs d1)) = d_closed d" for free recs
    using d1 fill_loop_signal [of recs False] by (simp add: fill_end_def)
  show ?thesis
  proof (cases o1)
    case None
    with assms b d1 show ?thesis by (simp add: fillFresh_def)
  next
    case (Some a)
    then obtain lo free where a: "o1 = Some (lo, free)" by (cases a) simp
    show ?thesis
    proof (cases "scan lo free")
      case (Inl e)
      with assms b d1 a show ?thesis by (auto simp: fillFresh_def fill_failed_def)
    next
      case (Inr recs)
      with assms b a e [of free recs] show ?thesis
        by (cases "fill_end free recs d1") (auto simp: fillFresh_def)
    qed
  qed
qed

lemma Dispatch_Read_signal:
  "Dispatch_Read fuel ord newReceipt scan wanted now d g = Some (r, d', g') \<Longrightarrow> d_signal d' = d_signal d \<and> d_closed d' = d_closed d"
proof (induction fuel arbitrary: d g)
  case (Suc fuel)
  obtain out d1 g1 where run: "read_section ord newReceipt wanted now d g = (out, d1, g1)" by (rule prod_cases3)
  obtain fr d2 where f: "fillFresh scan d1 = (fr, d2)" by fastforce
  note sig = read_section_signal [OF run] fillFresh_signal [OF f]
  show ?case
    using Suc.prems run f sig Suc.IH [of d2 g1]
    by (cases out; cases fr) (auto split: if_splits)
qed simp

text \<open>A read fails only when the dispatcher is closed, when no receipt can be made, or when the
  scan fails.\<close>

lemma unique_error:
  "uniqueReceiptLocked newReceipt d g = (Inl err, g') \<Longrightarrow>
     err = ErrorText ''receipt collision limit reached'' \<or> (\<exists>gx gy. newReceipt gx = (Inl err, gy))"
proof -
  have "err = ErrorText ''receipt collision limit reached'' \<or> (\<exists>gx gy. newReceipt gx = (Inl err, gy))"
    if "unique_loop newReceipt n d g = (Inl err, g')" for n
    using that by (induction n arbitrary: g) (auto split: prod.splits sum.splits if_splits)
  then show "uniqueReceiptLocked newReceipt d g = (Inl err, g') \<Longrightarrow> ?thesis" by (simp add: uniqueReceiptLocked_def)
qed

lemma take_loop_error:
  assumes "take_loop newReceipt now pref n rs d g = (Inl e, d', g')"
  shows "\<exists>err dx gx gy. e = Errorf [err] \<and> uniqueReceiptLocked newReceipt dx gx = (Inl err, gy)"
  using assms
proof (induction n arbitrary: rs d g)
  case (Suc n)
  show ?case
  proof (cases "uniqueReceiptLocked newReceipt d g")
    case (Pair u g1)
    show ?thesis
    proof (cases u)
      case (Inl err)
      with Suc.prems Pair show ?thesis by (auto split: if_splits)
    next
      case (Inr rc)
      with Suc.prems Pair show ?thesis by (auto split: if_splits prod.splits sum.splits dest!: Suc.IH)
    qed
  qed
qed simp

definition read_error :: "('g \<Rightarrow> (gerror + receipt) \<times> 'g) \<Rightarrow> (u64 \<Rightarrow> int \<Rightarrow> gerror + store_record list) \<Rightarrow> dispatcher \<Rightarrow> gerror \<Rightarrow> bool" where
  "read_error newReceipt scan d e \<longleftrightarrow>
     e = DispatchError DispatchErrClosed \<and> d_closed d
     \<or> (\<exists>err dx gx gy. e = Errorf [err] \<and> uniqueReceiptLocked newReceipt dx gx = (Inl err, gy))
     \<or> (\<exists>lo limit. 0 < limit \<and> scan lo limit = Inl e)"

lemma read_section_error:
  assumes "read_section ord newReceipt wanted now d g = (ReadReturn (Inl e), d', g')"
  shows "read_error newReceipt scan d e"
  using assms take_loop_error [of newReceipt now]
  by (auto simp: read_section_def read_error_def takeLocked_def Let_def split: if_splits prod.splits sum.splits)

lemma fillFresh_error: "fillFresh scan d = (Inl e, d') \<Longrightarrow> \<exists>lo limit. 0 < limit \<and> scan lo limit = Inl e"
  by (auto simp: fillFresh_def fill_begin_def Let_def split: prod.splits sum.splits option.splits if_splits)
    (meson diff_gt_0_iff_gt not_le)

lemma Dispatch_Read_error:
  "Dispatch_Read fuel ord newReceipt scan wanted now d g = Some (Returned (Inl e), d', g') \<Longrightarrow> 0 < wanted \<Longrightarrow>
     read_error newReceipt scan d e"
proof (induction fuel arbitrary: d g)
  case (Suc fuel)
  obtain out d1 g1 where run: "read_section ord newReceipt wanted now d g = (out, d1, g1)" by (rule prod_cases3)
  obtain fr d2 where f: "fillFresh scan d1 = (fr, d2)" by fastforce
  have same: "d_closed d2 = d_closed d" using read_section_signal [OF run] fillFresh_signal [OF f] by simp
  have IH: "read_error newReceipt scan d e" if "Dispatch_Read fuel ord newReceipt scan wanted now d2 g1 = Some (Returned (Inl e), d', g')"
    using Suc.IH [OF that Suc.prems(2)] same by (simp add: read_error_def)
  show ?case
    using Suc.prems run f IH read_section_error [of ord newReceipt wanted now d g e d1 g1] fillFresh_error [of scan d1 e d2]
    by (cases out; cases fr) (auto simp: read_error_def split: if_splits)
qed simp

text \<open>A reader that wakes up to a closed dispatcher returns its error.\<close>

lemma Dispatch_Read_closed:
  assumes "d_closed d" "Dispatch_Read fuel ord newReceipt scan wanted now d g = Some (r, d', g')"
  shows "(\<exists>e. r = Returned (Inl e)) \<and> d' = d \<and> g' = g"
  using assms by (cases fuel) (auto simp: read_section_def split: if_splits)

inductive_cases park_stepE [elim]: "park_step ord newReceipt scan (d, n, g) (d', k, g')"

text \<open>What a token is worth: one step of a parked reader consumes it, so at most one reader
  returns and then nobody moves.\<close>

definition token :: "dispatcher \<Rightarrow> nat" where
  "token d = (if d_signal d then 1 else 0)"

lemma park_step_token:
  assumes "park_step ord newReceipt scan (d, n, g) (d', k, g')"
  shows "n + token d' \<le> k + token d \<and> 0 < token d \<and> token d' = 0"
  using assms by cases (auto simp: wait_select_def token_def dest!: Dispatch_Read_signal split: if_splits)

lemma park_steps_token:
  assumes "(park_step ord newReceipt scan)\<^sup>*\<^sup>* (d, n, g) (d', k, g')"
  shows "n + token d' \<le> k + token d"
  using assms
proof (induction "(d', k, g')" arbitrary: d' k g' rule: rtranclp_induct)
  case (step y)
  obtain d1 n1 g1 where "y = (d1, n1, g1)" by (rule prod_cases3)
  with step park_step_token [of ord newReceipt scan d1 n1 g1 d' k g'] show ?case by fastforce
qed simp

lemma park_stuck: "\<not> d_signal d \<Longrightarrow> \<not> park_step ord newReceipt scan (d, n, g) x"
  using park_step_token [of ord newReceipt scan d n g] by (cases x) (auto simp: token_def)

end
