(* ===== verification/Dispatch_Props.thy ===== *)
theory Dispatch_Props
  imports Reader Store_Props
begin

text \<open>
  The properties of the dispatcher, alone and together with the store, with their witnesses. The
  demonstration dispatcher \<open>demo_disp\<close> serves the demonstration stream of the store:
  \<open>demo_fresh\<close> has scanned its one record, \<open>demo_leased\<close> has leased it under receipt 7 at time
  100 until 110, and \<open>demo_full\<close> has a lease, no free slot and a retry that is due.
\<close>

section \<open>Demonstration states\<close>

definition demo_config :: dconfig where
  "demo_config = \<lparr>PrefetchCapacity = 4, MaxInFlight = 2, VisibilityTimeout = 10, RetryInitial = 3,
     RetryMax = 20, RetryMultiplier = Fin 2\<rparr>"

definition demo_disp :: dispatcher where
  "demo_disp = projr (New False demo_config)"

definition demo_gen :: "receipt \<Rightarrow> (gerror + receipt) \<times> receipt" where
  "demo_gen g = (Inr g, g + 1)"

definition demo_record :: store_record where
  "demo_record = \<lparr>r_Seq = 1, r_CreatedAt = 5, r_OriginStream = [], r_OriginSeq = 0, r_Payload = [7]\<rparr>"

definition demo_delivery :: delivery where
  "demo_delivery = \<lparr>dl_Record = demo_record, dl_Receipt = 7, dl_Attempt = 1, dl_Deadline = 110\<rparr>"

definition demo_leased :: dispatcher where
  "demo_leased = demo_disp\<lparr>d_cursor := 2, d_scanEmpty := True, d_states := [1 \<mapsto> stateInFlight],
     d_inFlight := [(7, \<lparr>f_record = demo_record, f_receipt = 7, f_attempt = 1, f_deadline = 110\<rparr>)],
     d_stats := zero_stats\<lparr>st_Deliveries := 1\<rparr>, d_expireAt := 110\<rparr>"

lemma demo_config_ok: "config_ok demo_config"
  by (simp add: demo_config_def config_ok_def)

lemma demo_disp_eq:
  "demo_disp = \<lparr>d_config = demo_config, d_closed = False, d_cursor = 1, d_scanDone = False,
                d_scanEmpty = False, d_fresh = [], d_retries = [], d_inFlight = [],
                d_states = Map.empty, d_preferRetry = False, d_signal = False,
                d_stats = zero_stats, d_expireAt = zeroTime\<rparr>"
  by (simp add: demo_disp_def New_def demo_config_def)

lemma demo_New: "New False demo_config = Inr demo_disp"
  by (simp add: demo_disp_def New_def demo_config_def)

lemmas disp_eval = read_section_def expireLocked_def takeLocked_def takeCount_def nextWakeLocked_def
  fillFresh_def fill_begin_def fill_end_def zeroTime_def farFuture_def zero_stats_def Let_def
  select_item_def lease_item_def retryReady_def freshReady_def trackedLimit_def wrap_int_def
  popFreshLocked_def popRetryLocked_def validateLocked_def notifyLocked_def push_retry_def

lemma demo_unique:
  assumes "g \<notin> set (keys (d_inFlight d))"
  shows "uniqueReceiptLocked demo_gen d g = (Inr g, g + 1)"
proof -
  have "unique_loop demo_gen (Suc n) d g = (Inr g, g + 1)" for n using assms by (simp add: demo_gen_def)
  from this [of 15] show ?thesis by (simp add: uniqueReceiptLocked_def receiptCollisionLimit_def)
qed

lemma demo_read:
  "Dispatch_Read 3 id demo_gen (ScanBatch mem_badger (s_name demo_stream1) demo_db1) 1 100 demo_disp 7 =
     Some (Returned (Inr [demo_delivery]), demo_leased, 8)"
  unfolding demo_db1_eval
  by (simp add: numeral_3_eq_3 disp_eval demo_disp_eq demo_config_def decode_eval eval_simps demo_stream1_def demo_stream_def
  demo_unique demo_leased_def demo_delivery_def demo_record_def)


lemma demo_scan4: "ScanBatch mem_badger (s_name demo_stream1) demo_db1 1 4 = Inr [demo_record]"
  unfolding demo_db1_eval
  by (simp add: decode_eval eval_simps demo_stream1_def demo_stream_def demo_record_def)

lemmas demo_leased_eval = demo_leased_def demo_disp_eq demo_config_def demo_record_def demo_delivery_def

section \<open>The stream as a whole\<close>

definition demo_open :: "(kv, receipt) sys" where
  "demo_open = sys_open demo_stream demo_db demo_disp 7"

definition demo_taken :: "(kv, receipt) sys" where
  "demo_taken = \<lparr>y_stream = demo_stream1, y_db = demo_db1, y_disp = demo_leased\<lparr>d_signal := True\<rparr>,
     y_rng = 8, y_scan = NoScan, y_owed = 0\<rparr>"

lemma any_order_id: "any_order id"
  by (simp add: any_order_def)

text \<open>Produce a record, notify, scan it and lease it.\<close>

lemma demo_leased_inv: "disp_inv demo_leased"
proof -
  have t: "tracks demo_leased" unfolding tracks_def
  proof (intro allI)
    fix l q show "count (lane demo_leased l) q = of_bool (d_states demo_leased q = Some l)"
      by (cases l) (auto simp: demo_leased_def demo_disp_eq demo_record_def flight_seq_def)
  qed
  then show ?thesis using demo_config_ok
    by (simp add: disp_inv_defs) (simp add: demo_leased_def demo_disp_eq demo_config_def demo_record_def)
qed

lemma demo_run: "(sys_step mem_badger oor demo_gen demo_config)\<^sup>*\<^sup>* demo_open demo_taken"
proof -
  let ?S = "sys_step mem_badger oor demo_gen demo_config"
  let ?y = "\<lambda>d g ph n. \<lparr>y_stream = demo_stream1, y_db = demo_db1, y_disp = d, y_rng = g, y_scan = ph, y_owed = n\<rparr>"
  let ?n = "Notify demo_disp" and ?e = "(Notify demo_disp)\<lparr>d_scanEmpty := True\<rparr>"
  let ?f = "snd (fill_end 4 [demo_record] ?e)"
  have "?S demo_open (?y demo_disp 7 NoScan 1)"
    using sys_step.produce [where y = demo_open and ps = "[[7]]" and now = 5] demo_append
    by (simp add: demo_open_def sys_open_def)
  moreover have "?S (?y demo_disp 7 NoScan 1) (?y ?n 7 NoScan 0)"
    using sys_step.notify [where y = "?y demo_disp 7 NoScan 1" and n = 0 and newReceipt = demo_gen] by simp
  moreover have "?S (?y ?n 7 NoScan 0) (?y ?e 7 (ScanStarted 1 4) 0)"
    using sys_step.fill_start [where y = "?y ?n 7 NoScan 0" and lo = 1 and free = 4 and d' = ?e and newReceipt = demo_gen]
    by (simp add: fill_begin_def Let_def Notify_def notifyLocked_def demo_disp_eq demo_config_def)
  moreover have "?S (?y ?e 7 (ScanStarted 1 4) 0) (?y ?e 7 (Scanned 1 4 (Inr [demo_record])) 0)"
    using sys_step.fill_scan [where y = "?y ?e 7 (ScanStarted 1 4) 0" and lo = 1 and free = 4 and B = mem_badger and newReceipt = demo_gen]
    by (simp add: demo_scan4)
  moreover have "?S (?y ?e 7 (Scanned 1 4 (Inr [demo_record])) 0) (?y ?f 7 NoScan 0)"
    using sys_step.fill_finish [where y = "?y ?e 7 (Scanned 1 4 (Inr [demo_record])) 0" and lo = 1 and free = 4
        and recs = "[demo_record]" and p = "fst (fill_end 4 [demo_record] ?e)" and d' = ?f and newReceipt = demo_gen] by simp
  moreover have "read_section id demo_gen 1 100 ?f 7 = (ReadReturn (Inr [demo_delivery]), demo_leased\<lparr>d_signal := True\<rparr>, 8)"
    by (simp add: disp_eval Notify_def demo_disp_eq demo_config_def demo_unique demo_leased_def demo_delivery_def
        demo_record_def)
  then have "?S (?y ?f 7 NoScan 0) demo_taken"
    using sys_step.read [where y = "?y ?f 7 NoScan 0" and wanted = 1 and ord = id and now = 100 and newReceipt = demo_gen
        and out = "ReadReturn (Inr [demo_delivery])" and d' = "demo_leased\<lparr>d_signal := True\<rparr>" and g' = 8]
    by (simp add: demo_taken_def any_order_id)
  ultimately show ?thesis by (meson converse_rtranclp_into_rtranclp rtranclp.rtrancl_refl)
qed

text \<open>C1. At-least-once delivery. Open a well-formed stream and let writers, readers, completions,
  retries, statistics, requeues, scans, closing and crashes with restart interleave in any order.
  Then every sequence that is pending in the store is known to the dispatcher in exactly one
  lane (fresh, leased or waiting for retry), once, or it has not been scanned yet; in that case,
  when no scan is running and no writer owes its notification, scanning is enabled, so the
  record will be found. Conversely the dispatcher tracks pending sequences only, so a completed
  record is never delivered again.\<close>

theorem at_least_once:
  assumes "badger_store B db_view txn_view" "stream_wf (db_view db) s" "New False config = Inr d"
    and "(sys_step B oor newReceipt config)\<^sup>*\<^sup>* (sys_open s db d g) y"
    and "P = pending_set (db_view (y_db y)) (y_stream y)"
  shows "(\<forall>q \<in> P. (\<exists>l. d_states (y_disp y) q = Some l \<and> count (lane (y_disp y) l) q = 1
                    \<and> (\<forall>l'. l' \<noteq> l \<longrightarrow> q \<notin># lane (y_disp y) l'))
              \<or> d_cursor (y_disp y) \<le> q \<and> \<not> d_scanDone (y_disp y)
                 \<and> (y_scan y = NoScan \<and> y_owed y = 0 \<longrightarrow> \<not> d_scanEmpty (y_disp y)))
    \<and> (\<forall>l. set_mset (lane (y_disp y) l) \<subseteq> P)"
proof -
  have inv: "sys_inv db_view y"
    by (rule badger_store.sys_run_inv [OF assms(1,4) sys_open_inv [of db_view, OF assms(2,3)]])
  then have v: "view_ok P (s_tail (y_stream y)) (y_disp y)"
    and e: "d_scanEmpty (y_disp y) \<and> y_owed y = 0 \<longrightarrow> empty_ok P (y_disp y) (y_scan y)"
    by (simp_all add: sys_inv_def Let_def assms(5))
  then have tr: "tracks (y_disp y)" and dom: "dom (d_states (y_disp y)) = {q \<in> P. covered (y_disp y) q}"
    by (simp_all add: view_ok_def disp_inv_def)
  have one: "\<exists>l. d_states (y_disp y) q = Some l \<and> count (lane (y_disp y) l) q = 1
      \<and> (\<forall>l'. l' \<noteq> l \<longrightarrow> q \<notin># lane (y_disp y) l')" if c: "q \<in> P" "covered (y_disp y) q" for q
  proof -
    obtain l where l: "d_states (y_disp y) q = Some l" using dom c by auto
    then show ?thesis using tr tracks_mem [OF tr] by (auto simp: tracks_def)
  qed
  moreover have "d_cursor (y_disp y) \<le> q \<and> \<not> d_scanDone (y_disp y)" if "\<not> covered (y_disp y) q" for q
    using that by (auto simp: covered_def)
  moreover have "\<not> d_scanEmpty (y_disp y)" if "q \<in> P" "\<not> covered (y_disp y) q" "y_scan y = NoScan" "y_owed y = 0" for q
    using e that by auto
  moreover have "set_mset (lane (y_disp y) l) \<subseteq> P" for l using tracks_mem [OF tr, of _ l] dom by auto
  ultimately show ?thesis by blast
qed

theorem at_least_once_witness:
  "pending_set (map_of demo_db1) demo_stream1 = {1} \<and> count (lane demo_leased stateInFlight) 1 = 1
     \<and> 1 \<notin># lane demo_leased stateFresh \<and> 1 \<notin># lane demo_leased stateRetry"
proof -
  have p: "pending_set (map_of demo_db1) demo_stream1 = {1}"
    using demo_pending1 by (simp add: pending_set_def demo_stream1_def demo_stream_def)
  have l: "lane (demo_leased\<lparr>d_signal := True\<rparr>) l = lane demo_leased l" for l by (cases l) simp_all
  have s: "d_states demo_leased 1 = Some stateInFlight" "d_cursor demo_leased = 2" by (simp_all add: demo_leased_def)
  have "\<not> (2 :: u64) \<le> 1" by (simp add: word_le_nat_alt)
  then show ?thesis
    using at_least_once [OF mem.badger_store_axioms demo_wf demo_New demo_run [unfolded demo_open_def] refl] p s
    by (simp add: demo_taken_def l del: lane.simps)
qed

text \<open>C4. Leases are exclusive and bounded. In every reachable state no two leases carry the same
  receipt or the same record, the leases number at most \<open>MaxInFlight\<close>, the fresh lane holds at
  most \<open>PrefetchCapacity\<close> records, and leases and retries together at most the sum of both.\<close>

theorem leases_exclusive:
  assumes "badger_store B db_view txn_view" "stream_wf (db_view db) s" "New False config = Inr d"
    and "(sys_step B oor newReceipt config)\<^sup>*\<^sup>* (sys_open s db d g) y"
  shows "distinct (map fst (d_inFlight (y_disp y)))
    \<and> distinct (map (\<lambda>p. r_Seq (f_record (snd p))) (d_inFlight (y_disp y)))
    \<and> int (length (d_inFlight (y_disp y))) \<le> MaxInFlight config
    \<and> int (length (d_fresh (y_disp y))) \<le> PrefetchCapacity config
    \<and> int (length (d_retries (y_disp y))) + int (length (d_inFlight (y_disp y)))
        \<le> PrefetchCapacity config + MaxInFlight config"
proof -
  have "sys_inv db_view y \<and> d_config (y_disp y) = config"
    using assms(4)
  proof (induction rule: rtranclp_induct)
    case base
    show ?case using sys_open_inv [of db_view, OF assms(2,3)] New_inv [OF assms(3)] by (simp add: sys_open_def)
  next
    case (step y z)
    then show ?case using badger_store.sys_step_inv [OF assms(1)] sys_step_config sys_inv_disp_inv by blast
  qed
  then have inv: "disp_inv (y_disp y)" and cf: "d_config (y_disp y) = config" using sys_inv_disp_inv by auto
  have "count (mset (map flight_seq (d_inFlight (y_disp y)))) q \<le> 1" for q
    using inv by (auto simp: disp_inv_def tracks_def dest: spec [of _ stateInFlight])
  then have "distinct (map flight_seq (d_inFlight (y_disp y)))"
    by (metis count_greater_eq_one_iff distinct_count_atmost_1 le_antisym not_in_iff set_mset_mset)
  with inv cf show ?thesis by (simp add: disp_inv_defs flight_seq_def [abs_def])
qed

theorem leases_exclusive_witness:
  "int (length (d_inFlight demo_leased)) \<le> MaxInFlight demo_config"
  using leases_exclusive [OF mem.badger_store_axioms demo_wf demo_New demo_run [unfolded demo_open_def]]
  by (simp add: demo_taken_def)

section \<open>Leases\<close>

text \<open>A delivery holds its lease at a time: the receipt is in flight for this record and attempt, and the
  deadline has not passed.\<close>

definition holds_lease :: "time \<Rightarrow> dispatcher \<Rightarrow> delivery \<Rightarrow> bool" where
  "holds_lease now d x \<longleftrightarrow>
     (\<exists>f. map_of (d_inFlight d) (dl_Receipt x) = Some f \<and> r_Seq (f_record f) = dl_seq x
          \<and> f_attempt f = dl_Attempt x \<and> now < f_deadline f)"

lemma valid_after_expiry:
  assumes "disp_inv d" "any_order ord"
  shows "valid_delivery (expireLocked ord now d) x \<longleftrightarrow> holds_lease now d x"
proof -
  have dk: "distinct (keys (d_inFlight d))" using assms(1) by (simp add: disp_inv_defs)
  have "d_inFlight (expireLocked ord now d) = filter (\<lambda>p. \<not> expired now p) (d_inFlight d)"
    using expireLocked_correct [OF assms, of now] by (simp add: expire_result_def)
  moreover have "map_of (filter (\<lambda>p. \<not> expired now p) (d_inFlight d)) k = Some f \<longleftrightarrow>
      map_of (d_inFlight d) k = Some f \<and> now < f_deadline f" for k f
    using dk by (auto simp: distinct_map_filter expired_def not_le)
  ultimately show ?thesis by (auto simp: valid_delivery_def holds_lease_def dl_seq_def)
qed

lemma validate_after_expiry:
  assumes "disp_inv d" "any_order ord"
  shows "validateLocked (expireLocked ord now d) ds =
    (if distinct (map dl_Receipt ds) \<and> (\<forall>x \<in> set ds. holds_lease now d x) then Inr (map dl_seq ds)
     else Inl (DispatchError DispatchErrStaleDelivery))"
  using validateLocked_iff [of "expireLocked ord now d" ds] validateLocked_error [of "expireLocked ord now d" ds]
    valid_after_expiry [OF assms]
  by (cases "validateLocked (expireLocked ord now d) ds") auto

lemma demo_holds: "holds_lease 105 demo_leased demo_delivery" "\<not> holds_lease 110 demo_leased demo_delivery"
  by (simp_all add: holds_lease_def dl_seq_def demo_leased_eval)

text \<open>C15. Expiry: whatever the watermark \<open>expireAt\<close> and whatever the iteration order of the map,
  a sweep at \<open>now\<close> removes exactly the leases whose deadline has passed, queues each of them for
  immediate retry with its attempt number increased (saturating), keeps every other lease and
  lane, and keeps the invariant.\<close>

theorem expiry_sweep:
  assumes "disp_inv d" "any_order ord" "d' = expireLocked ord now d"
  shows "d_inFlight d' = filter (\<lambda>p. now < f_deadline (snd p)) (d_inFlight d)
    \<and> rh_items (d_retries d') = rh_items (d_retries d)
        + mset (map (\<lambda>p. retry_item (f_record (snd p)) (nextAttempt (f_attempt (snd p))) now)
                 (filter (\<lambda>p. f_deadline (snd p) \<le> now) (d_inFlight d)))
    \<and> same_control d d' \<and> dom (d_states d') = dom (d_states d) \<and> disp_inv d'"
  using expireLocked_correct [OF assms(1,2), of now] assms(3)
  by (simp add: expire_result_def expired_def expired_item_def [abs_def] not_le)

theorem expiry_sweep_witness:
  "d_inFlight (expireLocked id 110 demo_leased) = []
     \<and> rh_items (d_retries (expireLocked id 110 demo_leased)) = {#retry_item demo_record 2 110#}"
  using expiry_sweep [OF demo_leased_inv any_order_id refl, of 110]
  by (simp add: demo_leased_def demo_disp_eq demo_record_def nextAttempt_def)

text \<open>C14. Taking: \<open>takeLocked\<close> either fails, because no receipt can be made, and then everything
  selected is back in its lane, flag and counters included; or it leases at most \<open>wanted\<close>
  records. These come from the front of the fresh lane and from the due retries, each with the
  attempt number it was queued with and a deadline one visibility timeout ahead, no record twice;
  what is not taken stays. With a free slot and a record due it takes at least one.\<close>

theorem take_locked_correct:
  assumes "takeLocked newReceipt wanted now d g = (r, d', g')" "disp_inv d" "0 < wanted"
  shows "case r of
      Inl e \<Rightarrow> take_failed d d' \<and> disp_inv d'
    | Inr ds \<Rightarrow> take_done now d ds d' \<and> int (length ds) \<le> wanted
        \<and> (int (length (d_inFlight d)) < MaxInFlight (d_config d) \<and> (retryReady now d \<or> freshReady d) \<longrightarrow> ds \<noteq> [])"
  using takeLocked_correct [OF assms] take_failed_inv [OF assms(2)] takeLocked_progress [of newReceipt wanted now d g] assms(1,3)
  by (auto split: sum.splits)

definition demo_fresh :: dispatcher where
  "demo_fresh = snd (fillFresh (ScanBatch mem_badger (s_name demo_stream1) demo_db1) demo_disp)"

lemma demo_fresh_eq: "demo_fresh = demo_disp\<lparr>d_cursor := 2, d_scanEmpty := True, d_states := [1 \<mapsto> stateFresh],
    d_fresh := [\<lparr>qr_record = demo_record, qr_attempt = 1, qr_readyAt = zeroTime, qr_index = 0\<rparr>]\<rparr>"
  using demo_scan4
  by (simp add: demo_fresh_def disp_eval demo_disp_eq demo_config_def demo_record_def)

lemma demo_fresh_inv: "disp_inv demo_fresh"
proof -
  have "tracks demo_fresh" unfolding tracks_def
  proof (intro allI)
    fix l q show "count (lane demo_fresh l) q = of_bool (d_states demo_fresh q = Some l)"
      by (cases l) (auto simp: demo_fresh_eq demo_disp_eq demo_record_def seq_of_def)
  qed
  then show ?thesis using demo_config_ok
    by (simp add: disp_inv_defs) (simp add: demo_fresh_eq demo_disp_eq demo_config_def demo_record_def seq_of_def)
qed

theorem take_locked_correct_witness:
  "take_done 100 demo_fresh [demo_delivery] (demo_leased\<lparr>d_expireAt := zeroTime\<rparr>)"
proof -
  have "takeLocked demo_gen 1 100 demo_fresh 7 = (Inr [demo_delivery], demo_leased\<lparr>d_expireAt := zeroTime\<rparr>, 8)"
    by (simp add: disp_eval demo_fresh_eq demo_disp_eq demo_config_def demo_unique demo_leased_def demo_delivery_def
        demo_record_def)
  from take_locked_correct [OF this demo_fresh_inv] show ?thesis by simp
qed


text \<open>C6. Completing a batch of deliveries, dispatcher and store together. A success means that every
  delivery held its lease, no receipt was given twice, the store lost exactly these records in
  one transaction, and the dispatcher forgot exactly these sequences. A failure leaves the store
  as it was and every sequence tracked, so the records will be delivered again.\<close>

theorem commit_delivery_correct:
  assumes "badger_store B db_view txn_view" "stream_wf (db_view db) s" "disp_inv d" "any_order ord" "ds \<noteq> []"
    and "Dispatch_Commit ord now ds (\<lambda>seqs. Commit B s seqs) d db = (r, d', db')"
  shows "disp_inv d' \<and> (case r of
      Some e \<Rightarrow> db_view db' = db_view db \<and> dom (d_states d') = dom (d_states d)
    | None \<Rightarrow> (\<forall>x \<in> set ds. holds_lease now d x) \<and> distinct (map dl_seq ds)
        \<and> commit_effect s (db_view db) (map dl_seq ds) (db_view db')
        \<and> dom (d_states d') = dom (d_states d) - dl_seq ` set ds)"
  using assms(6,3,4)
proof (cases rule: Dispatch_Commit_cases)
  case skipped
  with assms(5) show ?thesis by simp
next
  case (rejected e)
  then show ?thesis by (simp add: op_frame_def)
next
  case (failed e)
  then show ?thesis using badger_store.Commit_failed [OF assms(1) failed(2)] by (simp add: op_frame_def)
next
  case (completed d1)
  have "commit_effect s (db_view db) (map dl_seq ds) (db_view db')"
    by (rule badger_store.Commit_refines [OF assms(1,2) completed(4)])
  moreover have "dom (d_states d') = dom (d_states d) - dl_seq ` set ds" using completed(8,9) by auto
  ultimately show ?thesis using completed valid_after_expiry [OF assms(3,4)] by (simp add: op_frame_def)
qed

theorem commit_delivery_correct_witness:
  "\<exists>d' db'. Dispatch_Commit id 105 [demo_delivery] (\<lambda>seqs. Commit mem_badger demo_stream1 seqs) demo_leased demo_db1 = (None, d', db')
     \<and> d_states d' = Map.empty \<and> commit_effect demo_stream1 (map_of demo_db1) [1] (map_of db')"
proof -
  have "\<exists>db'. Commit mem_badger demo_stream1 [1] demo_db1 = (None, db')"
    unfolding demo_db1_eval by (simp add: eval_simps demo_stream1_def demo_stream_def)
  then have "\<exists>d' db'. Dispatch_Commit id 105 [demo_delivery] (\<lambda>seqs. Commit mem_badger demo_stream1 seqs) demo_leased demo_db1 = (None, d', db')"
    using validate_after_expiry [OF demo_leased_inv any_order_id, of 105 "[demo_delivery]"] demo_holds(1)
    by (auto simp: Dispatch_Commit_def Let_def demo_leased_eval dl_seq_def)
  then obtain d' db' where run: "Dispatch_Commit id 105 [demo_delivery] (\<lambda>seqs. Commit mem_badger demo_stream1 seqs) demo_leased demo_db1 = (None, d', db')"
    by blast
  from commit_delivery_correct [OF mem.badger_store_axioms demo_wf1 demo_leased_inv any_order_id _ this]
  show ?thesis using run by (auto simp: demo_leased_eval dl_seq_def)
qed

text \<open>C7. Moving a delivery to the dead letters, dispatcher and store together: a success means that the
  delivery held its lease, the store moved exactly this record with the given reason, and the
  dispatcher forgot exactly this sequence; a failure leaves the store as it was and the
  sequence tracked.\<close>

theorem dead_letter_delivery_correct:
  assumes "badger_store B db_view txn_view" "stream_wf (db_view db) s" "disp_inv d" "any_order ord"
    and "Dispatch_DeadLetter ord now x (\<lambda>seq. DeadLetter B s seq reason t) d db = (r, d', db')"
  shows "disp_inv d' \<and> (case r of
      Some e \<Rightarrow> db_view db' = db_view db \<and> dom (d_states d') = dom (d_states d)
    | None \<Rightarrow> holds_lease now d x \<and> deadletter_effect s (db_view db) (dl_seq x) reason t (db_view db')
        \<and> dom (d_states d') = dom (d_states d) - {dl_seq x})"
  using assms(5,3,4)
proof (cases rule: Dispatch_DeadLetter_cases)
  case (rejected e)
  then show ?thesis by (simp add: op_frame_def)
next
  case (failed e)
  then show ?thesis using badger_store.DeadLetter_failed [OF assms(1) failed(2)] by (simp add: op_frame_def)
next
  case (completed d1)
  have "deadletter_effect s (db_view db) (dl_seq x) reason t (db_view db')"
    by (rule badger_store.DeadLetter_refines [OF assms(1,2) completed(4)])
  then show ?thesis using completed valid_after_expiry [OF assms(3,4)] by (simp add: op_frame_def)
qed

theorem dead_letter_delivery_correct_witness:
  "\<exists>d'. Dispatch_DeadLetter id 105 demo_delivery (\<lambda>seq. DeadLetter mem_badger demo_stream1 seq [9] 6) demo_leased demo_db1
       = (None, d', demo_db2)
     \<and> d_states d' = Map.empty \<and> deadletter_effect demo_stream1 (map_of demo_db1) 1 [9] 6 (map_of demo_db2)"
proof -
  have "\<exists>d'. Dispatch_DeadLetter id 105 demo_delivery (\<lambda>seq. DeadLetter mem_badger demo_stream1 seq [9] 6) demo_leased demo_db1
       = (None, d', demo_db2)"
    using validate_after_expiry [OF demo_leased_inv any_order_id, of 105 "[demo_delivery]"] demo_holds(1) demo_deadletter
    by (auto simp: Dispatch_DeadLetter_def Let_def demo_leased_eval dl_seq_def)
  then obtain d' where run: "Dispatch_DeadLetter id 105 demo_delivery (\<lambda>seq. DeadLetter mem_badger demo_stream1 seq [9] 6) demo_leased demo_db1
       = (None, d', demo_db2)" by blast
  from dead_letter_delivery_correct [OF mem.badger_store_axioms demo_wf1 demo_leased_inv any_order_id this]
  show ?thesis using run by (auto simp: demo_leased_eval dl_seq_def)
qed

text \<open>C17. A stale token has no effect. If any delivery of a batch does not hold its lease (unknown
  receipt, another record or attempt, or a deadline that has passed) or a receipt is repeated,
  then committing, retrying, extending and, for a single delivery, dead-lettering all fail with
  \<open>ErrStaleDelivery\<close>, and the persistence callback is not called.\<close>

theorem stale_token_rejected:
  assumes "disp_inv d" "any_order ord" "\<not> d_closed d" "ds \<noteq> []" "0 < e"
    and "\<not> distinct (map dl_Receipt ds) \<or> (\<exists>x \<in> set ds. \<not> holds_lease now d x)"
  shows "Dispatch_Commit ord now ds persist d st = (Some (DispatchError DispatchErrStaleDelivery), expireLocked ord now d, st)
    \<and> Dispatch_Retry oor ord now ds d = (Some (DispatchError DispatchErrStaleDelivery), expireLocked ord now d)
    \<and> Dispatch_Extend ord now e ds d = (Some (DispatchError DispatchErrStaleDelivery), expireLocked ord now d)
    \<and> (ds = [x] \<longrightarrow> Dispatch_DeadLetter ord now x move d st
         = (Some (DispatchError DispatchErrStaleDelivery), expireLocked ord now d, st))"
proof -
  have "validateLocked (expireLocked ord now d) ds = Inl (DispatchError DispatchErrStaleDelivery)"
    using validate_after_expiry [OF assms(1,2), of now ds] assms(6) by auto
  with assms(3-5) show ?thesis
    by (auto simp: Dispatch_Commit_def Dispatch_Retry_def Dispatch_Extend_def Dispatch_DeadLetter_def Let_def)
qed

theorem stale_token_rejected_witness:
  "fst (Dispatch_Commit id 110 [demo_delivery] (\<lambda>seqs. Commit mem_badger demo_stream1 seqs) demo_leased demo_db1)
     = Some (DispatchError DispatchErrStaleDelivery)"
proof -
  have "\<not> d_closed demo_leased" by (simp add: demo_leased_eval)
  from stale_token_rejected [OF demo_leased_inv any_order_id this, of "[demo_delivery]" 1 110
      "\<lambda>seqs. Commit mem_badger demo_stream1 seqs" demo_db1] demo_holds(2)
  show ?thesis by simp
qed

text \<open>C18. Retrying: a success means that every delivery held its lease; exactly these leases end, and
  each record is queued with the next attempt number, due after the backoff delay of the attempt
  that failed. A failure changes nothing but the expiry of leases that were over anyway.\<close>

theorem retry_delivery_correct:
  assumes "disp_inv d" "any_order ord" "ds \<noteq> []" "d1 = expireLocked ord now d"
    and "Dispatch_Retry oor ord now ds d = (r, d')"
  shows "disp_inv d' \<and> dom (d_states d') = dom (d_states d) \<and> (case r of
      Some e \<Rightarrow> d' = d \<and> d_closed d \<or> d' = d1
    | None \<Rightarrow> (\<forall>x \<in> set ds. holds_lease now d x) \<and> distinct (map dl_Receipt ds)
        \<and> (\<forall>k. map_of (d_inFlight d') k = (if k \<in> dl_Receipt ` set ds then None else map_of (d_inFlight d1) k))
        \<and> rh_items (d_retries d') = rh_items (d_retries d1) + mset (map (retried oor now d1) ds)
        \<and> d_signal d')"
proof -
  have inv1: "disp_inv d1" using expireLocked_correct [OF assms(1,2), of now] assms(4) by simp
  have gone: "map_of (d_inFlight (fold (retry_one oor now) ds dx)) k =
      (if k \<in> dl_Receipt ` set ds then None else map_of (d_inFlight dx) k)" for dx k
    by (induction ds arbitrary: dx) (auto simp: retry_one_fields)
  from assms(5) [unfolded Dispatch_Retry_lease] assms(1,2) retrying.delivery_op_axioms retry_keeps
  show ?thesis
  proof (cases rule: lease_op_cases)
    case skipped
    with assms(3) show ?thesis by simp
  next
    case (rejected e)
    moreover have "d' = d \<and> d_closed d \<or> d' = d1"
      using assms(3-5) rejected(1) by (auto simp: Dispatch_Retry_def Let_def split: if_splits sum.splits)
    ultimately show ?thesis by (simp add: op_frame_def)
  next
    case (completed d2)
    have "d2 = d1" using completed(3) assms(4) by simp
    with completed show ?thesis
      using gone [of d1] retry_all_items [OF inv1, of ds oor now] valid_after_expiry [OF assms(1,2), of now]
      by (auto simp: op_frame_def notifyLocked_def)
  qed
qed

theorem retry_delivery_correct_witness:
  "\<exists>d'. Dispatch_Retry (\<lambda>_. 0) id 105 [demo_delivery] demo_leased = (None, d')
     \<and> rh_items (d_retries d') = {#retry_item demo_record 2 108#} \<and> map_of (d_inFlight d') 7 = None"
proof -
  have e: "expireLocked id 105 demo_leased = demo_leased" by (simp add: expireLocked_def demo_leased_eval)
  have "\<exists>d'. Dispatch_Retry (\<lambda>_. 0) id 105 [demo_delivery] demo_leased = (None, d')"
    using validate_after_expiry [OF demo_leased_inv any_order_id, of 105 "[demo_delivery]"] demo_holds(1)
    by (auto simp: Dispatch_Retry_def Let_def demo_leased_eval)
  then obtain d' where run: "Dispatch_Retry (\<lambda>_. 0) id 105 [demo_delivery] demo_leased = (None, d')" by blast
  from retry_delivery_correct [OF demo_leased_inv any_order_id _ refl this]
  show ?thesis using run
    by (auto simp: e retried_def lookup_flight_def nextAttempt_def retryDelay_def) (auto simp: demo_leased_eval)
qed

text \<open>C19. Extending: a success means that every delivery held its lease and exactly these deadlines move
  by the extension, nothing else in the lanes; a non-positive extension or a failure changes no
  deadline.\<close>

theorem extend_delivery_correct:
  assumes "disp_inv d" "any_order ord" "ds \<noteq> []" "d1 = expireLocked ord now d"
    and "Dispatch_Extend ord now e ds d = (r, d')"
  shows "disp_inv d' \<and> dom (d_states d') = dom (d_states d) \<and> (case r of
      Some err \<Rightarrow> d' = d \<and> (d_closed d \<or> e \<le> 0) \<or> d' = d1
    | None \<Rightarrow> 0 < e \<and> (\<forall>x \<in> set ds. holds_lease now d x) \<and> distinct (map dl_Receipt ds)
        \<and> (\<forall>k. map_of (d_inFlight d') k =
             (if k \<in> dl_Receipt ` set ds then map_option (\<lambda>f. f\<lparr>f_deadline := f_deadline f + e\<rparr>) (map_of (d_inFlight d1) k)
              else map_of (d_inFlight d1) k))
        \<and> d_retries d' = d_retries d1 \<and> d_fresh d' = d_fresh d)"
proof (cases "0 < e")
  case False
  with assms(1,5) show ?thesis by (auto simp: Dispatch_Extend_def)
next
  case True
  have keep: "d_retries (fold (extend_one e) ds dx) = d_retries dx" for dx
    by (induction ds arbitrary: dx) (auto simp: extend_one_def Let_def)
  from assms(5) [unfolded Dispatch_Extend_lease [OF True]] assms(1,2) extending [OF True] extend_keeps
  show ?thesis
  proof (cases rule: lease_op_cases)
    case skipped
    with assms(3) show ?thesis by simp
  next
    case (rejected err)
    moreover have "d' = d \<and> d_closed d \<or> d' = d1"
      using assms(3-5) rejected(1) True by (auto simp: Dispatch_Extend_def Let_def split: if_splits sum.splits)
    ultimately show ?thesis by (auto simp: op_frame_def)
  next
    case (completed d2)
    have "d2 = d1" using completed(3) assms(4) by simp
    with completed True show ?thesis
      using extend_all_flights [of ds d1 e] keep [of d1] valid_after_expiry [OF assms(1,2), of now]
      by (auto simp: op_frame_def same_control_def notifyLocked_def)
  qed
qed

theorem extend_delivery_correct_witness:
  "\<exists>d' f. Dispatch_Extend id 105 4 [demo_delivery] demo_leased = (None, d')
     \<and> map_of (d_inFlight d') 7 = Some f \<and> f_deadline f = 114"
proof -
  have e: "expireLocked id 105 demo_leased = demo_leased" by (simp add: expireLocked_def demo_leased_eval)
  have "\<exists>d'. Dispatch_Extend id 105 4 [demo_delivery] demo_leased = (None, d')"
    using validate_after_expiry [OF demo_leased_inv any_order_id, of 105 "[demo_delivery]"] demo_holds(1)
    by (auto simp: Dispatch_Extend_def Let_def demo_leased_eval)
  then obtain d' where run: "Dispatch_Extend id 105 4 [demo_delivery] demo_leased = (None, d')" by blast
  from extend_delivery_correct [OF demo_leased_inv any_order_id _ refl this]
  show ?thesis using run by (auto simp: e) (auto simp: demo_leased_eval)
qed

section \<open>Reading\<close>

lemma leases_held:
  assumes "fresh_leases now d ds" "x \<in> set ds" "t < now + VisibilityTimeout (d_config d)"
  shows "holds_lease t d x"
  using assms by (auto simp: fresh_leases_def holds_lease_def flight_of_def dl_seq_def)

text \<open>C5. Reading makes progress. A reader that runs without interference on a reachable state, with
  no scan in flight and no notification owed, comes to a decision within two rounds. Either it
  returns between one and \<open>wanted\<close> deliveries, all holding their leases; or it fails, and then
  the dispatcher is closed, a receipt could not be made or the scan failed; or it waits, and
  then nothing can be delivered: all slots are taken, or no retry is due and every pending
  record is leased, waiting for its retry, or held back by the tracking limit.\<close>

theorem read_progress:
  assumes "badger_store B db_view txn_view" "stream_wf (db_view db) s" "New False config = Inr d"
    and "(sys_step B oor newReceipt config)\<^sup>*\<^sup>* (sys_open s db d g) y" "y_scan y = NoScan" "y_owed y = 0"
    and "any_order ord" "0 < wanted"
    and "P = pending_set (db_view (y_db y)) (y_stream y)" "scan = ScanBatch B (s_name (y_stream y)) (y_db y)"
  shows "\<exists>r d' g'. Dispatch_Read (Suc (Suc n)) ord newReceipt scan wanted now (y_disp y) (y_rng y) = Some (r, d', g')
    \<and> disp_inv d' \<and> (case r of
        Returned (Inr ds) \<Rightarrow> ds \<noteq> [] \<and> int (length ds) \<le> wanted \<and> fresh_leases now d' ds \<and> (\<forall>x \<in> set ds. holds_lease now d' x)
      | Returned (Inl e) \<Rightarrow> read_error newReceipt scan (y_disp y) e
      | Blocked wake \<Rightarrow> nothing_due P now d')"
proof -
  have inv: "sys_inv db_view y"
    by (rule badger_store.sys_run_inv [OF assms(1,4) sys_open_inv [of db_view, OF assms(2,3)]])
  have wf: "stream_wf (db_view (y_db y)) (y_stream y)" by (rule sys_inv_wf [OF inv])
  have q: "quiet P (s_tail (y_stream y)) (y_disp y)"
    using inv assms(5,6,9) pending_le_tail [OF wf] by (simp add: sys_inv_def Let_def quiet_def)
  obtain r d' g' where run: "Dispatch_Read (Suc (Suc n)) ord newReceipt scan wanted now (y_disp y) (y_rng y) = Some (r, d', g')"
    and ok: "read_ok P (s_tail (y_stream y)) wanted now r d'"
    using badger_store.store_read_correct [OF assms(1) wf q [unfolded assms(9)] assms(7,8), of n newReceipt now "y_rng y"] assms(9,10) by blast
  have "disp_inv d'" using ok by (simp add: read_ok_def quiet_def view_ok_def)
  moreover have "holds_lease now d' x" if "fresh_leases now d' ds" "x \<in> set ds" for ds x
    using leases_held [OF that, of now] calculation by (simp add: disp_inv_def config_ok_def)
  moreover have "read_error newReceipt scan (y_disp y) e" if "r = Returned (Inl e)" for e
    using Dispatch_Read_error [OF run [unfolded that] assms(8)] .
  ultimately show ?thesis using run ok by (auto simp: read_ok_def split: read_result.splits sum.splits)
qed

theorem read_progress_witness:
  "\<exists>r d' g'. Dispatch_Read 2 id demo_gen (ScanBatch mem_badger (s_name demo_stream1) demo_db1) 5 200
       (demo_leased\<lparr>d_signal := True\<rparr>) 8 = Some (r, d', g') \<and> disp_inv d'"
  using read_progress [OF mem.badger_store_axioms demo_wf demo_New demo_run [unfolded demo_open_def] _ _ any_order_id _ refl refl,
      of 5 0 200]
  by (auto simp: demo_taken_def numeral_2_eq_2)

text \<open>C20. The retry queue: pushing any records into the heap of the dispatcher and popping them all gives
  back the same records, each once, in the order of their due time and then of their sequence.\<close>

theorem retry_queue_order:
  "mset (drain heap_Pop (length xs) (fold (\<lambda>x h. heap_Push h x) xs [])) = mset (map unindex xs)
     \<and> sorted (map retry_key (drain heap_Pop (length xs) (fold (\<lambda>x h. heap_Push h x) xs [])))"
  using retry_queue.drain_sorted [of "fold (\<lambda>x h. heap_Push h x) xs []" "length xs"]
    retry_queue.push_all_inv [of "[]" xs] retry_queue.push_all_items [of "[]" xs]
  by simp

section \<open>Backoff\<close>

text \<open>C21. The retry delay of a valid configuration lies between \<open>RetryInitial\<close> and
  \<open>RetryMax\<close> and never decreases with the attempt, for every multiplier, rounding included, and
  whatever an out-of-range conversion from float to integer gives.\<close>

theorem backoff_bounded_monotone:
  assumes "config_ok c" "a \<le> b"
  shows "RetryInitial c \<le> retryDelay oor c a \<and> retryDelay oor c a \<le> retryDelay oor c b
    \<and> retryDelay oor c b \<le> RetryMax c"
  using assms retryDelay_bounds [of c oor a] retryDelay_bounds [of c oor b] retryDelay_mono [of c a b oor]
  by (simp add: config_ok_def)

theorem backoff_bounded_monotone_witness:
  "3 \<le> retryDelay (\<lambda>_. 0) demo_config 1 \<and> retryDelay (\<lambda>_. 0) demo_config 1 \<le> retryDelay (\<lambda>_. 0) demo_config 3
     \<and> retryDelay (\<lambda>_. 0) demo_config 3 \<le> 20"
  using backoff_bounded_monotone [OF demo_config_ok, of 1 3 "\<lambda>_. 0"] by (simp add: demo_config_def)

text \<open>C22. With a whole multiplier above one, a positive initial delay and delays in the exact range of
  a double, the backoff is exactly exponential and capped: attempt \<open>a\<close> waits
  \<open>min RetryMax (RetryInitial * m ^ (a - 1))\<close>.\<close>

theorem backoff_exponential:
  assumes "RetryMultiplier c = Fin (of_int m)" "1 < m" "RetryMax c * m < 2 ^ 53"
    and "0 < RetryInitial c" "RetryInitial c \<le> RetryMax c"
  shows "retryDelay oor c a = min (RetryMax c) (RetryInitial c * m ^ (unat a - 1))"
  by (rule retryDelay_exact [OF assms])

theorem backoff_exponential_witness:
  "retryDelay (\<lambda>_. 0) demo_config 3 = 12 \<and> retryDelay (\<lambda>_. 0) demo_config 9 = 20"
  using backoff_exponential [of demo_config 2 "\<lambda>_. 0" 3] backoff_exponential [of demo_config 2 "\<lambda>_. 0" 9]
  by (simp add: demo_config_def)

section \<open>Configuration and limits\<close>

text \<open>What \<open>New\<close> accepts: it fails exactly when the source is missing, a capacity or the
  visibility timeout is not positive, the delays are negative or out of order, or the multiplier
  is a number below one. A multiplier that is not a number is accepted, since every comparison
  with it is false.\<close>

theorem new_validates:
  "isl (New source_nil c) \<longleftrightarrow>
     source_nil \<or> PrefetchCapacity c \<le> 0 \<or> MaxInFlight c \<le> 0 \<or> VisibilityTimeout c \<le> 0 \<or> RetryInitial c < 0
     \<or> RetryMax c < RetryInitial c \<or> RetryMultiplier c = NegInf \<or> (\<exists>r < 1. RetryMultiplier c = Fin r)"
  by (cases "RetryMultiplier c") (auto simp: New_def)

text \<open>The tracking limit overflows. For capacities whose sum exceeds the largest \<open>int\<close>, which
  \<open>New\<close> accepts, the limit is negative, so with no retry waiting nothing is ever leased, however
  many records are ready.\<close>

theorem tracked_limit_overflow:
  assumes "PrefetchCapacity (d_config d) < 2 ^ 63" "MaxInFlight (d_config d) < 2 ^ 63"
    and "2 ^ 63 \<le> PrefetchCapacity (d_config d) + MaxInFlight (d_config d)" "d_retries d = []"
  shows "trackedLimit d < 0 \<and> takeLocked newReceipt wanted now d g = (Inr [], d, g)"
proof -
  let ?x = "PrefetchCapacity (d_config d) + MaxInFlight (d_config d) - 2 ^ 63"
  have shift: "PrefetchCapacity (d_config d) + MaxInFlight (d_config d) + 2 ^ 63 = ?x + 2 ^ 64" by simp
  have "(PrefetchCapacity (d_config d) + MaxInFlight (d_config d) + 2 ^ 63) mod 2 ^ 64 = ?x mod 2 ^ 64"
    unfolding shift by (rule mod_add_self2)
  also have "\<dots> = ?x" by (rule mod_pos_pos_trivial) (use assms(1-3) in simp_all)
  finally have "trackedLimit d = ?x - 2 ^ 63" by (simp add: trackedLimit_def wrap_int_def)
  then have neg: "trackedLimit d < 0" using assms(1,2) by simp
  then have "\<not> freshReady d" "\<not> retryReady now d" using assms(4) by (simp_all add: freshReady_def retryReady_def)
  then have "take_loop newReceipt now p n [] d g = (Inr [], d, g)" for p n by (cases n) simp_all
  with neg show ?thesis by (simp add: takeLocked_def)
qed

theorem tracked_limit_overflow_witness:
  "fst (takeLocked demo_gen 1 100 (demo_fresh\<lparr>d_config := demo_config\<lparr>MaxInFlight := 2 ^ 63 - 1\<rparr>\<rparr>) 7) = Inr []
     \<and> d_fresh demo_fresh \<noteq> [] \<and> \<not> isl (New False (demo_config\<lparr>MaxInFlight := 2 ^ 63 - 1\<rparr>))"
  using tracked_limit_overflow [of "demo_fresh\<lparr>d_config := demo_config\<lparr>MaxInFlight := 2 ^ 63 - 1\<rparr>\<rparr>" demo_gen 1 100 7]
  by (simp add: demo_fresh_eq demo_disp_eq demo_config_def New_def)

text \<open>The backoff does not grow when the product truncates back to the same delay: one
  nanosecond times 1.5 is one nanosecond again, and then every later attempt waits the maximum at
  once.\<close>

theorem backoff_stall:
  assumes "0 \<le> RetryInitial c" "RetryInitial c < RetryMax c" "\<not> f64_le (RetryMultiplier c) 1" "1 < a"
    and "duration_of_f64 oor (f64_mul (f64_of_duration (RetryInitial c)) (RetryMultiplier c)) \<le> RetryInitial c"
  shows "retryDelay oor c 1 = RetryInitial c \<and> retryDelay oor c a = RetryMax c"
proof -
  have "1 < unat a" using assms(4) by (simp add: word_less_nat_alt)
  then obtain n where "unat a - 1 = Suc n" by (metis Suc_diff_Suc One_nat_def)
  with assms show ?thesis by (simp add: retryDelay_def Let_def)
qed

definition demo_stalling :: dconfig where
  "demo_stalling = demo_config\<lparr>RetryInitial := 1, RetryMultiplier := Fin (3 / 2)\<rparr>"

lemma demo_round: "f64_round 1 = Fin 1" "f64_round (3 / 2) = Fin (3 / 2)"
  by code_simp+

theorem backoff_stall_witness: "retryDelay (\<lambda>_. 0) demo_stalling 2 = 20"
  using backoff_stall [of demo_stalling 2 "\<lambda>_. 0"]
  by (simp add: demo_stalling_def demo_config_def f64_of_duration_def demo_round rat_trunc_def in_int_def)

section \<open>Waiting readers\<close>

text \<open>C23. A notification wakes at most one reader. Let \<open>n\<close> readers be parked without a wake
  time and with live contexts when the dispatcher is closed or a write notifies it. However they
  run, all but at most one of them are still parked, and once one has returned no parked reader
  can take a step: a reader blocked at \<open>Close\<close> can stay blocked for ever.\<close>

theorem one_token_one_reader:
  assumes "d0 = Dispatch_Close d \<or> d0 = Notify d" "(park_step ord newReceipt scan)\<^sup>*\<^sup>* (d0, n, g) (d', k, g')"
  shows "n \<le> k + 1 \<and> (k < n \<longrightarrow> (\<forall>x. \<not> park_step ord newReceipt scan (d', k, g') x))"
proof -
  have t: "n + token d' \<le> k + token d0" by (rule park_steps_token [OF assms(2)])
  have "token d0 \<le> 1" by (simp add: token_def)
  moreover have "\<not> d_signal d'" if "k < n" using t that by (auto simp: token_def split: if_splits)
  ultimately show ?thesis using t park_stuck by (metis add_le_cancel_left le_add1 order_trans)
qed

theorem one_token_one_reader_witness:
  "\<exists>d'. (park_step id demo_gen (\<lambda>lo n. Inr []))\<^sup>*\<^sup>* (Dispatch_Close demo_disp, 2, 7) (d', 1, 7)
     \<and> d_closed d' \<and> (\<forall>x. \<not> park_step id demo_gen (\<lambda>lo n. Inr []) (d', 1, 7) x)"
proof -
  let ?d = "(Dispatch_Close demo_disp)\<lparr>d_signal := False\<rparr>"
  have "(None, ?d) \<in> set (wait_select None 100 zeroTime (Dispatch_Close demo_disp))"
    by (simp add: wait_select_def Dispatch_Close_def notifyLocked_def demo_disp_eq)
  moreover have "Dispatch_Read 1 id demo_gen (\<lambda>lo n. Inr []) 1 100 ?d 7
      = Some (Returned (Inl (DispatchError DispatchErrClosed)), ?d, 7)"
    by (simp add: read_section_def Dispatch_Close_def notifyLocked_def demo_disp_eq)
  ultimately have "park_step id demo_gen (\<lambda>lo n. Inr []) (Dispatch_Close demo_disp, Suc 1, 7) (?d, 1, 7)"
    by (rule park_step.returns)
  then have run: "(park_step id demo_gen (\<lambda>lo n. Inr []))\<^sup>*\<^sup>* (Dispatch_Close demo_disp, 2, 7) (?d, 1, 7)"
    by (simp add: numeral_2_eq_2)
  from one_token_one_reader [OF disjI1 [OF refl] this] run show ?thesis
    by (intro exI [of _ ?d]) (simp add: Dispatch_Close_def notifyLocked_def demo_disp_eq)
qed

lemma nextWake_loop_keep:
  "wake \<noteq> zeroTime \<Longrightarrow> \<forall>p \<in> set L. wake \<le> f_deadline (snd p) \<Longrightarrow> nextWake_loop L wake = wake"
  by (induction L wake rule: nextWake_loop.induct) auto

text \<open>C24. A reader that finds every slot taken while a retry is already due does not wait. The wake
  time it computes has passed, so \<open>wait\<close> returns at once without looking at the context, and
  the loop starts over for as long as the slots are taken.\<close>

theorem due_retry_busy_wait:
  assumes inv: "disp_inv d" and ord: "any_order ord" and op: "\<not> d_closed d"
    and full: "MaxInFlight (d_config d) \<le> int (length (d_inFlight d))" and w: "0 < wanted"
    and live: "\<forall>p \<in> set (d_inFlight d). now < f_deadline (snd p)"
    and due: "x \<in># rh_items (d_retries d)" "qr_readyAt x \<le> now" "\<forall>y \<in># rh_items (d_retries d). qr_readyAt y \<noteq> zeroTime"
  shows "\<exists>wake d'. read_section ord newReceipt wanted now d g = (ReadIdle wake, d', g) \<and> wait_enter now wake"
proof -
  define d1 where "d1 = expireLocked ord now d"
  have e: "expire_result now d d1" and inv1: "disp_inv d1"
    using expireLocked_correct [OF inv ord, of now] by (simp_all add: d1_def)
  have fl: "d_inFlight d1 = d_inFlight d" and it: "rh_items (d_retries d1) = rh_items (d_retries d)"
    and cf: "d_config d1 = d_config d"
    using e live by (auto simp: expire_result_def expired_def same_control_def not_le filter_id_conv filter_empty_conv)
  let ?top = "hd (d_retries d1)"
  have ne: "d_retries d1 \<noteq> []" using due(1) it by auto
  then have mem: "unindex ?top \<in># rh_items (d_retries d1)" by (simp add: rh_items_def)
  have "retry_key (unindex ?top) \<le> retry_key x"
    using retry_queue.top_least [of "d_retries d1" x] inv1 due(1) it by (simp add: disp_inv_def)
  then have wake: "qr_readyAt ?top \<le> now" "qr_readyAt ?top \<noteq> zeroTime"
    using due(2,3) mem it by (auto simp: retry_key_def)
  have "nextWake_loop (ord (d_inFlight d1)) (qr_readyAt ?top) = qr_readyAt ?top"
    using wake live fl any_order_set [OF ord] by (intro nextWake_loop_keep) fastforce+
  then have nw: "nextWakeLocked ord d1 = qr_readyAt ?top" using ne by (simp add: nextWakeLocked_def)
  have "takeCount wanted d1 = 0"
    using full fl cf w inv1 by (simp add: takeCount_def Let_def disp_inv_def bounds_ok_def)
  then have "takeLocked newReceipt wanted now d1 g = (Inr [], d1, g)" by (simp add: takeLocked_def)
  then show ?thesis
    using op full fl cf nw wake by (simp add: read_section_def d1_def [symmetric] Let_def wait_enter_def)
qed

definition demo_full :: dispatcher where
  "demo_full = demo_leased\<lparr>d_config := demo_config\<lparr>MaxInFlight := 1\<rparr>, d_cursor := 3,
     d_states := [1 \<mapsto> stateInFlight, 2 \<mapsto> stateRetry],
     d_retries := [\<lparr>qr_record = demo_record\<lparr>r_Seq := 2\<rparr>, qr_attempt = 2, qr_readyAt = 101, qr_index = 0\<rparr>]\<rparr>"

lemma demo_full_inv: "disp_inv demo_full"
proof -
  have "tracks demo_full" unfolding tracks_def
  proof (intro allI)
    fix l q show "count (lane demo_full l) q = of_bool (d_states demo_full q = Some l)"
      by (cases l) (auto simp: demo_full_def demo_leased_eval flight_seq_def seq_of_def rh_items_def)
  qed
  moreover have "rh_inv (d_retries demo_full)" by (simp add: demo_full_def rh_inv_def rh_heap_def indexed_def)
  ultimately show ?thesis
    by (simp add: disp_inv_defs) (simp add: demo_full_def demo_leased_eval config_ok_def)
qed

theorem due_retry_busy_wait_witness:
  "\<exists>wake d'. read_section id demo_gen 1 105 demo_full 8 = (ReadIdle wake, d', 8) \<and> wait_enter 105 wake"
proof (rule due_retry_busy_wait [OF demo_full_inv any_order_id, of 1 105])
  show "unindex (hd (d_retries demo_full)) \<in># rh_items (d_retries demo_full)"
    by (simp add: demo_full_def rh_items_def)
qed (simp_all add: demo_full_def demo_leased_eval rh_items_def zeroTime_def)

end
