(* ===== verification/Facade_Errors.thy ===== *)
theory Facade_Errors
  imports Prelude
begin

text \<open>
  The shared helpers of the public package in \<open>src/factory.go\<close>: the context check at the start of
  every operation, and \<open>mapError\<close>, which turns the errors of the internal packages into the
  sentinels declared in \<open>src/teak.go\<close>. A context is seen at one moment: live, or done with its error.
\<close>

datatype ctx = Live | Done gerror

fun checkContext :: "ctx \<Rightarrow> gerror option" where
  "checkContext (Done err) = Some err"
| "checkContext Live = None"

text \<open>\<open>fmt.Errorf("%w: %v", E, err)\<close> keeps only the sentinel; storage corruption keeps the cause as well.\<close>

definition mapError :: "gerror \<Rightarrow> gerror" where
  "mapError err =
     (if errors_is err (DispatchError DispatchErrClosed) \<or> errors_is err (StoreError StoreErrClosed)
      then Errorf [TeakError ErrClosed]
      else if errors_is err (DispatchError DispatchErrInvalidCount) \<or> errors_is err (StoreError StoreErrInvalidBatchSize)
      then Errorf [TeakError ErrInvalidCount]
      else if errors_is err (DispatchError DispatchErrInvalidConfig)
      then Errorf [TeakError ErrInvalidOptions]
      else if errors_is err (StoreError StoreErrInvalidStreamName)
      then Errorf [TeakError ErrInvalidName]
      else if errors_is err (DispatchError DispatchErrStaleDelivery)
      then Errorf [TeakError ErrStaleDelivery]
      else if errors_is err (DispatchError DispatchErrInvalidExtension)
      then Errorf [TeakError ErrInvalidExtension]
      else if errors_is err (StoreError StoreErrNotFound)
      then Errorf [TeakError ErrNotFound]
      else if errors_is err (StoreError StoreErrBatchTooLarge)
      then Errorf [TeakError ErrBatchTooLarge]
      else if errors_is err (StoreError StoreErrSeqExhausted)
      then Errorf [TeakError ErrSequenceExhausted]
      else if errors_is err (EnvelopeError ErrCorruptEnvelope) \<or> errors_is err (EnvelopeError ErrUnsupportedEnvelope)
         \<or> errors_is err (StoreError StoreErrUnsupportedSchema) \<or> errors_is err (StoreError StoreErrTailRegression)
         \<or> errors_is err (StoreError StoreErrStateConflict)
      then Errorf [TeakError ErrCorruptStorage, err]
      else err)"

section \<open>What a caller can see\<close>

text \<open>No sentinel of the dispatcher is visible, and one of the store or of the envelopes only as the
  cause of \<open>ErrCorruptStorage\<close>. Two are outside the mapping: \<open>ErrNoRewrite\<close>, which only maintenance
  handles, and \<open>ErrValueTooLarge\<close> for fields beyond four gigabytes.\<close>

definition public_error :: "gerror \<Rightarrow> bool" where
  "public_error e \<longleftrightarrow>
     (\<forall>i. \<not> errors_is e (DispatchError i))
     \<and> (\<forall>i. errors_is e (StoreError i) \<longrightarrow> i = StoreErrNoRewrite \<or> errors_is e (TeakError ErrCorruptStorage))
     \<and> (\<forall>i. errors_is e (EnvelopeError i) \<longrightarrow> i = ErrValueTooLarge \<or> errors_is e (TeakError ErrCorruptStorage))"

lemma public_error_simps [simp]:
  "public_error (TeakError t)" "public_error (ContextError x)" "public_error (Errorf [TeakError t])"
  "public_error (Errorf [TeakError ErrCorruptStorage, e]) \<longleftrightarrow> (\<forall>i. \<not> errors_is e (DispatchError i))"
  by (auto simp: public_error_def)

text \<open>Every sentinel of the dispatcher is caught before storage corruption is considered.\<close>

lemma mapError_dispatch:
  assumes "errors_is err (DispatchError i)"
  shows "\<exists>t. mapError err = Errorf [TeakError t]"
  using assms by (cases i) (auto simp: mapError_def)

lemma mapError_store:
  assumes "errors_is err (StoreError i)" "i \<noteq> StoreErrNoRewrite"
  shows "\<exists>t. mapError err = Errorf [TeakError t] \<or> mapError err = Errorf [TeakError ErrCorruptStorage, err]"
  using assms by (cases i) (auto simp: mapError_def)

lemma mapError_envelope:
  assumes "errors_is err (EnvelopeError i)" "i \<noteq> ErrValueTooLarge"
  shows "\<exists>t. mapError err = Errorf [TeakError t] \<or> mapError err = Errorf [TeakError ErrCorruptStorage, err]"
  using assms by (cases i) (auto simp: mapError_def)

lemma mapError_cases:
  obtains (sentinel) t where "mapError err = Errorf [TeakError t]"
  | (corrupt) "mapError err = Errorf [TeakError ErrCorruptStorage, err]"
  | (unmapped) "mapError err = err"
  by (force simp: mapError_def split: if_splits)

lemma mapError_public: "public_error (mapError err)"
proof (cases rule: mapError_cases [of err])
  case corrupt
  then have "\<not> errors_is err (DispatchError i)" for i using mapError_dispatch [of err i] by auto
  with corrupt show ?thesis by simp
next
  case unmapped
  have mapped: "public_error err" if "err = Errorf [TeakError t] \<or> err = Errorf [TeakError ErrCorruptStorage, err]" for t
  proof -
    have "size (Errorf [TeakError ErrCorruptStorage, err]) \<noteq> size err" by simp
    with that show ?thesis by (metis public_error_simps(3))
  qed
  have "\<not> errors_is err (DispatchError i)" for i
  proof
    assume "errors_is err (DispatchError i)"
    from this mapError_dispatch [OF this] unmapped show False by auto
  qed
  moreover have "errors_is err (TeakError ErrCorruptStorage)" if "errors_is err (StoreError i)" "i \<noteq> StoreErrNoRewrite" for i
    using mapError_store [OF that] unmapped mapped that by (auto simp: public_error_def)
  moreover have "errors_is err (TeakError ErrCorruptStorage)" if "errors_is err (EnvelopeError i)" "i \<noteq> ErrValueTooLarge" for i
    using mapError_envelope [OF that] unmapped mapped that by (auto simp: public_error_def)
  ultimately show ?thesis unfolding unmapped public_error_def by blast
qed simp

text \<open>Storage corruption is reported with its cause.\<close>

lemma mapError_corrupt:
  assumes "errors_is (mapError err) (TeakError ErrCorruptStorage)" "errors_is err e"
  shows "errors_is (mapError err) e"
proof (cases rule: mapError_cases [of err])
  case (sentinel t)
  with assms(1) have "t = ErrCorruptStorage" by simp
  moreover have "mapError err \<noteq> Errorf [TeakError ErrCorruptStorage] \<or> mapError err = err" by (auto simp: mapError_def)
  ultimately show ?thesis using sentinel assms(2) by auto
qed (use assms(2) in auto)

end
