(* ===== verification/LogStream.thy ===== *)
theory LogStream
  imports Reader Facade_Errors
begin

text \<open>
  \<open>src/log.go\<close> and the public types of \<open>src/teak.go\<close>: the facade of one stream. Each operation is
  \<open>begin\<close>, a call into the store or the dispatcher with its errors mapped, the counters, and
  \<open>end\<close>. The state is the log, the stream its \<open>store\<close> pointer reaches and the database behind
  it. The identity of a log (its address, which deliveries carry as \<open>owner\<close>) is a number; a nil
  owner is \<open>None\<close>. Logging has no effect on the state and is left out.

  An operation here runs from begin to end; the interleaving of its critical sections with those
  of other calls is the subject of \<open>System\<close>, and of \<open>life_step\<close> below as far as \<open>close\<close>
  is concerned. \<open>Log_Read\<close> may come to wait, and is then still active.
\<close>

section \<open>Public types\<close>

record position = pos_Seq :: u64

record tdelivery =
  td_Position :: position
  td_Payload :: bytes
  td_Attempt :: u32
  td_Deadline :: time
  td_OriginStream :: bytes
  td_OriginSeq :: u64
  td_receipt :: receipt
  td_owner :: "nat option"

record deadLetter =
  tl_Position :: position
  tl_Payload :: bytes
  tl_Reason :: bytes
  tl_CreatedAt :: time
  tl_DeadLetteredAt :: time
  tl_OriginStream :: bytes
  tl_OriginSeq :: u64
  tl_owner :: "nat option"
  tl_identitySeq :: u64

record tstats =
  ts_DurableTail :: u64
  ts_Pending :: u64
  ts_Ready :: u64
  ts_InFlight :: u64
  ts_Retry :: u64
  ts_DeadLetter :: u64
  ts_Writes :: u64
  ts_Deliveries :: u64
  ts_Commits :: u64
  ts_Retries :: u64
  ts_LeaseExpirations :: u64
  ts_DuplicateAttempts :: u64
  ts_BackpressureEvents :: u64
  ts_StorageErrors :: u64
  ts_OldestPendingSeq :: u64
  ts_OldestPendingAge :: duration

section \<open>The log\<close>

record logStream =
  l_self :: nat
  l_dispatcher :: dispatcher
  l_closing :: bool
  l_active :: int
  l_writes :: u64
  l_commits :: u64
  l_storageErrors :: u64

definition newLogStream :: "nat \<Rightarrow> dispatcher \<Rightarrow> logStream" where
  "newLogStream self scheduler =
     \<lparr>l_self = self, l_dispatcher = scheduler, l_closing = False, l_active = 0,
      l_writes = 0, l_commits = 0, l_storageErrors = 0\<rparr>"

type_synonym 'db lstate = "logStream \<times> stream \<times> 'db"

definition begin_op :: "ctx \<Rightarrow> logStream \<Rightarrow> gerror option \<times> logStream" where
  "begin_op c l =
     (case checkContext c of
        Some err \<Rightarrow> (Some err, l)
      | None \<Rightarrow> if l_closing l then (Some (TeakError ErrClosed), l)
                else (None, l\<lparr>l_active := l_active l + 1\<rparr>))"

definition end_op :: "logStream \<Rightarrow> logStream" where
  "end_op l = l\<lparr>l_active := l_active l - 1\<rparr>"

definition storageError :: "gerror \<Rightarrow> logStream \<Rightarrow> gerror \<times> logStream" where
  "storageError err l = (err, l\<lparr>l_storageErrors := l_storageErrors l + 1\<rparr>)"

text \<open>\<open>if err := l.begin(ctx); err != nil { return err }; defer l.end(); \<dots>\<close>\<close>

definition guarded :: "ctx \<Rightarrow> ('db lstate \<Rightarrow> (gerror + 'a) \<times> 'db lstate) \<Rightarrow> 'db lstate \<Rightarrow> (gerror + 'a) \<times> 'db lstate" where
  "guarded c body st =
     (case st of (l, s, db) \<Rightarrow>
        (case begin_op c l of
           (Some err, l) \<Rightarrow> (Inl err, (l, s, db))
         | (None, l) \<Rightarrow> (case body (l, s, db) of (r, (l, s, db)) \<Rightarrow> (r, (end_op l, s, db)))))"

definition failed_op :: "gerror \<Rightarrow> 'db lstate \<Rightarrow> (gerror + 'a) \<times> 'db lstate" where
  "failed_op err st =
     (case st of (l, s, db) \<Rightarrow> (case storageError err l of (err, l) \<Rightarrow> (Inl err, (l, s, db))))"

section \<open>Writing\<close>

definition Log_Write ::
  "('db, 'txn) badger \<Rightarrow> ctx \<Rightarrow> time \<Rightarrow> bytes \<Rightarrow> 'db lstate \<Rightarrow> (gerror + position) \<times> 'db lstate" where
  "Log_Write B c now data =
     guarded c (\<lambda>(l, s, db).
       case Append B s db data now of
         (Inl err, s, db) \<Rightarrow> failed_op (mapError err) (l, s, db)
       | (Inr record', s, db) \<Rightarrow>
           (let l = l\<lparr>l_writes := l_writes l + 1\<rparr>;
                l = l\<lparr>l_dispatcher := Notify (l_dispatcher l)\<rparr>
            in (Inr \<lparr>pos_Seq = r_Seq record'\<rparr>, (l, s, db))))"

definition Log_BatchWrite ::
  "('db, 'txn) badger \<Rightarrow> ctx \<Rightarrow> time \<Rightarrow> bytes list \<Rightarrow> 'db lstate \<Rightarrow> (gerror + position list) \<times> 'db lstate" where
  "Log_BatchWrite B c now data =
     guarded c (\<lambda>(l, s, db).
       case AppendBatch B s db data now of
         (Inl err, s, db) \<Rightarrow> failed_op (mapError err) (l, s, db)
       | (Inr records, s, db) \<Rightarrow>
           (let positions = map (\<lambda>record'. \<lparr>pos_Seq = r_Seq record'\<rparr>) records;
                l = l\<lparr>l_writes := l_writes l + word_of_nat (length records)\<rparr>;
                l = (if 0 < length records then l\<lparr>l_dispatcher := Notify (l_dispatcher l)\<rparr> else l)
            in (Inr positions, (l, s, db))))"

section \<open>Reading and completing\<close>

definition wrap :: "logStream \<Rightarrow> delivery \<Rightarrow> tdelivery" where
  "wrap l x =
     \<lparr>td_Position = \<lparr>pos_Seq = r_Seq (dl_Record x)\<rparr>, td_Payload = r_Payload (dl_Record x),
      td_Attempt = dl_Attempt x, td_Deadline = dl_Deadline x,
      td_OriginStream = r_OriginStream (dl_Record x), td_OriginSeq = r_OriginSeq (dl_Record x),
      td_receipt = dl_Receipt x, td_owner = Some (l_self l)\<rparr>"

definition unwrap_one :: "tdelivery \<Rightarrow> delivery" where
  "unwrap_one x =
     \<lparr>dl_Record = zero_record\<lparr>r_Seq := pos_Seq (td_Position x)\<rparr>, dl_Receipt = td_receipt x,
      dl_Attempt = td_Attempt x, dl_Deadline = zeroTime\<rparr>"

fun unwrap :: "logStream \<Rightarrow> tdelivery list \<Rightarrow> gerror + delivery list" where
  "unwrap l [] = Inr []"
| "unwrap l (x # rest) =
     (if td_owner x \<noteq> Some (l_self l) then Inl (TeakError ErrInvalidDelivery)
      else gbind (unwrap l rest) (\<lambda>internal. Inr (unwrap_one x # internal)))"

text \<open>What \<open>Read\<close> makes of the dispatcher's answer.\<close>

definition finish_read :: "gerror + delivery list \<Rightarrow> logStream \<Rightarrow> (gerror + tdelivery list) \<times> logStream" where
  "finish_read r l =
     (case r of
        Inl err \<Rightarrow>
          (let mapped = mapError err
           in if \<not> errors_is mapped (ContextError ContextCanceled) \<and> \<not> errors_is mapped (ContextError ContextDeadlineExceeded)
                 \<and> \<not> errors_is mapped (TeakError ErrClosed) \<and> \<not> errors_is mapped (TeakError ErrInvalidCount)
              then case storageError mapped l of (mapped, l) \<Rightarrow> (Inl mapped, l)
              else (Inl mapped, l))
      | Inr internal \<Rightarrow> (Inr (map (wrap l) internal), l))"

datatype log_read = ReadDone "gerror + tdelivery list" | ReadWaits time

definition read_body ::
  "('db, 'txn) badger \<Rightarrow> nat \<Rightarrow> flight_order \<Rightarrow> ('g \<Rightarrow> (gerror + receipt) \<times> 'g) \<Rightarrow> time \<Rightarrow> int
   \<Rightarrow> 'db lstate \<Rightarrow> 'g \<Rightarrow> (log_read \<times> 'db lstate \<times> 'g) option" where
  "read_body B fuel ord newReceipt now count' st g =
     (case st of (l, s, db) \<Rightarrow>
        (case Dispatch_Read fuel ord newReceipt (ScanBatch B (s_name s) db) count' now (l_dispatcher l) g of
           None \<Rightarrow> None
         | Some (Blocked wakeAt, d, g) \<Rightarrow> Some (ReadWaits wakeAt, (l\<lparr>l_dispatcher := d\<rparr>, s, db), g)
         | Some (Returned r, d, g) \<Rightarrow>
             (case finish_read r (l\<lparr>l_dispatcher := d\<rparr>) of
                (r, l) \<Rightarrow> Some (ReadDone r, (end_op l, s, db), g))))"

definition Log_Read ::
  "('db, 'txn) badger \<Rightarrow> nat \<Rightarrow> flight_order \<Rightarrow> ('g \<Rightarrow> (gerror + receipt) \<times> 'g) \<Rightarrow> ctx \<Rightarrow> time \<Rightarrow> int
   \<Rightarrow> 'db lstate \<Rightarrow> 'g \<Rightarrow> (log_read \<times> 'db lstate \<times> 'g) option" where
  "Log_Read B fuel ord newReceipt c now count' st g =
     (case st of (l, s, db) \<Rightarrow>
       (case begin_op c l of
          (Some err, l) \<Rightarrow> Some (ReadDone (Inl err), (l, s, db), g)
        | (None, l) \<Rightarrow> read_body B fuel ord newReceipt now count' (l, s, db) g))"

text \<open>A waiting call goes on with what \<open>wait\<close> selected: the context's error, or the next round.\<close>

definition Log_Read_woken ::
  "('db, 'txn) badger \<Rightarrow> nat \<Rightarrow> flight_order \<Rightarrow> ('g \<Rightarrow> (gerror + receipt) \<times> 'g) \<Rightarrow> gerror option \<times> dispatcher
   \<Rightarrow> time \<Rightarrow> int \<Rightarrow> 'db lstate \<Rightarrow> 'g \<Rightarrow> (log_read \<times> 'db lstate \<times> 'g) option" where
  "Log_Read_woken B fuel ord newReceipt woken now count' st g =
     (case st of (l, s, db) \<Rightarrow>
       (case woken of
          (Some err, d) \<Rightarrow>
            (case finish_read (Inl err) (l\<lparr>l_dispatcher := d\<rparr>) of
               (r, l) \<Rightarrow> Some (ReadDone r, (end_op l, s, db), g))
        | (None, d) \<Rightarrow> read_body B fuel ord newReceipt now count' (l\<lparr>l_dispatcher := d\<rparr>, s, db) g))"

lemmas Log_Read_unfold = Log_Read_def read_body_def

definition Log_Commit ::
  "('db, 'txn) badger \<Rightarrow> flight_order \<Rightarrow> ctx \<Rightarrow> time \<Rightarrow> tdelivery list \<Rightarrow> 'db lstate \<Rightarrow> (gerror + unit) \<times> 'db lstate" where
  "Log_Commit B ord c now deliveries =
     guarded c (\<lambda>(l, s, db).
       case unwrap l deliveries of
         Inl err \<Rightarrow> (Inl err, (l, s, db))
       | Inr internal \<Rightarrow>
           (case Dispatch_Commit ord now internal
                   (\<lambda>seqs (l, db). case Commit B s seqs db of
                       (Some err, db) \<Rightarrow> (case storageError err l of (err, l) \<Rightarrow> (Some err, (l, db)))
                     | (None, db) \<Rightarrow> (None, (l, db)))
                   (l_dispatcher l) (l, db) of
              (Some err, d, (l, db)) \<Rightarrow> (Inl (mapError err), (l\<lparr>l_dispatcher := d\<rparr>, s, db))
            | (None, d, (l, db)) \<Rightarrow>
                (Inr (), (l\<lparr>l_dispatcher := d, l_commits := l_commits l + word_of_nat (length deliveries)\<rparr>, s, db))))"

definition map_result :: "gerror option \<Rightarrow> gerror + unit" where
  "map_result r = (case r of None \<Rightarrow> Inr () | Some err \<Rightarrow> Inl (mapError err))"

definition Log_Retry ::
  "(float64 \<Rightarrow> duration) \<Rightarrow> flight_order \<Rightarrow> ctx \<Rightarrow> time \<Rightarrow> tdelivery list \<Rightarrow> 'db lstate \<Rightarrow> (gerror + unit) \<times> 'db lstate" where
  "Log_Retry oor ord c now deliveries =
     guarded c (\<lambda>(l, s, db).
       case unwrap l deliveries of
         Inl err \<Rightarrow> (Inl err, (l, s, db))
       | Inr internal \<Rightarrow>
           (case Dispatch_Retry oor ord now internal (l_dispatcher l) of
              (r, d) \<Rightarrow> (map_result r, (l\<lparr>l_dispatcher := d\<rparr>, s, db))))"

definition Log_Extend ::
  "flight_order \<Rightarrow> ctx \<Rightarrow> time \<Rightarrow> duration \<Rightarrow> tdelivery list \<Rightarrow> 'db lstate \<Rightarrow> (gerror + unit) \<times> 'db lstate" where
  "Log_Extend ord c now extension deliveries =
     guarded c (\<lambda>(l, s, db).
       case unwrap l deliveries of
         Inl err \<Rightarrow> (Inl err, (l, s, db))
       | Inr internal \<Rightarrow>
           (case Dispatch_Extend ord now extension internal (l_dispatcher l) of
              (r, d) \<Rightarrow> (map_result r, (l\<lparr>l_dispatcher := d\<rparr>, s, db))))"

section \<open>Dead letters\<close>

definition Log_DeadLetter ::
  "('db, 'txn) badger \<Rightarrow> flight_order \<Rightarrow> ctx \<Rightarrow> time \<Rightarrow> time \<Rightarrow> tdelivery \<Rightarrow> bytes \<Rightarrow> 'db lstate
   \<Rightarrow> (gerror + unit) \<times> 'db lstate" where
  "Log_DeadLetter B ord c now t x reason =
     guarded c (\<lambda>(l, s, db).
       case unwrap l [x] of
         Inl err \<Rightarrow> (Inl err, (l, s, db))
       | Inr internal \<Rightarrow>
           (case Dispatch_DeadLetter ord now (internal ! 0)
                   (\<lambda>seq (l, db). case DeadLetter B s seq reason t db of
                       (Some err, db) \<Rightarrow> (case storageError err l of (err, l) \<Rightarrow> (Some err, (l, db)))
                     | (None, db) \<Rightarrow> (None, (l, db)))
                   (l_dispatcher l) (l, db) of
              (r, d, (l, db)) \<Rightarrow> (map_result r, (l\<lparr>l_dispatcher := d\<rparr>, s, db))))"

definition wrap_dead :: "logStream \<Rightarrow> dead_record \<Rightarrow> deadLetter" where
  "wrap_dead l r =
     \<lparr>tl_Position = \<lparr>pos_Seq = d_Seq r\<rparr>, tl_Payload = d_Payload r, tl_Reason = d_Reason r,
      tl_CreatedAt = d_CreatedAt r, tl_DeadLetteredAt = d_DeadLetteredAt r,
      tl_OriginStream = d_OriginStream r, tl_OriginSeq = d_OriginSeq r,
      tl_owner = Some (l_self l), tl_identitySeq = d_Seq r\<rparr>"

definition Log_DeadLetters ::
  "('db, 'txn) badger \<Rightarrow> ctx \<Rightarrow> position \<Rightarrow> int \<Rightarrow> 'db lstate \<Rightarrow> (gerror + deadLetter list) \<times> 'db lstate" where
  "Log_DeadLetters B c lo count' =
     guarded c (\<lambda>(l, s, db).
       if count' \<le> 0 then (Inl (TeakError ErrInvalidCount), (l, s, db))
       else case DeadLetters B (s_name s) db (pos_Seq lo) count' of
              Inl err \<Rightarrow> failed_op (mapError err) (l, s, db)
            | Inr records \<Rightarrow> (Inr (map (wrap_dead l) records), (l, s, db)))"

definition Log_Requeue ::
  "('db, 'txn) badger \<Rightarrow> ctx \<Rightarrow> deadLetter \<Rightarrow> 'db lstate \<Rightarrow> (gerror + position) \<times> 'db lstate" where
  "Log_Requeue B c x =
     guarded c (\<lambda>(l, s, db).
       if tl_owner x \<noteq> Some (l_self l) \<or> tl_identitySeq x \<noteq> pos_Seq (tl_Position x)
       then (Inl (TeakError ErrInvalidDeadLetter), (l, s, db))
       else case Requeue B s (pos_Seq (tl_Position x)) db of
              (Inl err, s, db) \<Rightarrow> failed_op (mapError err) (l, s, db)
            | (Inr record', s, db) \<Rightarrow>
                (Inr \<lparr>pos_Seq = r_Seq record'\<rparr>, (l\<lparr>l_dispatcher := Notify (l_dispatcher l)\<rparr>, s, db)))"

section \<open>Statistics\<close>

text \<open>\<open>time.Since\<close> saturates at the ends of the range of a \<open>Duration\<close>.\<close>

definition time_Since :: "time \<Rightarrow> time \<Rightarrow> duration" where
  "time_Since now u = max (- (2 ^ 63)) (min (2 ^ 63 - 1) (now - u))"

definition Log_Stats ::
  "('db, 'txn) badger \<Rightarrow> flight_order \<Rightarrow> time \<Rightarrow> time \<Rightarrow> 'db lstate \<Rightarrow> (gerror + tstats) \<times> 'db lstate" where
  "Log_Stats B ord now t =
     guarded Live (\<lambda>(l, s, db).
       case Counts B s db of
         Inl err \<Rightarrow> failed_op (mapError err) (l, s, db)
       | Inr persistent \<Rightarrow>
           (case Snapshot ord now (l_dispatcher l) of
              (local', d) \<Rightarrow>
                (let age = (if c_OldestTime persistent \<noteq> zeroTime
                            then (if time_Since t (c_OldestTime persistent) < 0 then 0
                                  else time_Since t (c_OldestTime persistent))
                            else 0)
                 in (Inr \<lparr>ts_DurableTail = c_Tail persistent, ts_Pending = c_Pending persistent,
                          ts_Ready = st_Ready local', ts_InFlight = st_InFlight local', ts_Retry = st_Retry local',
                          ts_DeadLetter = c_DeadLetter persistent, ts_Writes = l_writes l,
                          ts_Deliveries = st_Deliveries local', ts_Commits = l_commits l,
                          ts_Retries = st_Retries local', ts_LeaseExpirations = st_LeaseExpirations local',
                          ts_DuplicateAttempts = st_DuplicateAttempts local',
                          ts_BackpressureEvents = st_Backpressure local', ts_StorageErrors = l_storageErrors l,
                          ts_OldestPendingSeq = c_OldestSeq persistent, ts_OldestPendingAge = age\<rparr>,
                     (l\<lparr>l_dispatcher := d\<rparr>, s, db)))))"

section \<open>Closing\<close>

text \<open>\<open>close\<close> under \<open>lifeMu\<close>: mark the log and close the dispatcher, unless that has been done; then wait
  for \<open>active\<close> to become zero, and return nil.\<close>

definition close_start :: "logStream \<Rightarrow> logStream" where
  "close_start l =
     (if l_closing l then l
      else let l = l\<lparr>l_closing := True\<rparr> in l\<lparr>l_dispatcher := Dispatch_Close (l_dispatcher l)\<rparr>)"

definition close_returns :: "logStream \<Rightarrow> bool" where
  "close_returns l \<longleftrightarrow> \<not> 0 < l_active l"

text \<open>\<open>None\<close>: the call waits.\<close>

definition Log_close :: "logStream \<Rightarrow> gerror option option \<times> logStream" where
  "Log_close l = (let l = close_start l in (if close_returns l then Some None else None, l))"

definition Log_Close :: "ctx \<Rightarrow> logStream \<Rightarrow> gerror option option \<times> logStream" where
  "Log_Close c l = (case checkContext c of Some err \<Rightarrow> (Some (Some err), l) | None \<Rightarrow> Log_close l)"

section \<open>Lifecycle\<close>

text \<open>One log over time, with the number of calls between \<open>begin\<close> and \<open>end\<close>. Such a call may change the
  counters and the dispatcher, but it does not reopen the dispatcher; \<open>Log_Refinement\<close> shows that every
  operation of a log is a run of these steps.\<close>

inductive life_step :: "logStream \<times> nat \<Rightarrow> logStream \<times> nat \<Rightarrow> bool" where
  enter: "begin_op c l = (None, l') \<Longrightarrow> life_step (l, n) (l', Suc n)"
| leave: "life_step (l, Suc n) (end_op l, n)"
| work: "0 < n \<Longrightarrow> l_closing l' = l_closing l \<Longrightarrow> l_active l' = l_active l \<Longrightarrow>
     (d_closed (l_dispatcher l) \<longrightarrow> d_closed (l_dispatcher l')) \<Longrightarrow> life_step (l, n) (l', n)"
| close: "life_step (l, n) (close_start l, n)"

inductive_cases life_stepE: "life_step (l, n) (l', n')"

definition life_inv :: "logStream \<Rightarrow> nat \<Rightarrow> bool" where
  "life_inv l n \<longleftrightarrow> l_active l = int n \<and> (l_closing l \<longrightarrow> d_closed (l_dispatcher l))"

lemma life_step_inv: "life_step (l, n) (l', n') \<Longrightarrow> life_inv l n \<Longrightarrow> life_inv l' n'"
  by (erule life_stepE)
    (auto simp: life_inv_def begin_op_def end_op_def close_start_def Dispatch_Close_def notifyLocked_def Let_def
      split: option.splits if_splits)

lemma life_run_inv:
  assumes "life_step\<^sup>*\<^sup>* (l, n) (l', n')" "life_inv l n"
  shows "life_inv l' n'"
  using assms
proof (induction "(l', n')" arbitrary: l' n' rule: rtranclp_induct)
  case (step y)
  then show ?case by (cases y) (auto dest: life_step_inv)
qed simp

lemma life_new: "life_inv (newLogStream a d) 0"
  by (simp add: life_inv_def newLogStream_def)

lemma life_stopped:
  assumes "life_step (l, 0) (l', n')" "l_closing l"
  shows "l' = l \<and> n' = 0"
  using assms by (auto elim!: life_stepE simp: begin_op_def close_start_def split: option.splits)

section \<open>The guard\<close>

text \<open>Why an operation is refused before it starts.\<close>

definition refusal :: "ctx \<Rightarrow> logStream \<Rightarrow> gerror option" where
  "refusal c l = (case c of Done e \<Rightarrow> Some e | Live \<Rightarrow> if l_closing l then Some (TeakError ErrClosed) else None)"

lemma begin_op_refusal:
  "begin_op c l = (refusal c l, if refusal c l = None then l\<lparr>l_active := l_active l + 1\<rparr> else l)"
  by (cases c) (simp_all add: begin_op_def refusal_def)

lemma guarded_refused: "refusal c l = Some e \<Longrightarrow> guarded c body (l, s, db) = (Inl e, (l, s, db))"
  by (simp add: guarded_def begin_op_refusal)

lemma guarded_runs:
  "refusal c l = None \<Longrightarrow> guarded c body (l, s, db) =
     (case body (l\<lparr>l_active := l_active l + 1\<rparr>, s, db) of (r, (l, s, db)) \<Rightarrow> (r, (end_op l, s, db)))"
  by (simp add: guarded_def begin_op_refusal split: prod.splits)

section \<open>Tokens\<close>

lemma unwrap_foreign: "x \<in> set xs \<Longrightarrow> td_owner x \<noteq> Some (l_self l) \<Longrightarrow> unwrap l xs = Inl (TeakError ErrInvalidDelivery)"
  by (induction xs) auto

lemma unwrap_own: "(\<forall>x \<in> set xs. td_owner x = Some (l_self l)) \<Longrightarrow> unwrap l xs = Inr (map unwrap_one xs)"
  by (induction xs) auto

lemma unwrap_wrap: "unwrap_one (wrap l x) =
    \<lparr>dl_Record = zero_record\<lparr>r_Seq := dl_seq x\<rparr>, dl_Receipt = dl_Receipt x, dl_Attempt = dl_Attempt x, dl_Deadline = zeroTime\<rparr>"
  by (simp add: unwrap_one_def wrap_def dl_seq_def)

lemma unwrap_wrap_all: "unwrap l (map (wrap l) ds) = Inr (map (unwrap_one \<circ> wrap l) ds)"
  by (simp add: unwrap_own wrap_def)

end
