(* ===== verification/Log_Refinement.thy ===== *)
theory Log_Refinement
  imports LogStream
begin

text \<open>
  The facade in terms of the step system of one stream: a call on a log, run without interference, is a
  sequence of the critical sections of \<open>sys_step\<close>. \<open>facade_call\<close> collects the calls, with any
  arguments and results. Through this refinement the facade inherits the at-least-once invariant.
\<close>

section \<open>Calls\<close>

inductive facade_call ::
  "('db, 'txn) badger \<Rightarrow> (float64 \<Rightarrow> duration) \<Rightarrow> ('g \<Rightarrow> (gerror + receipt) \<times> 'g)
   \<Rightarrow> 'db lstate \<times> 'g \<Rightarrow> 'db lstate \<times> 'g \<Rightarrow> bool" for B oor newReceipt where
  Write: "Log_Write B c now data st = (r, st') \<Longrightarrow> facade_call B oor newReceipt (st, g) (st', g)"
| BatchWrite: "length batch < 2 ^ 63 \<Longrightarrow> Log_BatchWrite B c now batch st = (r, st') \<Longrightarrow>
     facade_call B oor newReceipt (st, g) (st', g)"
| Read: "any_order ord \<Longrightarrow> Log_Read B fuel ord newReceipt c now n st g = Some (r, st', g') \<Longrightarrow>
     facade_call B oor newReceipt (st, g) (st', g')"
| Wake: "any_order ord \<Longrightarrow> 0 < l_active l \<Longrightarrow> woken \<in> set (wait_select e now wakeAt (l_dispatcher l)) \<Longrightarrow>
     Log_Read_woken B fuel ord newReceipt woken now n (l, s, db) g = Some (r, st', g') \<Longrightarrow>
     facade_call B oor newReceipt ((l, s, db), g) (st', g')"
| Commit: "any_order ord \<Longrightarrow> Log_Commit B ord c now xs st = (r, st') \<Longrightarrow> facade_call B oor newReceipt (st, g) (st', g)"
| Retry: "any_order ord \<Longrightarrow> Log_Retry oor ord c now xs st = (r, st') \<Longrightarrow> facade_call B oor newReceipt (st, g) (st', g)"
| Extend: "any_order ord \<Longrightarrow> Log_Extend ord c now e xs st = (r, st') \<Longrightarrow> facade_call B oor newReceipt (st, g) (st', g)"
| DeadLetter: "any_order ord \<Longrightarrow> Log_DeadLetter B ord c now t x reason st = (r, st') \<Longrightarrow>
     facade_call B oor newReceipt (st, g) (st', g)"
| DeadLetters: "Log_DeadLetters B c lo n st = (rd, st') \<Longrightarrow> facade_call B oor newReceipt (st, g) (st', g)"
| Requeue: "Log_Requeue B c y st = (rp, st') \<Longrightarrow> facade_call B oor newReceipt (st, g) (st', g)"
| Stats: "any_order ord \<Longrightarrow> Log_Stats B ord now t st = (rs, st') \<Longrightarrow> facade_call B oor newReceipt (st, g) (st', g)"
| Close: "facade_call B oor newReceipt ((l, s, db), g) ((close_start l, s, db), g)"

definition sys_of :: "'db lstate \<times> 'g \<Rightarrow> ('db, 'g) sys" where
  "sys_of x = (case x of ((l, s, db), g) \<Rightarrow> sys_open s db (l_dispatcher l) g)"

lemma sys_of_simp [simp]: "sys_of ((l, s, db), g) = sys_open s db (l_dispatcher l) g"
  by (simp add: sys_of_def)

lemma sys_open_select [simp]:
  "y_stream (sys_open s db d g) = s" "y_db (sys_open s db d g) = db" "y_disp (sys_open s db d g) = d"
  "y_rng (sys_open s db d g) = g" "y_scan (sys_open s db d g) = NoScan" "y_owed (sys_open s db d g) = 0"
  by (simp_all add: sys_open_def)

lemma sys_open_update:
  "(sys_open s db d g)\<lparr>y_disp := d'\<rparr> = sys_open s db d' g"
  "(sys_open s db d g)\<lparr>y_stream := s'\<rparr> = sys_open s' db d g"
  "(sys_open s db d g)\<lparr>y_db := db'\<rparr> = sys_open s db' d g"
  "(sys_open s db d g)\<lparr>y_rng := g'\<rparr> = sys_open s db d g'"
  by (simp_all add: sys_open_def)

section \<open>Runs between quiescent states\<close>

text \<open>One section of the dispatcher or the store, from one state without a scan or an owed
  notification to another.\<close>

lemma one_step:
  assumes "sys_step B oor newReceipt config (sys_open s db d g) y" "y = sys_open s' db' d' g'"
  shows "(sys_step B oor newReceipt config)\<^sup>*\<^sup>* (sys_open s db d g) (sys_open s' db' d' g')"
  using assms by blast

text \<open>A durable step that owes a notification, and the notification.\<close>

lemma owe_and_notify:
  assumes "sys_step B oor newReceipt config (sys_open s db d g) ((sys_open s db d g)\<lparr>y_stream := s', y_db := db', y_owed := Suc 0\<rparr>)"
  shows "(sys_step B oor newReceipt config)\<^sup>*\<^sup>* (sys_open s db d g) (sys_open s' db' (Notify d) g)"
proof -
  let ?y = "(sys_open s db d g)\<lparr>y_stream := s', y_db := db', y_owed := Suc 0\<rparr>"
  have "sys_step B oor newReceipt config ?y (?y\<lparr>y_disp := Notify (y_disp ?y), y_owed := 0\<rparr>)"
    by (rule sys_step.notify) simp
  moreover have "?y\<lparr>y_disp := Notify (y_disp ?y), y_owed := 0\<rparr> = sys_open s' db' (Notify d) g"
    by (simp add: sys_open_def)
  ultimately show ?thesis using assms by (metis converse_rtranclp_into_rtranclp r_into_rtranclp)
qed

lemma encodeBatch_length: "encodeBatch t now i ps = Inr batch \<Longrightarrow> length batch = length ps"
  by (induction t now i ps arbitrary: batch rule: encodeBatch.induct) (auto simp: gbind_def split: sum.splits)

lemma AppendBatch_length: "AppendBatch B s db ps now = (Inr recs, s', db') \<Longrightarrow> length recs = length ps"
  by (auto simp: AppendBatch_def Let_def split: if_splits sum.splits prod.splits dest: encodeBatch_length)

lemma append_steps:
  assumes "AppendBatch B s db ps now = (Inr recs, s', db')" "length ps < 2 ^ 63"
  shows "(sys_step B oor newReceipt config)\<^sup>*\<^sup>* (sys_open s db d g)
    (sys_open s' db' (if 0 < length recs then Notify d else d) g)"
proof (cases "ps = []")
  case True
  with assms show ?thesis by (auto simp: AppendBatch_def)
next
  case False
  have "sys_step B oor newReceipt config (sys_open s db d g)
      ((sys_open s db d g)\<lparr>y_stream := s', y_db := db', y_owed := Suc (y_owed (sys_open s db d g))\<rparr>)"
    by (rule sys_step.produce) (use assms in simp_all)
  then show ?thesis using False AppendBatch_length [OF assms(1)] by (simp add: owe_and_notify)
qed

lemma append_fails_step:
  assumes "AppendBatch B s db ps now = (Inl e, s', db')" "length ps < 2 ^ 63"
  shows "(sys_step B oor newReceipt config)\<^sup>*\<^sup>* (sys_open s db d g) (sys_open s' db' d g)"
  by (rule one_step, rule sys_step.produce_fails) (use assms in \<open>auto simp: sys_open_update\<close>)

lemma requeue_steps:
  assumes "Requeue B s seq db = (r, s', db')"
  shows "(sys_step B oor newReceipt config)\<^sup>*\<^sup>* (sys_open s db d g)
    (sys_open s' db' (case r of Inl _ \<Rightarrow> d | Inr _ \<Rightarrow> Notify d) g)"
proof (cases r)
  case (Inl e)
  show ?thesis unfolding Inl sum.case
    by (rule one_step, rule sys_step.requeue_fails) (use assms Inl in \<open>auto simp: sys_open_update\<close>)
next
  case (Inr rec)
  have "sys_step B oor newReceipt config (sys_open s db d g)
      ((sys_open s db d g)\<lparr>y_stream := s', y_db := db', y_owed := Suc (y_owed (sys_open s db d g))\<rparr>)"
    by (rule sys_step.requeue) (use assms Inr in auto)
  with Inr show ?thesis by (simp add: owe_and_notify)
qed

text \<open>The three sections of \<open>fillFresh\<close>, and the loop of \<open>Read\<close>.\<close>

lemma fillFresh_steps:
  assumes "fillFresh (ScanBatch B (s_name s) db) d = (r, d')"
  shows "(sys_step B oor newReceipt config)\<^sup>*\<^sup>* (sys_open s db d g) (sys_open s db d' g)"
proof (cases "fst (fill_begin d)")
  case None
  then have "d' = d" using assms by (auto simp: fillFresh_def fill_begin_def Let_def split: if_splits)
  then show ?thesis by simp
next
  case (Some a)
  then obtain lo free d1 where b: "fill_begin d = (Some (lo, free), d1)" by (cases "fill_begin d"; cases a) auto
  let ?x = "sys_open s db d g" and ?res = "ScanBatch B (s_name s) db lo free"
  let ?y = "?x\<lparr>y_disp := d1, y_scan := ScanStarted lo free\<rparr>"
  let ?z = "?y\<lparr>y_scan := Scanned lo free ?res\<rparr>"
  have "sys_step B oor newReceipt config ?x ?y" by (rule sys_step.fill_start) (use b in simp_all)
  moreover have "sys_step B oor newReceipt config ?y ?z"
    using sys_step.fill_scan [of ?y lo free B oor newReceipt config] by simp
  moreover have "sys_step B oor newReceipt config ?z (sys_open s db d' g)"
  proof (cases ?res)
    case (Inl e)
    then have "d' = fill_failed d1" using assms b by (simp add: fillFresh_def)
    with sys_step.fill_error [of ?z lo free e B oor newReceipt config] Inl show ?thesis by (simp add: sys_open_def)
  next
    case (Inr recs)
    obtain p d2 where f: "fill_end free recs d1 = (p, d2)" by fastforce
    then have "d' = d2" using assms b Inr by (simp add: fillFresh_def)
    with sys_step.fill_finish [of ?z lo free recs p d2 B oor newReceipt config] Inr f show ?thesis
      by (simp add: sys_open_def)
  qed
  ultimately show ?thesis by (meson converse_rtranclp_into_rtranclp r_into_rtranclp)
qed

lemma read_steps:
  assumes "Dispatch_Read fuel ord newReceipt (ScanBatch B (s_name s) db) wanted now d g = Some (r, d', g')" "any_order ord"
  shows "(sys_step B oor newReceipt config)\<^sup>*\<^sup>* (sys_open s db d g) (sys_open s db d' g')"
  using assms(1)
proof (induction fuel arbitrary: d g)
  case (Suc fuel)
  show ?case
  proof (cases "0 < wanted")
    case False
    with Suc.prems show ?thesis by simp
  next
    case w: True
    obtain out d1 g1 where run: "read_section ord newReceipt wanted now d g = (out, d1, g1)" by (rule prod_cases3)
    obtain fr d2 where f: "fillFresh (ScanBatch B (s_name s) db) d1 = (fr, d2)" by fastforce
    have a: "(sys_step B oor newReceipt config)\<^sup>*\<^sup>* (sys_open s db d g) (sys_open s db d1 g1)"
      by (rule one_step, rule sys_step.read [OF assms(2) w]) (use run in \<open>simp_all add: sys_open_update\<close>)
    note b = fillFresh_steps [OF f, where oor = oor and newReceipt = newReceipt and config = config and g = g1]
    note ab = rtranclp_trans [OF a b]
    consider "d' = d1" "g' = g1" | "d' = d2" "g' = g1"
      | "Dispatch_Read fuel ord newReceipt (ScanBatch B (s_name s) db) wanted now d2 g1 = Some (r, d', g')"
      using Suc.prems w run f by (cases out; cases fr) (auto split: if_splits)
    then show ?thesis
    proof cases
      case 3
      from rtranclp_trans [OF ab Suc.IH [OF 3]] show ?thesis .
    qed (use a ab in simp_all)
  qed
qed simp

section \<open>The completions\<close>

text \<open>The facade's persistence callback also counts storage errors; the store and the dispatcher
  do not see that.\<close>

lemma commit_steps:
  assumes "Dispatch_Commit ord now ds
      (\<lambda>seqs (l, db). case Commit B s seqs db of
          (Some err, db) \<Rightarrow> (case storageError err l of (err, l) \<Rightarrow> (Some err, (l, db)))
        | (None, db) \<Rightarrow> (None, (l, db))) d (l, db) = (r, d', (l', db'))"
    and "any_order ord"
  shows "(sys_step B oor newReceipt config)\<^sup>*\<^sup>* (sys_open s db d g) (sys_open s db' d' g)"
proof -
  have "Dispatch_Commit ord now ds (\<lambda>seqs. Commit B s seqs) d db = (r, d', db')"
    using assms(1)
    by (auto simp: Dispatch_Commit_def storageError_def Let_def split: if_splits sum.splits prod.splits option.splits)
  then show ?thesis
    by (intro one_step [OF sys_step.commit [OF assms(2)]]) (simp_all add: sys_open_update)
qed

lemma dead_letter_steps:
  assumes "Dispatch_DeadLetter ord now x
      (\<lambda>seq (l, db). case DeadLetter B s seq reason t db of
          (Some err, db) \<Rightarrow> (case storageError err l of (err, l) \<Rightarrow> (Some err, (l, db)))
        | (None, db) \<Rightarrow> (None, (l, db))) d (l, db) = (r, d', (l', db'))"
    and "any_order ord"
  shows "(sys_step B oor newReceipt config)\<^sup>*\<^sup>* (sys_open s db d g) (sys_open s db' d' g)"
proof -
  have "Dispatch_DeadLetter ord now x (\<lambda>seq. DeadLetter B s seq reason t) d db = (r, d', db')"
    using assms(1)
    by (auto simp: Dispatch_DeadLetter_def storageError_def Let_def split: if_splits sum.splits prod.splits option.splits)
  then show ?thesis
    by (intro one_step [OF sys_step.dead_letter [OF assms(2)]]) (simp_all add: sys_open_update)
qed

lemma retry_steps:
  assumes "Dispatch_Retry oor ord now ds d = (r, d')" "any_order ord"
  shows "(sys_step B oor newReceipt config)\<^sup>*\<^sup>* (sys_open s db d g) (sys_open s db d' g)"
  by (rule one_step, rule sys_step.retry [OF assms(2)]) (use assms(1) in \<open>simp_all add: sys_open_update\<close>)

lemma extend_steps:
  assumes "Dispatch_Extend ord now e ds d = (r, d')" "any_order ord"
  shows "(sys_step B oor newReceipt config)\<^sup>*\<^sup>* (sys_open s db d g) (sys_open s db d' g)"
  by (rule one_step, rule sys_step.extend [OF assms(2)]) (use assms(1) in \<open>simp_all add: sys_open_update\<close>)

lemma snapshot_steps:
  assumes "Snapshot ord now d = (r, d')" "any_order ord"
  shows "(sys_step B oor newReceipt config)\<^sup>*\<^sup>* (sys_open s db d g) (sys_open s db d' g)"
  by (rule one_step, rule sys_step.snapshot [OF assms(2)]) (use assms(1) in \<open>simp_all add: sys_open_update\<close>)

lemma close_steps:
  "(sys_step B oor newReceipt config)\<^sup>*\<^sup>* (sys_open s db d g) (sys_open s db (Dispatch_Close d) g)"
  by (rule one_step, rule sys_step.close) (simp add: sys_open_update)

section \<open>Each call is a run\<close>

lemma guarded_steps:
  assumes "guarded c body (l, s, db) = (r, st')"
    and "\<And>r l' s' db'. body (l\<lparr>l_active := l_active l + 1\<rparr>, s, db) = (r, (l', s', db')) \<Longrightarrow>
      (sys_step B oor newReceipt config)\<^sup>*\<^sup>* (sys_open s db (l_dispatcher l) g) (sys_open s' db' (l_dispatcher l') g)"
  shows "(sys_step B oor newReceipt config)\<^sup>*\<^sup>* (sys_of ((l, s, db), g)) (sys_of (st', g))"
proof (cases "refusal c l")
  case (Some e)
  with assms(1) show ?thesis by (auto simp: guarded_refused)
next
  case None
  obtain r1 l1 s1 db1 where b: "body (l\<lparr>l_active := l_active l + 1\<rparr>, s, db) = (r1, (l1, s1, db1))"
    by (metis prod_cases4)
  with assms(1) None have "st' = (end_op l1, s1, db1)" by (simp add: guarded_runs)
  with assms(2) [OF b] show ?thesis by (simp add: end_op_def)
qed


lemma write_steps:
  assumes "Log_Write B c now data (l, s, db) = (r, st')"
  shows "(sys_step B oor newReceipt config)\<^sup>*\<^sup>* (sys_of ((l, s, db), g)) (sys_of (st', g))"
proof (rule guarded_steps [OF assms [unfolded Log_Write_def]], goal_cases)
  case (1 r l' s' db')
  obtain res s1 db1 where a: "AppendBatch B s db [data] now = (res, s1, db1)" by (rule prod_cases3)
  show ?case
  proof (cases res)
    case (Inl e)
    with 1 a append_fails_step [of B s db "[data]" now e s1 db1] show ?thesis
      by (auto simp: Append_def failed_op_def storageError_def)
  next
    case (Inr recs)
    with 1 a append_steps [of B s db "[data]" now recs s1 db1 oor newReceipt config "l_dispatcher l" g] AppendBatch_length [of B s db "[data]" now recs s1 db1]
    show ?thesis by (auto simp: Append_def Let_def)
  qed
qed

lemma batch_write_steps:
  assumes "Log_BatchWrite B c now batch (l, s, db) = (r, st')" "length batch < 2 ^ 63"
  shows "(sys_step B oor newReceipt config)\<^sup>*\<^sup>* (sys_of ((l, s, db), g)) (sys_of (st', g))"
proof (rule guarded_steps [OF assms(1) [unfolded Log_BatchWrite_def]], goal_cases)
  case (1 r l' s' db')
  obtain res s1 db1 where a: "AppendBatch B s db batch now = (res, s1, db1)" by (rule prod_cases3)
  show ?case
  proof (cases res)
    case (Inl e)
    with 1 a append_fails_step [of B s db batch now e s1 db1] assms(2) show ?thesis
      by (auto simp: failed_op_def storageError_def)
  next
    case (Inr recs)
    with 1 a append_steps [of B s db batch now recs s1 db1 oor newReceipt config "l_dispatcher l" g] assms(2)
    show ?thesis by (cases "0 < length recs") (auto simp: Let_def)
  qed
qed

lemma read_body_steps:
  assumes "read_body B fuel ord newReceipt now n (l, s, db) g = Some (r, st', g')" "any_order ord"
  shows "(sys_step B oor newReceipt config)\<^sup>*\<^sup>* (sys_open s db (l_dispatcher l) g) (sys_of (st', g'))"
proof -
  obtain out d' gx where run: "Dispatch_Read fuel ord newReceipt (ScanBatch B (s_name s) db) n now (l_dispatcher l) g = Some (out, d', gx)"
    using assms
    by (cases "Dispatch_Read fuel ord newReceipt (ScanBatch B (s_name s) db) n now (l_dispatcher l) g")
      (auto simp: read_body_def)
  have "sys_of (st', g') = sys_open s db d' gx"
    using assms run
    by (cases out) (auto simp: read_body_def finish_read_def storageError_def end_op_def Let_def
        split: sum.splits if_splits)
  with read_steps [OF run assms(2)] show ?thesis by simp
qed

lemma log_read_steps:
  assumes "Log_Read B fuel ord newReceipt c now n (l, s, db) g = Some (r, st', g')" "any_order ord"
  shows "(sys_step B oor newReceipt config)\<^sup>*\<^sup>* (sys_of ((l, s, db), g)) (sys_of (st', g'))"
proof (cases "refusal c l")
  case (Some e)
  with assms show ?thesis by (auto simp: Log_Read_def begin_op_refusal)
next
  case None
  with assms have "read_body B fuel ord newReceipt now n (l\<lparr>l_active := l_active l + 1\<rparr>, s, db) g = Some (r, st', g')"
    by (simp add: Log_Read_def begin_op_refusal)
  from read_body_steps [OF this assms(2)] show ?thesis by simp
qed

lemma log_woken_steps:
  assumes "Log_Read_woken B fuel ord newReceipt woken now n (l, s, db) g = Some (r, st', g')" "any_order ord"
    and "woken \<in> set (wait_select e t wakeAt (l_dispatcher l))"
  shows "(sys_step B oor newReceipt config)\<^sup>*\<^sup>* (sys_of ((l, s, db), g)) (sys_of (st', g'))"
proof -
  obtain x d where w: "woken = (x, d)" by fastforce
  have a: "(sys_step B oor newReceipt config)\<^sup>*\<^sup>* (sys_open s db (l_dispatcher l) g) (sys_open s db d g)"
    by (rule one_step, rule sys_step.wake [of x d e t wakeAt]) (use assms(3) w in \<open>simp_all add: sys_open_update\<close>)
  show ?thesis
  proof (cases x)
    case None
    with assms(1) w have "read_body B fuel ord newReceipt now n (l\<lparr>l_dispatcher := d\<rparr>, s, db) g = Some (r, st', g')"
      by (simp add: Log_Read_woken_def)
    with a read_body_steps [OF this assms(2)] show ?thesis by (simp add: rtranclp_trans)
  next
    case (Some err)
    with assms(1) w have "sys_of (st', g') = sys_open s db d g"
      by (auto simp: Log_Read_woken_def finish_read_def storageError_def end_op_def Let_def split: if_splits)
    with a show ?thesis by simp
  qed
qed

lemma log_commit_steps:
  assumes "Log_Commit B ord c now xs (l, s, db) = (r, st')" "any_order ord"
  shows "(sys_step B oor newReceipt config)\<^sup>*\<^sup>* (sys_of ((l, s, db), g)) (sys_of (st', g))"
proof (rule guarded_steps [OF assms(1) [unfolded Log_Commit_def]], goal_cases)
  case (1 r l' s' db')
  then show ?case by (auto split: sum.splits prod.splits option.splits dest!: commit_steps [OF _ assms(2)])
qed

lemma log_dead_letter_steps:
  assumes "Log_DeadLetter B ord c now t x reason (l, s, db) = (r, st')" "any_order ord"
  shows "(sys_step B oor newReceipt config)\<^sup>*\<^sup>* (sys_of ((l, s, db), g)) (sys_of (st', g))"
proof (rule guarded_steps [OF assms(1) [unfolded Log_DeadLetter_def]], goal_cases)
  case (1 r l' s' db')
  then show ?case by (auto split: sum.splits prod.splits dest!: dead_letter_steps [OF _ assms(2)])
qed

lemma log_retry_steps:
  assumes "Log_Retry oor ord c now xs (l, s, db) = (r, st')" "any_order ord"
  shows "(sys_step B oor newReceipt config)\<^sup>*\<^sup>* (sys_of ((l, s, db), g)) (sys_of (st', g))"
proof (rule guarded_steps [OF assms(1) [unfolded Log_Retry_def]], goal_cases)
  case (1 r l' s' db')
  then show ?case by (auto split: sum.splits prod.splits dest!: retry_steps [OF _ assms(2)])
qed

lemma log_extend_steps:
  assumes "Log_Extend ord c now e xs (l, s, db) = (r, st')" "any_order ord"
  shows "(sys_step B oor newReceipt config)\<^sup>*\<^sup>* (sys_of ((l, s, db), g)) (sys_of (st', g))"
proof (rule guarded_steps [OF assms(1) [unfolded Log_Extend_def]], goal_cases)
  case (1 r l' s' db')
  then show ?case by (auto split: sum.splits prod.splits dest!: extend_steps [OF _ assms(2)])
qed

lemma log_dead_letters_steps:
  assumes "Log_DeadLetters B c lo n (l, s, db) = (r, st')"
  shows "(sys_step B oor newReceipt config)\<^sup>*\<^sup>* (sys_of ((l, s, db), g)) (sys_of (st', g))"
proof (rule guarded_steps [OF assms(1) [unfolded Log_DeadLetters_def]], goal_cases)
  case (1 r l' s' db')
  then show ?case by (auto simp: failed_op_def storageError_def split: sum.splits if_splits)
qed

lemma log_requeue_steps:
  assumes "Log_Requeue B c y (l, s, db) = (r, st')"
  shows "(sys_step B oor newReceipt config)\<^sup>*\<^sup>* (sys_of ((l, s, db), g)) (sys_of (st', g))"
proof (rule guarded_steps [OF assms(1) [unfolded Log_Requeue_def]], goal_cases)
  case (1 r l' s' db')
  obtain res s1 db1 where q: "Requeue B s (pos_Seq (tl_Position y)) db = (res, s1, db1)" by (rule prod_cases3)
  with 1 requeue_steps [OF q] show ?case
    by (cases res) (auto simp: failed_op_def storageError_def split: if_splits)
qed

lemma log_stats_steps:
  assumes "Log_Stats B ord now t (l, s, db) = (r, st')" "any_order ord"
  shows "(sys_step B oor newReceipt config)\<^sup>*\<^sup>* (sys_of ((l, s, db), g)) (sys_of (st', g))"
proof (rule guarded_steps [OF assms(1) [unfolded Log_Stats_def]], goal_cases)
  case (1 r l' s' db')
  obtain st d' where n: "Snapshot ord now (l_dispatcher l) = (st, d')" by fastforce
  with 1 snapshot_steps [OF n assms(2)] show ?case
    by (auto simp: failed_op_def storageError_def Let_def split: sum.splits)
qed

lemmas facade_steps = write_steps batch_write_steps log_read_steps log_woken_steps log_commit_steps log_retry_steps log_extend_steps
  log_dead_letter_steps log_dead_letters_steps log_requeue_steps log_stats_steps

lemma facade_call_steps:
  assumes "facade_call B oor newReceipt x x'"
  shows "(sys_step B oor newReceipt config)\<^sup>*\<^sup>* (sys_of x) (sys_of x')"
  using assms
proof cases
  case (Close l s db g)
  then show ?thesis using close_steps [of B oor newReceipt config s db "l_dispatcher l" g]
    by (auto simp: close_start_def Let_def)
qed (metis facade_steps prod_cases3)+

lemma facade_run_steps:
  assumes "(facade_call B oor newReceipt)\<^sup>*\<^sup>* x x'"
  shows "(sys_step B oor newReceipt config)\<^sup>*\<^sup>* (sys_of x) (sys_of x')"
  using assms by (induction rule: rtranclp_induct) (auto dest: facade_call_steps [where config = config] intro: rtranclp_trans)

text \<open>The invariant at a quiescent state.\<close>

lemma sys_inv_quiescent:
  assumes "sys_inv db_view (sys_open s db d g)"
  shows "stream_wf (db_view db) s" "quiet (pending_set (db_view db) s) (s_tail s) d"
  using assms pending_le_tail [of "db_view db" s] by (auto simp: sys_inv_def Let_def quiet_def)

lemma quiet_tracks:
  assumes "quiet P tail d"
  shows "dom (d_states d) \<subseteq> P" "\<forall>q \<in> P. d_states d q \<noteq> None \<or> d_cursor d \<le> q \<and> \<not> d_scanDone d \<and> \<not> d_scanEmpty d"
proof -
  have v: "dom (d_states d) = {q \<in> P. covered d q}" and e: "d_scanEmpty d \<longrightarrow> (\<forall>q \<in> P. covered d q)"
    using assms by (simp_all add: quiet_def view_ok_def)
  show "dom (d_states d) \<subseteq> P" using v by blast
  have "d_states d q \<noteq> None" if "q \<in> P" "covered d q" for q using v that by blast
  with e show "\<forall>q \<in> P. d_states d q \<noteq> None \<or> d_cursor d \<le> q \<and> \<not> d_scanDone d \<and> \<not> d_scanEmpty d"
    unfolding covered_def by (metis not_le)
qed

lemma facade_run_quiet:
  assumes "badger_store B db_view txn_view" "stream_wf (db_view db) s" "New False config = Inr d"
    and "(facade_call B oor newReceipt)\<^sup>*\<^sup>* ((newLogStream a d, s, db), g) ((l', s', db'), g')"
  shows "(sys_step B oor newReceipt config)\<^sup>*\<^sup>* (sys_open s db d g) (sys_open s' db' (l_dispatcher l') g')"
    and "stream_wf (db_view db') s'" "quiet (pending_set (db_view db') s') (s_tail s') (l_dispatcher l')"
proof -
  show run: "(sys_step B oor newReceipt config)\<^sup>*\<^sup>* (sys_open s db d g) (sys_open s' db' (l_dispatcher l') g')"
    using facade_run_steps [OF assms(4), of config] by (simp add: newLogStream_def)
  have "sys_inv db_view (sys_open s' db' (l_dispatcher l') g')"
    by (rule badger_store.sys_run_inv [OF assms(1) run sys_open_inv [of db_view, OF assms(2,3)]])
  then show "stream_wf (db_view db') s'" "quiet (pending_set (db_view db') s') (s_tail s') (l_dispatcher l')"
    by (rule sys_inv_quiescent)+
qed

section \<open>What a call keeps\<close>

text \<open>Only \<open>Close\<close> closes a dispatcher.\<close>

lemma fold_closed:
  assumes "\<And>x d. d_closed (f x d) = d_closed d"
  shows "d_closed (fold f xs d) = d_closed d"
  using assms by (induction xs arbitrary: d) simp_all

lemma dispatch_closed:
  "d_closed (Notify d) = d_closed d"
  "Dispatch_Commit ord now ds persist d s = (r, d', s') \<Longrightarrow> d_closed d' = d_closed d"
  "Dispatch_DeadLetter ord now x persist' d s = (r, d', s') \<Longrightarrow> d_closed d' = d_closed d"
  "Dispatch_Retry oor ord now ds d = (r, d') \<Longrightarrow> d_closed d' = d_closed d"
  "Dispatch_Extend ord now e ds d = (r, d') \<Longrightarrow> d_closed d' = d_closed d"
  "Snapshot ord now d = (st, d') \<Longrightarrow> d_closed d' = d_closed d"
proof -
  note ex = expireLocked_signal [THEN conjunct2]
  have f: "d_closed (fold release xs d) = d_closed d" "d_closed (fold (retry_one oor now) xs d) = d_closed d"
    "d_closed (fold (extend_one e) xs d) = d_closed d" for xs d
    by (rule fold_closed, simp add: release_def retry_one_def extend_one_def Let_def push_retry_def)+
  show "d_closed (Notify d) = d_closed d" by (simp add: Notify_def notifyLocked_def)
  show "Dispatch_Commit ord now ds persist d s = (r, d', s') \<Longrightarrow> d_closed d' = d_closed d"
    by (auto simp: Dispatch_Commit_def Let_def f ex notifyLocked_def split: if_splits sum.splits prod.splits option.splits)
  show "Dispatch_DeadLetter ord now x persist' d s = (r, d', s') \<Longrightarrow> d_closed d' = d_closed d"
    by (auto simp: Dispatch_DeadLetter_def Let_def release_def ex notifyLocked_def split: if_splits sum.splits prod.splits option.splits)
  show "Dispatch_Retry oor ord now ds d = (r, d') \<Longrightarrow> d_closed d' = d_closed d"
    by (auto simp: Dispatch_Retry_def Let_def f ex notifyLocked_def split: if_splits sum.splits)
  show "Dispatch_Extend ord now e ds d = (r, d') \<Longrightarrow> d_closed d' = d_closed d"
    by (auto simp: Dispatch_Extend_def Let_def f ex notifyLocked_def split: if_splits sum.splits)
  show "Snapshot ord now d = (st, d') \<Longrightarrow> d_closed d' = d_closed d"
    by (auto simp: Snapshot_def Let_def ex)
qed

text \<open>What the body of a call leaves alone.\<close>

definition keeps :: "logStream \<Rightarrow> logStream \<Rightarrow> bool" where
  "keeps l l' \<longleftrightarrow> l_self l' = l_self l \<and> l_closing l' = l_closing l \<and> l_active l' = l_active l
     \<and> d_closed (l_dispatcher l') = d_closed (l_dispatcher l)"

lemma keeps_refl [simp]: "keeps l l"
  by (simp add: keeps_def)

text \<open>A call that runs is \<open>begin\<close>, a change of this kind and \<open>end\<close>, in the sense of \<open>life_step\<close>.\<close>

lemma keeps_work: "keeps l l' \<Longrightarrow> 0 < n \<Longrightarrow> life_step (l, n) (l', n)"
  by (rule life_step.work) (simp_all add: keeps_def)

lemma enter_life: "refusal c l = None \<Longrightarrow> life_step (l, n) (l\<lparr>l_active := l_active l + 1\<rparr>, Suc n)"
  by (rule life_step.enter [of c]) (simp add: begin_op_refusal)

lemma guarded_keeps:
  assumes "guarded c body (l, s, db) = (r, (l', s', db'))"
    and "\<And>l r l' s' db'. body (l, s, db) = (r, (l', s', db')) \<Longrightarrow> keeps l l'"
  shows "keeps l l' \<and> life_step\<^sup>*\<^sup>* (l, n) (l', n)"
proof (cases "refusal c l")
  case (Some e)
  with assms(1) show ?thesis by (auto simp: guarded_refused)
next
  case None
  obtain r1 l1 s1 db1 where b: "body (l\<lparr>l_active := l_active l + 1\<rparr>, s, db) = (r1, (l1, s1, db1))"
    by (metis prod_cases4)
  with assms(1) None have l': "l' = end_op l1" by (simp add: guarded_runs)
  note k = assms(2) [OF b]
  have "keeps l l'" using k by (simp add: l' end_op_def keeps_def)
  moreover have "life_step\<^sup>*\<^sup>* (l, n) (l', n)"
    using enter_life [OF None, of n] keeps_work [OF k, of "Suc n"] life_step.leave [of l1 n]
    unfolding l' by (meson converse_rtranclp_into_rtranclp r_into_rtranclp zero_less_Suc)
  ultimately show ?thesis by blast
qed

lemma commit_persist_keeps:
  assumes "Dispatch_Commit ord now ds
      (\<lambda>seqs (l, db). case Commit B s seqs db of
          (Some err, db) \<Rightarrow> (case storageError err l of (err, l) \<Rightarrow> (Some err, (l, db)))
        | (None, db) \<Rightarrow> (None, (l, db))) (l_dispatcher l) (l, db) = (r, d', (l', db'))"
  shows "keeps l (l'\<lparr>l_dispatcher := d'\<rparr>)"
proof -
  have "l' = l \<or> (\<exists>x. l' = l\<lparr>l_storageErrors := x\<rparr>)" if "(case Commit B s seqs db of
          (Some err, db) \<Rightarrow> (case storageError err l of (err, l) \<Rightarrow> (Some err, (l, db)))
        | (None, db) \<Rightarrow> (None, (l, db))) = (e, (l', db'))" for seqs e
    using that by (cases "Commit B s seqs db"; cases "fst (Commit B s seqs db)") (auto simp: storageError_def)
  with Dispatch_Commit_persist [OF assms] have "l' = l \<or> (\<exists>x. l' = l\<lparr>l_storageErrors := x\<rparr>)" by auto
  with dispatch_closed(2) [OF assms] show ?thesis by (auto simp: keeps_def)
qed

lemma dead_letter_persist_keeps:
  assumes "Dispatch_DeadLetter ord now x
      (\<lambda>seq (l, db). case DeadLetter B s seq reason t db of
          (Some err, db) \<Rightarrow> (case storageError err l of (err, l) \<Rightarrow> (Some err, (l, db)))
        | (None, db) \<Rightarrow> (None, (l, db))) (l_dispatcher l) (l, db) = (r, d', (l', db'))"
  shows "keeps l (l'\<lparr>l_dispatcher := d'\<rparr>)"
proof -
  have "l' = l \<or> (\<exists>x. l' = l\<lparr>l_storageErrors := x\<rparr>)" if "(case DeadLetter B s seq reason t db of
          (Some err, db) \<Rightarrow> (case storageError err l of (err, l) \<Rightarrow> (Some err, (l, db)))
        | (None, db) \<Rightarrow> (None, (l, db))) = (e, (l', db'))" for seq e
    using that by (cases "DeadLetter B s seq reason t db"; cases "fst (DeadLetter B s seq reason t db)") (auto simp: storageError_def)
  with Dispatch_DeadLetter_persist [OF assms] have "l' = l \<or> (\<exists>x. l' = l\<lparr>l_storageErrors := x\<rparr>)" by auto
  with dispatch_closed(3) [OF assms] show ?thesis by (auto simp: keeps_def)
qed

lemma finish_read_keeps: "finish_read r l = (x, l') \<Longrightarrow> keeps l l'"
  by (auto simp: finish_read_def storageError_def keeps_def Let_def split: sum.splits if_splits)

text \<open>A reader leaves, or it stays and waits.\<close>

lemma read_body_keeps:
  assumes "read_body B fuel ord newReceipt now n (l, s, db) g = Some (r, (l', s', db'), g')"
  shows "\<exists>l1. keeps l l1 \<and> (l' = l1 \<or> l' = end_op l1)"
proof -
  obtain out d1 g1 where run: "Dispatch_Read fuel ord newReceipt (ScanBatch B (s_name s) db) n now (l_dispatcher l) g = Some (out, d1, g1)"
    using assms by (cases "Dispatch_Read fuel ord newReceipt (ScanBatch B (s_name s) db) n now (l_dispatcher l) g")
      (auto simp: read_body_def)
  have k: "keeps l (l\<lparr>l_dispatcher := d1\<rparr>)" using Dispatch_Read_signal [OF run] by (simp add: keeps_def)
  show ?thesis
  proof (cases out)
    case (Returned x)
    obtain y l1 where f: "finish_read x (l\<lparr>l_dispatcher := d1\<rparr>) = (y, l1)" by fastforce
    have "keeps l l1" using k finish_read_keeps [OF f] by (simp add: keeps_def)
    moreover have "l' = end_op l1" using assms run Returned f by (simp add: read_body_def)
    ultimately show ?thesis by blast
  qed (use assms run k in \<open>auto simp: read_body_def\<close>)
qed

lemma wait_select_closed: "woken \<in> set (wait_select e now wakeAt d) \<Longrightarrow> d_closed (snd woken) = d_closed d"
  by (auto simp: wait_select_def split: option.splits if_splits)

text \<open>Every call other than \<open>Close\<close> keeps the identity, the closing mark and the dispatcher's; and every
  call, \<open>Close\<close> included, is a run of the lifecycle.\<close>

definition call_frame :: "logStream \<Rightarrow> logStream \<Rightarrow> bool" where
  "call_frame l l' \<longleftrightarrow> l_self l' = l_self l \<and> (l' = close_start l
     \<or> l_closing l' = l_closing l \<and> d_closed (l_dispatcher l') = d_closed (l_dispatcher l))"

definition lives :: "logStream \<Rightarrow> logStream \<Rightarrow> bool" where
  "lives l l' \<longleftrightarrow> (\<forall>n. l_active l = int n \<longrightarrow> (\<exists>n'. life_step\<^sup>*\<^sup>* (l, n) (l', n')))"

lemma guarded_frame:
  assumes "guarded c body (l, s, db) = (r, (l', s', db'))"
    and "\<And>l r l' s' db'. body (l, s, db) = (r, (l', s', db')) \<Longrightarrow> keeps l l'"
  shows "call_frame l l' \<and> lives l l'"
proof -
  have "keeps l l' \<and> life_step\<^sup>*\<^sup>* (l, n) (l', n)" for n by (rule guarded_keeps [OF assms(1)]) (rule assms(2))
  then show ?thesis unfolding call_frame_def lives_def keeps_def by blast
qed

lemma read_frame_lives:
  assumes "keeps l0 l1" "l' = l1 \<or> l' = end_op l1" "0 < n" "life_step\<^sup>*\<^sup>* (l, m) (l0, n)"
  shows "\<exists>n'. life_step\<^sup>*\<^sup>* (l, m) (l', n')"
proof -
  have a: "life_step\<^sup>*\<^sup>* (l, m) (l1, n)" using assms(4) keeps_work [OF assms(1,3)] by (rule rtranclp.rtrancl_into_rtrancl)
  obtain n0 where "n = Suc n0" using assms(3) by (cases n) auto
  with a life_step.leave [of l1 n0] assms(2) show ?thesis by (metis rtranclp.rtrancl_into_rtrancl)
qed

lemma facade_call_frame:
  assumes "facade_call B oor newReceipt ((l, s, db), g) ((l', s', db'), g')"
  shows "call_frame l l' \<and> lives l l'"
  using assms
proof cases
  case (Write c now data r)
  show ?thesis
    by (rule guarded_frame [OF Write(2) [unfolded Log_Write_def]])
      (auto simp: failed_op_def storageError_def keeps_def Let_def dispatch_closed split: sum.splits prod.splits)
next
  case (BatchWrite batch c now r)
  show ?thesis
    by (rule guarded_frame [OF BatchWrite(3) [unfolded Log_BatchWrite_def]])
      (auto simp: failed_op_def storageError_def keeps_def Let_def dispatch_closed split: sum.splits prod.splits if_splits)
next
  case (Read ord fuel c now n r)
  show ?thesis
  proof (cases "refusal c l")
    case (Some e)
    with Read show ?thesis by (auto simp: Log_Read_def begin_op_refusal call_frame_def lives_def)
  next
    case None
    let ?l = "l\<lparr>l_active := l_active l + 1\<rparr>"
    obtain l1 where k: "keeps ?l l1" "l' = l1 \<or> l' = end_op l1"
      using Read None read_body_keeps [of B fuel ord newReceipt now n ?l s db g r l' s' db' g']
      by (auto simp: Log_Read_def begin_op_refusal)
    have "lives l l'" unfolding lives_def
      using read_frame_lives [OF k, of "Suc m" l m for m] enter_life [OF None] by blast
    with k show ?thesis by (auto simp: call_frame_def keeps_def end_op_def)
  qed
next
  case (Wake ord woken e now wakeAt fuel n r)
  obtain x d where w: "woken = (x, d)" by fastforce
  let ?l = "l\<lparr>l_dispatcher := d\<rparr>"
  have kd: "keeps l ?l" using wait_select_closed [OF Wake(3)] w by (simp add: keeps_def)
  obtain l1 where "keeps ?l l1" "l' = l1 \<or> l' = end_op l1"
  proof (cases x)
    case None
    with Wake(4) w read_body_keeps [of B fuel ord newReceipt now n ?l s db g r l' s' db' g'] that show ?thesis
      by (auto simp: Log_Read_woken_def)
  next
    case (Some err)
    obtain y l1 where f: "finish_read (Inl err) ?l = (y, l1)" by fastforce
    with Wake(4) w Some finish_read_keeps [OF f] that show ?thesis by (auto simp: Log_Read_woken_def)
  qed
  then have k: "keeps l l1" "l' = l1 \<or> l' = end_op l1" using kd by (auto simp: keeps_def)
  have "lives l l'" unfolding lives_def
    using read_frame_lives [OF k, of m l m for m] Wake(2) by auto
  with k show ?thesis by (auto simp: call_frame_def keeps_def end_op_def)
next
  case (Commit ord c now xs r)
  show ?thesis
    by (rule guarded_frame [OF Commit(3) [unfolded Log_Commit_def]])
      (auto simp: keeps_def split: sum.splits prod.splits option.splits dest!: commit_persist_keeps)
next
  case (Retry ord c now xs r)
  show ?thesis
    by (rule guarded_frame [OF Retry(3) [unfolded Log_Retry_def]])
      (auto simp: keeps_def split: sum.splits prod.splits dest!: dispatch_closed(2-))
next
  case (Extend ord c now e xs r)
  show ?thesis
    by (rule guarded_frame [OF Extend(3) [unfolded Log_Extend_def]])
      (auto simp: keeps_def split: sum.splits prod.splits dest!: dispatch_closed(2-))
next
  case (DeadLetter ord c now t x reason r)
  show ?thesis
    by (rule guarded_frame [OF DeadLetter(3) [unfolded Log_DeadLetter_def]])
      (auto simp: keeps_def split: sum.splits prod.splits dest!: dead_letter_persist_keeps)
next
  case (DeadLetters c lo n rd)
  show ?thesis
    by (rule guarded_frame [OF DeadLetters(2) [unfolded Log_DeadLetters_def]])
      (auto simp: failed_op_def storageError_def keeps_def split: sum.splits if_splits)
next
  case (Requeue c y rp)
  show ?thesis
    by (rule guarded_frame [OF Requeue(2) [unfolded Log_Requeue_def]])
      (auto simp: failed_op_def storageError_def keeps_def dispatch_closed split: sum.splits prod.splits if_splits)
next
  case (Stats ord now t rs)
  show ?thesis
    by (rule guarded_frame [OF Stats(3) [unfolded Log_Stats_def]])
      (auto simp: failed_op_def storageError_def keeps_def Let_def split: sum.splits prod.splits dest!: dispatch_closed(2-))
next
  case Close
  have "lives l (close_start l)" unfolding lives_def using life_step.close by blast
  with Close show ?thesis by (simp add: call_frame_def close_start_def Let_def)
qed

lemma facade_call_self: "facade_call B oor newReceipt ((l, s, db), g) ((l', s', db'), g') \<Longrightarrow> l_self l' = l_self l"
  using facade_call_frame by (fastforce simp: call_frame_def)

text \<open>So the lifecycle covers the real operations: any history of calls is a run of \<open>life_step\<close>, and the
  log is marked closing exactly when its dispatcher is closed.\<close>

lemma facade_run_life:
  assumes "(facade_call B oor newReceipt)\<^sup>*\<^sup>* ((newLogStream a d, s, db), g) ((l', s', db'), g')"
  shows "\<exists>n. life_step\<^sup>*\<^sup>* (newLogStream a d, 0) (l', n)"
  using assms
proof (induction "((l', s', db'), g')" arbitrary: l' s' db' g' rule: rtranclp_induct)
  case base
  then show ?case by blast
next
  case (step y)
  obtain l1 s1 db1 g1 where y: "y = ((l1, s1, db1), g1)" by (metis prod.collapse)
  with step(3) obtain n where n: "life_step\<^sup>*\<^sup>* (newLogStream a d, 0) (l1, n)" by blast
  have "l_active l1 = int n" using life_run_inv [OF n life_new] by (simp add: life_inv_def)
  with facade_call_frame [OF step(2) [unfolded y]] obtain n' where "life_step\<^sup>*\<^sup>* (l1, n) (l', n')" by (auto simp: lives_def)
  with n show ?case by (meson rtranclp_trans)
qed

lemma facade_run_closing:
  assumes "(facade_call B oor newReceipt)\<^sup>*\<^sup>* ((newLogStream a d, s, db), g) ((l', s', db'), g')" "\<not> d_closed d"
  shows "l_closing l' \<longleftrightarrow> d_closed (l_dispatcher l')"
  using assms(1)
proof (induction "((l', s', db'), g')" arbitrary: l' s' db' g' rule: rtranclp_induct)
  case base
  with assms(2) show ?case by (simp add: newLogStream_def)
next
  case (step y)
  obtain l1 s1 db1 g1 where y: "y = ((l1, s1, db1), g1)" by (metis prod.collapse)
  with step(3) facade_call_frame [OF step(2) [unfolded y]] show ?case
    by (auto simp: call_frame_def close_start_def Let_def Dispatch_Close_def notifyLocked_def split: if_splits)
qed

text \<open>A closed log on which no call is active: nothing can change it or reach the storage.\<close>

definition stopped :: "logStream \<Rightarrow> bool" where
  "stopped l \<longleftrightarrow> l_closing l \<and> \<not> 0 < l_active l"

lemma stopped_refusal: "stopped l \<Longrightarrow> \<exists>e. refusal c l = Some e"
  by (cases c) (simp_all add: stopped_def refusal_def)

lemma guarded_stopped: "stopped l \<Longrightarrow> guarded c body (l, s, db) = (r, st') \<Longrightarrow> st' = (l, s, db)"
  using stopped_refusal [of l c] by (auto simp: guarded_refused)

lemma facade_call_stopped:
  assumes "facade_call B oor newReceipt ((l, s, db), g) x'" "stopped l"
  shows "x' = ((l, s, db), g)"
  using assms(1)
proof cases
  case (Read ord fuel c now n r st' g')
  with stopped_refusal [OF assms(2), of c] show ?thesis by (auto simp: Log_Read_def begin_op_refusal)
next
  case Wake
  with assms(2) show ?thesis by (simp add: stopped_def)
next
  case Close
  with assms(2) show ?thesis by (simp add: stopped_def close_start_def)
qed (auto simp: Log_Write_def Log_BatchWrite_def Log_Commit_def Log_Retry_def Log_Extend_def Log_DeadLetter_def
    Log_DeadLetters_def Log_Requeue_def Log_Stats_def dest: guarded_stopped [OF assms(2)])

end
