(* ===== verification/Log_Props.thy ===== *)
theory Log_Props
  imports Log_Refinement Dispatch_Props
begin

text \<open>
  The properties of the log facade and of the error mapping, with their witnesses on the
  demonstration stream. \<open>demo_log\<close> is a log just opened on it.
\<close>

section \<open>Demonstration states\<close>

definition demo_log :: logStream where
  "demo_log = newLogStream 3 demo_disp"

lemma demo_refusal: "refusal Live demo_log = None"
  by (simp add: refusal_def demo_log_def newLogStream_def)

lemma demo_quiet: "quiet (pending_set (map_of demo_db1) demo_stream1) (s_tail demo_stream1) (l_dispatcher demo_log)"
proof -
  have p: "pending_set (map_of demo_db1) demo_stream1 = {1}" and t: "s_tail demo_stream1 = 1"
    using demo_pending1 by (simp_all add: pending_set_def demo_stream1_def demo_stream_def)
  have "covered demo_disp q \<longleftrightarrow> q = 0" for q by (simp add: covered_def demo_disp_eq word_less_1)
  moreover have "d_states demo_disp = Map.empty" "\<not> d_scanEmpty demo_disp" by (simp_all add: demo_disp_eq)
  ultimately show ?thesis
    using New_inv [OF demo_New] unfolding p t by (auto simp: quiet_def view_ok_def demo_log_def newLogStream_def)
qed

section \<open>Writing\<close>

text \<open>C32. Writing through the facade. A batch write that returns positions ran on an open log with a live
  context; the store appended exactly this batch, the positions are its sequences in order, the
  write counter grew by their number, and, unless the batch was empty, the dispatcher is told to
  scan again and a reader is signalled. One that fails leaves the stream, the database contents
  and the dispatcher as they were. Either way the number of active calls is as before.\<close>

theorem batch_write_durable:
  assumes "badger_store B db_view txn_view" "stream_wf (db_view db) s" "length data < 2 ^ 63"
    and "Log_BatchWrite B c now data (l, s, db) = (r, (l', s', db'))"
  shows "l_active l' = l_active l \<and> l_closing l' = l_closing l \<and> (case r of
      Inl e \<Rightarrow> s' = s \<and> db_view db' = db_view db \<and> l_dispatcher l' = l_dispatcher l \<and> l_writes l' = l_writes l
    | Inr positions \<Rightarrow> c = Live \<and> \<not> l_closing l
        \<and> (\<exists>recs. append_effect s (db_view db) data now recs s' (db_view db') \<and> map pos_Seq positions = map r_Seq recs)
        \<and> l_writes l' = l_writes l + word_of_nat (length data)
        \<and> (data \<noteq> [] \<longrightarrow> d_signal (l_dispatcher l') \<and> \<not> d_scanEmpty (l_dispatcher l')))"
proof (cases "refusal c l")
  case (Some e)
  from assms(4) show ?thesis
    unfolding Log_BatchWrite_def guarded_refused [OF Some] by auto
next
  case None
  obtain ra s1 db1 where run: "AppendBatch B s db data now = (ra, s1, db1)" by (rule prod_cases3)
  show ?thesis
  proof (cases ra)
    case (Inl e)
    with badger_store.AppendBatch_failed [OF assms(1)] run have "s1 = s \<and> db_view db1 = db_view db" by blast
    with assms(4) run Inl show ?thesis
      unfolding Log_BatchWrite_def guarded_runs [OF None]
      by (auto simp: failed_op_def storageError_def end_op_def)
  next
    case (Inr recs)
    have e: "append_effect s (db_view db) data now recs s1 (db_view db1)"
      using badger_store.AppendBatch_refines [OF assms(1,2), of data] assms(3) run Inr by simp
    then have len: "length recs = length data" by (metis append_effect_def length_map)
    have "c = Live" "\<not> l_closing l" using None by (auto simp: refusal_def split: ctx.splits if_splits)
    moreover have "map pos_Seq (map (\<lambda>x. \<lparr>pos_Seq = r_Seq x\<rparr>) recs) = map r_Seq recs" by simp
    ultimately show ?thesis
      using assms(4) run Inr e len unfolding Log_BatchWrite_def guarded_runs [OF None]
      by (cases "data = []") (auto simp: Let_def end_op_def Notify_def notifyLocked_def comp_def)
  qed
qed

theorem batch_write_durable_witness:
  "\<exists>ps l'. Log_BatchWrite mem_badger Live 5 [[7]] (demo_log, demo_stream, demo_db) = (Inr ps, (l', demo_stream1, demo_db1))
     \<and> map pos_Seq ps = [1] \<and> d_signal (l_dispatcher l') \<and> l_writes l' = 1"
proof -
  let ?l = "demo_log\<lparr>l_writes := 1, l_dispatcher := Notify demo_disp\<rparr>"
  have run: "Log_BatchWrite mem_badger Live 5 [[7]] (demo_log, demo_stream, demo_db)
      = (Inr [\<lparr>pos_Seq = 1\<rparr>], (?l, demo_stream1, demo_db1))"
    unfolding Log_BatchWrite_def guarded_runs [OF demo_refusal]
    by (simp add: demo_append Let_def end_op_def demo_log_def newLogStream_def)
  have "d_signal (l_dispatcher ?l)" "l_writes ?l = 1"
    using batch_write_durable [OF mem.badger_store_axioms demo_wf _ run] by (simp_all add: demo_log_def newLogStream_def)
  with run show ?thesis by (intro exI [of _ "[\<lparr>pos_Seq = 1\<rparr>]"] exI [of _ ?l]) simp
qed

section \<open>Histories of calls\<close>

text \<open>C2. At-least-once through the facade. Open a log on a well-formed stream and make any sequence of
  calls on it, with any arguments, contexts, clock readings and outcomes, closing included. The
  history is a run of the stream's critical sections, so the stream stays well-formed and the
  dispatcher tracks pending records only; a pending record that it does not track lies at or
  above the scan cursor with scanning enabled. The log is closing exactly when its dispatcher is
  closed. A further \<open>Read\<close> on a closing log is refused with \<open>ErrClosed\<close>. On an open one it decides within
  two rounds: it returns deliveries, at most as many as asked for; or it waits and nothing can
  be delivered; or it fails, and then a scan of the store failed with that error, or no receipt
  could be made.\<close>

theorem facade_history:
  assumes "badger_store B db_view txn_view" "stream_wf (db_view db) s" "New False config = Inr d"
    and "(facade_call B oor newReceipt)\<^sup>*\<^sup>* ((newLogStream a d, s, db), g) ((l', s', db'), g')"
    and "P = pending_set (db_view db') s'" "any_order ord" "0 < n"
  shows "(sys_step B oor newReceipt config)\<^sup>*\<^sup>* (sys_open s db d g) (sys_open s' db' (l_dispatcher l') g')
    \<and> stream_wf (db_view db') s' \<and> dom (d_states (l_dispatcher l')) \<subseteq> P
    \<and> (\<forall>q \<in> P. d_states (l_dispatcher l') q \<noteq> None
         \<or> d_cursor (l_dispatcher l') \<le> q \<and> \<not> d_scanDone (l_dispatcher l') \<and> \<not> d_scanEmpty (l_dispatcher l'))
    \<and> (l_closing l' \<longleftrightarrow> d_closed (l_dispatcher l'))
    \<and> (l_closing l' \<longrightarrow>
         Log_Read B k ord newReceipt Live now n (l', s', db') g' = Some (ReadDone (Inl (TeakError ErrClosed)), (l', s', db'), g'))
    \<and> (\<not> l_closing l' \<longrightarrow>
         (\<exists>r l'' g''. Log_Read B (Suc (Suc k)) ord newReceipt Live now n (l', s', db') g' = Some (r, (l'', s', db'), g'')
           \<and> (case r of ReadDone (Inr xs) \<Rightarrow> xs \<noteq> [] \<and> int (length xs) \<le> n
              | ReadDone (Inl e) \<Rightarrow>
                  (\<exists>lo limit err. 0 < limit \<and> ScanBatch B (s_name s') db' lo limit = Inl err \<and> e = mapError err)
                  \<or> (\<exists>err. e = mapError (Errorf [err])
                       \<and> (err = ErrorText ''receipt collision limit reached'' \<or> (\<exists>gx gy. newReceipt gx = (Inl err, gy))))
              | ReadWaits wake \<Rightarrow> nothing_due P now (l_dispatcher l''))))"
proof -
  note h = facade_run_quiet [OF assms(1-4)]
  have cl: "l_closing l' \<longleftrightarrow> d_closed (l_dispatcher l')"
    using facade_run_closing [OF assms(4)] New_fields [OF assms(3)] by simp
  have "Log_Read B k ord newReceipt Live now n (l', s', db') g' = Some (ReadDone (Inl (TeakError ErrClosed)), (l', s', db'), g')"
    if "l_closing l'"
    using that by (simp add: Log_Read_def begin_op_refusal refusal_def)
  moreover have "\<exists>r l'' g''. Log_Read B (Suc (Suc k)) ord newReceipt Live now n (l', s', db') g' = Some (r, (l'', s', db'), g'')
           \<and> (case r of ReadDone (Inr xs) \<Rightarrow> xs \<noteq> [] \<and> int (length xs) \<le> n
              | ReadDone (Inl e) \<Rightarrow>
                  (\<exists>lo limit err. 0 < limit \<and> ScanBatch B (s_name s') db' lo limit = Inl err \<and> e = mapError err)
                  \<or> (\<exists>err. e = mapError (Errorf [err])
                       \<and> (err = ErrorText ''receipt collision limit reached'' \<or> (\<exists>gx gy. newReceipt gx = (Inl err, gy))))
              | ReadWaits wake \<Rightarrow> nothing_due P now (l_dispatcher l''))" if op: "\<not> l_closing l'"
  proof -
    let ?scan = "ScanBatch B (s_name s') db'"
    obtain r dr gr where rd: "Dispatch_Read (Suc (Suc k)) ord newReceipt ?scan n now (l_dispatcher l') g' = Some (r, dr, gr)"
      and ok: "read_ok P (s_tail s') n now r dr"
      using badger_store.store_read_correct [OF assms(1) h(2,3) assms(6,7), of k newReceipt now g'] assms(5) by blast
    have ref: "refusal Live l' = None" using op by (simp add: refusal_def)
    note ev = Log_Read_unfold begin_op_refusal ref rd
    show ?thesis
    proof (cases r)
      case (Blocked wake)
      with ok show ?thesis by (simp add: ev read_ok_def del: Dispatch_Read.simps)
    next
      case (Returned x)
      show ?thesis
      proof (cases x)
        case (Inr ds)
        with ok Returned show ?thesis by (simp add: ev read_ok_def finish_read_def del: Dispatch_Read.simps)
      next
        case (Inl err)
        have "read_error newReceipt ?scan (l_dispatcher l') err"
          using Dispatch_Read_error [OF rd [unfolded Returned Inl] assms(7)] .
        then have "(\<exists>lo limit. 0 < limit \<and> ?scan lo limit = Inl err)
            \<or> (\<exists>e. err = Errorf [e] \<and> (e = ErrorText ''receipt collision limit reached'' \<or> (\<exists>gx gy. newReceipt gx = (Inl e, gy))))"
          using op cl unfolding read_error_def by (metis unique_error)
        moreover have "\<exists>l2. finish_read (Inl err) (l'\<lparr>l_active := l_active l' + 1, l_dispatcher := dr\<rparr>) = (Inl (mapError err), l2)"
          by (simp add: finish_read_def storageError_def Let_def)
        then obtain l2 where f: "finish_read (Inl err) (l'\<lparr>l_active := l_active l' + 1, l_dispatcher := dr\<rparr>) = (Inl (mapError err), l2)"
          by blast
        ultimately have "(\<exists>lo limit e0. 0 < limit \<and> ?scan lo limit = Inl e0 \<and> mapError err = mapError e0)
            \<or> (\<exists>e. mapError err = mapError (Errorf [e])
                 \<and> (e = ErrorText ''receipt collision limit reached'' \<or> (\<exists>gx gy. newReceipt gx = (Inl e, gy))))"
          by blast
        with f Returned Inl show ?thesis by (simp add: ev del: Dispatch_Read.simps)
      qed
    qed
  qed
  ultimately show ?thesis using cl h(1,2) quiet_tracks [OF h(3) [folded assms(5)]] by blast
qed

theorem facade_history_witness:
  "\<exists>l'. (facade_call mem_badger (\<lambda>_. 0) demo_gen)\<^sup>*\<^sup>* ((demo_log, demo_stream, demo_db), 7) ((l', demo_stream1, demo_db1), 7)
     \<and> dom (d_states (l_dispatcher l')) \<subseteq> {1}
     \<and> (\<exists>r x g''. Log_Read mem_badger (Suc (Suc 0)) id demo_gen Live 100 1 (l', demo_stream1, demo_db1) 7 = Some (r, x, g''))
     \<and> dom (d_states (l_dispatcher (close_start l'))) \<subseteq> {1} \<and> d_closed (l_dispatcher (close_start l'))"
proof -
  let ?C = "facade_call mem_badger (\<lambda>_. 0 :: int) demo_gen"
  obtain r l' where w: "Log_BatchWrite mem_badger Live 5 [[7]] (demo_log, demo_stream, demo_db) = (r, (l', demo_stream1, demo_db1))"
    and op: "\<not> l_closing l'"
    unfolding Log_BatchWrite_def guarded_runs [OF demo_refusal]
    by (simp add: demo_append Let_def end_op_def demo_log_def newLogStream_def)
  have run: "?C\<^sup>*\<^sup>* ((demo_log, demo_stream, demo_db), 7) ((l', demo_stream1, demo_db1), 7)"
    by (rule r_into_rtranclp, rule facade_call.BatchWrite [OF _ w]) simp
  have closed: "?C\<^sup>*\<^sup>* ((demo_log, demo_stream, demo_db), 7) ((close_start l', demo_stream1, demo_db1), 7)"
    by (rule rtranclp.rtrancl_into_rtrancl [OF run facade_call.Close])
  have P: "{1} = pending_set (map_of demo_db1) demo_stream1"
    using demo_pending1 by (simp add: pending_set_def demo_stream1_def demo_stream_def)
  note hist = facade_history [OF mem.badger_store_axioms demo_wf demo_New _ P any_order_id, where n = 1 and k = 0 and now = 100,
      folded demo_log_def]
  have "l_closing (close_start l')" by (simp add: close_start_def Let_def)
  with hist [OF run [unfolded demo_log_def]] hist [OF closed [unfolded demo_log_def]] op run show ?thesis by auto
qed

section \<open>Reading and committing\<close>

text \<open>A token stands for the lease of its receipt, record and attempt only.\<close>

lemma holds_lease_unwrap: "holds_lease t d (unwrap_one (wrap l x)) = holds_lease t d x"
  by (simp add: holds_lease_def unwrap_wrap dl_seq_def)

lemma wrap_self: "l_self l' = l_self l \<Longrightarrow> wrap l' = wrap l"
  by (simp add: wrap_def fun_eq_iff)

lemma Log_Read_returned:
  assumes "Log_Read B fuel ord newReceipt c now n (l, s, db) g = Some (ReadDone (Inr xs), (l', s', db'), g')"
  obtains ds d' where "refusal c l = None" "s' = s" "db' = db" "l' = l\<lparr>l_dispatcher := d'\<rparr>" "xs = map (wrap l) ds"
    "Dispatch_Read fuel ord newReceipt (ScanBatch B (s_name s) db) n now (l_dispatcher l) g = Some (Returned (Inr ds), d', g')"
proof (cases "refusal c l")
  case (Some e)
  with assms show ?thesis by (simp add: Log_Read_unfold begin_op_refusal)
next
  case None
  then obtain r d1 g1 where run: "Dispatch_Read fuel ord newReceipt (ScanBatch B (s_name s) db) n now (l_dispatcher l) g = Some (r, d1, g1)"
    using assms by (auto simp: Log_Read_unfold begin_op_refusal split: option.splits prod.splits)
  from assms None run show ?thesis
    by (intro that [of d1 "case r of Returned (Inr ds) \<Rightarrow> ds | _ \<Rightarrow> []"])
      (auto simp: Log_Read_unfold begin_op_refusal finish_read_def storageError_def end_op_def wrap_def Let_def
        split: read_result.splits sum.splits if_splits)
qed

text \<open>C16. What is read can be committed. Deliveries returned by \<open>Read\<close>, handed back to \<open>Commit\<close> before the
  deadline they show, are accepted as a whole: the store is asked to complete exactly their
  sequences. When it does, exactly these records are gone and the commit counter has grown by
  their number; when it fails, the caller gets the store's error and nothing has changed in the
  database.\<close>

theorem read_commit_round_trip:
  assumes B: "badger_store B db_view txn_view" and wf: "stream_wf (db_view db) s"
    and q: "quiet (pending_set (db_view db) s) (s_tail s) (l_dispatcher l)" and ord: "any_order ord" and n: "0 < n"
    and read: "Log_Read B (Suc (Suc k)) ord newReceipt Live now n (l, s, db) g = Some (ReadDone (Inr xs), st, g')"
    and live: "\<forall>x \<in> set xs. t < td_Deadline x"
    and commit: "Log_Commit B ord Live t xs st = (r, (l', s', db'))"
    and seqs: "seqs = map (\<lambda>x. pos_Seq (td_Position x)) xs"
  shows "xs \<noteq> [] \<and> (case Commit B s seqs db of
      (None, _) \<Rightarrow> r = Inr () \<and> commit_effect s (db_view db) seqs (db_view db')
        \<and> l_commits l' = l_commits l + word_of_nat (length xs)
    | (Some err, _) \<Rightarrow> r = Inl (mapError err) \<and> db_view db' = db_view db)"
proof -
  obtain lr sr dbr where st: "st = (lr, sr, dbr)" by (rule prod_cases3)
  obtain ds d' where ok: "refusal Live l = None" and st': "st = (l\<lparr>l_dispatcher := d'\<rparr>, s, db)" and xs: "xs = map (wrap l) ds"
    and rd: "Dispatch_Read (Suc (Suc k)) ord newReceipt (ScanBatch B (s_name s) db) n now (l_dispatcher l) g = Some (Returned (Inr ds), d', g')"
    using Log_Read_returned [OF read [unfolded st]] st by metis
  obtain r0 d0 g0 where c: "Dispatch_Read (Suc (Suc k)) ord newReceipt (ScanBatch B (s_name s) db) n now (l_dispatcher l) g = Some (r0, d0, g0)"
    "read_ok (pending_set (db_view db) s) (s_tail s) n now r0 d0"
    using badger_store.store_read_correct [OF B wf q ord n, of k newReceipt now g] by blast
  then have ro: "read_ok (pending_set (db_view db) s) (s_tail s) n now (Returned (Inr ds)) d'" using rd by simp
  then have inv: "disp_inv d'" and ne: "ds \<noteq> []" and fr: "fresh_leases now d' ds"
    by (simp_all add: read_ok_def quiet_def view_ok_def)
  have op: "\<not> d_closed d'" using Dispatch_Read_closed [OF _ rd] Dispatch_Read_signal [OF rd] by auto
  let ?ys = "map (unwrap_one \<circ> wrap l) ds" and ?l = "l\<lparr>l_dispatcher := d'\<rparr>"
  have sq: "map dl_seq ?ys = seqs" unfolding seqs xs by (simp add: unwrap_wrap dl_seq_def) (simp add: wrap_def)
  have "holds_lease t d' x" if "x \<in> set ds" for x
  proof -
    have "t < now + VisibilityTimeout (d_config d')" using that live fr xs by (auto simp: wrap_def fresh_leases_def)
    with fr that show ?thesis by (rule leases_held)
  qed
  moreover have "distinct (map dl_Receipt ?ys)" using fr by (simp add: fresh_leases_def unwrap_wrap comp_def)
  ultimately have v: "validateLocked (expireLocked ord t d') ?ys = Inr seqs"
    using validate_after_expiry [OF inv ord, of t ?ys] sq by (simp add: holds_lease_unwrap)
  have uw: "unwrap (?l\<lparr>l_active := a\<rparr>) xs = Inr ?ys" for a
    unfolding xs using unwrap_own [of xs "?l\<lparr>l_active := a\<rparr>"] xs by (simp add: wrap_def)
  have ref: "refusal Live ?l = None" using ok by (simp add: refusal_def)
  have ne': "?ys \<noteq> []" "xs \<noteq> []" using ne xs by simp_all
  obtain rc dbc where cm: "Commit B s seqs db = (rc, dbc)" by fastforce
  from commit st' cm show ?thesis
    unfolding Log_Commit_def st' guarded_runs [OF ref]
    using op v uw ne' badger_store.Commit_refines [OF B wf] badger_store.Commit_failed [OF B]
    by (cases rc) (auto simp: Dispatch_Commit_def Let_def storageError_def end_op_def)
qed

lemma Log_Commit_stream: "Log_Commit B ord c now xs (l, s, db) = (r, (l', s', db')) \<Longrightarrow> s' = s"
  by (auto simp: Log_Commit_def guarded_def split: prod.splits option.splits sum.splits)

theorem read_commit_round_trip_witness:
  "\<exists>xs st g' l' db'. Log_Read mem_badger (Suc (Suc 1)) id demo_gen Live 100 1 (demo_log, demo_stream1, demo_db1) 7 = Some (ReadDone (Inr xs), st, g')
     \<and> Log_Commit mem_badger id Live 105 xs st = (Inr (), (l', demo_stream1, db'))
     \<and> commit_effect demo_stream1 (map_of demo_db1) [1] (map_of db') \<and> l_commits l' = 1"
proof -
  let ?l = "demo_log\<lparr>l_dispatcher := demo_leased\<rparr>"
  have rd: "Dispatch_Read (Suc (Suc 1)) id demo_gen (ScanBatch mem_badger (s_name demo_stream1) demo_db1) 1 100 demo_disp 7 =
      Some (Returned (Inr [demo_delivery]), demo_leased, 8)"
    using demo_read by (simp only: numeral_3_eq_3 One_nat_def)
  then have read: "Log_Read mem_badger (Suc (Suc 1)) id demo_gen Live 100 1 (demo_log, demo_stream1, demo_db1) 7
      = Some (ReadDone (Inr [wrap demo_log demo_delivery]), (?l, demo_stream1, demo_db1), 8)"
    by (simp add: Log_Read_unfold begin_op_refusal refusal_def finish_read_def end_op_def demo_log_def newLogStream_def
        wrap_def del: Dispatch_Read.simps)
  have dl: "\<forall>x \<in> set [wrap demo_log demo_delivery]. 105 < td_Deadline x" by (simp add: wrap_def demo_delivery_def)
  have sq: "[1] = map (\<lambda>x. pos_Seq (td_Position x)) [wrap demo_log demo_delivery]"
    by (simp add: wrap_def demo_delivery_def demo_record_def)
  obtain r l' s' db' where cm: "Log_Commit mem_badger id Live 105 [wrap demo_log demo_delivery] (?l, demo_stream1, demo_db1) = (r, (l', s', db'))"
    by (cases "Log_Commit mem_badger id Live 105 [wrap demo_log demo_delivery] (?l, demo_stream1, demo_db1)") auto
  have "\<exists>db'. Commit mem_badger demo_stream1 [1] demo_db1 = (None, db')"
    unfolding demo_db1_eval by (simp add: eval_simps demo_stream1_def demo_stream_def)
  then have "r = Inr ()" "commit_effect demo_stream1 (map_of demo_db1) [1] (map_of db')" "l_commits l' = 1"
    using read_commit_round_trip [OF mem.badger_store_axioms demo_wf1 demo_quiet any_order_id _ read dl cm sq]
    by (auto simp: demo_log_def newLogStream_def)
  moreover have "s' = demo_stream1" using cm by (rule Log_Commit_stream)
  ultimately show ?thesis using read cm by blast
qed

section \<open>Refusals\<close>

lemma refusal_closing: "l_closing l \<Longrightarrow> refusal Live l = Some (TeakError ErrClosed)"
  by (simp add: refusal_def)

text \<open>C33. Refusals. On a log that is closing, or with a context that is done, every operation fails with
  \<open>ErrClosed\<close> or the context's error and changes nothing at all; \<open>Stats\<close>, which takes no context, is refused
  on a closing log, and \<open>Close\<close>, which a closing log still accepts, with a done context. On an open log, a delivery or dead
  letter that another log handed out, or that nobody did, is refused with \<open>ErrInvalidDelivery\<close> or
  \<open>ErrInvalidDeadLetter\<close>, again without any change, for a batch as a whole.\<close>

theorem refused_operations:
  assumes st: "st = (l, s, db)"
  shows "(refusal c l = Some e \<longrightarrow>
      Log_Write B c now data st = (Inl e, st) \<and> Log_BatchWrite B c now batch st = (Inl e, st)
      \<and> Log_Read B fuel ord newReceipt c now n st g = Some (ReadDone (Inl e), st, g)
      \<and> Log_Commit B ord c now xs st = (Inl e, st) \<and> Log_Retry oor ord c now xs st = (Inl e, st)
      \<and> Log_Extend ord c now ext xs st = (Inl e, st) \<and> Log_DeadLetter B ord c now t x reason st = (Inl e, st)
      \<and> Log_DeadLetters B c pos n st = (Inl e, st) \<and> Log_Requeue B c y st = (Inl e, st))
   \<and> (l_closing l \<longrightarrow> Log_Stats B ord now t st = (Inl (TeakError ErrClosed), st))
   \<and> (c = Done e \<longrightarrow> Log_Close c l = (Some (Some e), l))
   \<and> (refusal c l = None \<and> x \<in> set xs \<and> td_owner x \<noteq> Some (l_self l) \<longrightarrow>
      Log_Commit B ord c now xs st = (Inl (TeakError ErrInvalidDelivery), st)
      \<and> Log_Retry oor ord c now xs st = (Inl (TeakError ErrInvalidDelivery), st)
      \<and> Log_Extend ord c now ext xs st = (Inl (TeakError ErrInvalidDelivery), st)
      \<and> Log_DeadLetter B ord c now t x reason st = (Inl (TeakError ErrInvalidDelivery), st))
   \<and> (refusal c l = None \<and> tl_owner y \<noteq> Some (l_self l) \<longrightarrow>
      Log_Requeue B c y st = (Inl (TeakError ErrInvalidDeadLetter), st))"
proof -
  have foreign: "unwrap (l\<lparr>l_active := a\<rparr>) zs = Inl (TeakError ErrInvalidDelivery)"
    if "z \<in> set zs" "td_owner z \<noteq> Some (l_self l)" for a z zs
    using unwrap_foreign [of z zs "l\<lparr>l_active := a\<rparr>"] that by simp
  show ?thesis
    unfolding st
    by (auto simp: Log_Write_def Log_BatchWrite_def Log_Read_unfold Log_Commit_def Log_Retry_def Log_Extend_def
        Log_DeadLetter_def Log_DeadLetters_def Log_Requeue_def Log_Stats_def Log_Close_def guarded_refused guarded_runs
        begin_op_refusal foreign end_op_def refusal_closing)
qed

theorem refused_operations_witness:
  "Log_Commit mem_badger id (Done (ContextError ContextCanceled)) 105 [] (demo_log, demo_stream1, demo_db1)
     = (Inl (ContextError ContextCanceled), (demo_log, demo_stream1, demo_db1))"
  using refused_operations [OF refl, where c = "Done (ContextError ContextCanceled)" and l = demo_log and B = mem_badger
      and ord = id and now = 105 and xs = "[]" and s = demo_stream1 and db = demo_db1 and e = "ContextError ContextCanceled"
      and data = "[]" and batch = "[]" and fuel = 0 and newReceipt = demo_gen and n = 1 and g = 7 and oor = "\<lambda>_. 0"
      and ext = 1 and t = 105 and x = "wrap demo_log demo_delivery" and reason = "[]" and pos = "\<lparr>pos_Seq = 1\<rparr>"]
  by (simp add: refusal_def)

section \<open>Closing\<close>

text \<open>C34. Closing is final. Whatever calls began and ended before, in any interleaving with calls of \<open>close\<close>:
  when the log is closing and \<open>close\<close> may return, no call is active and the dispatcher is closed;
  from then on no call can begin and nothing about the log changes.\<close>

theorem close_is_final:
  assumes "life_step\<^sup>*\<^sup>* (newLogStream a d, 0) (l, n)" "l_closing l" "close_returns l"
    and "life_step\<^sup>*\<^sup>* (l, n) (l', n')"
  shows "n = 0 \<and> d_closed (l_dispatcher l) \<and> l' = l \<and> n' = 0"
proof -
  have "life_inv l n" by (rule life_run_inv [OF assms(1) life_new])
  with assms(2,3) have 1: "n = 0" "d_closed (l_dispatcher l)" by (simp_all add: life_inv_def close_returns_def)
  have "l' = l \<and> n' = 0"
    using assms(4) unfolding 1(1)
  proof (induction "(l', n')" arbitrary: l' n' rule: rtranclp_induct)
    case (step y)
    then show ?case using life_stopped assms(2) by (cases y) blast
  qed simp
  with 1 show ?thesis by blast
qed

theorem close_is_final_witness:
  "d_closed (l_dispatcher (close_start demo_log)) \<and> close_returns (close_start demo_log)"
proof -
  have "life_step\<^sup>*\<^sup>* (newLogStream 3 demo_disp, 0) (close_start demo_log, 0)"
    using life_step.close [of demo_log 0] by (simp add: demo_log_def)
  moreover have c: "l_closing (close_start demo_log)" "close_returns (close_start demo_log)"
    by (simp_all add: close_start_def demo_log_def newLogStream_def close_returns_def Let_def)
  ultimately show ?thesis using close_is_final [of 3 demo_disp "close_start demo_log" 0] by blast
qed

section \<open>Errors\<close>

lemma guarded_error:
  assumes "guarded c body (l, s, db) = (Inl e, st')" "c = Live \<or> c = Done (ContextError x)"
    and "\<And>l st'. body (l, s, db) = (Inl e, st') \<Longrightarrow> public_error e"
  shows "public_error e"
proof (cases "refusal c l")
  case (Some e')
  then have "e' = TeakError ErrClosed \<or> e' = ContextError x"
    using assms(2) by (auto simp: refusal_def split: if_splits)
  with assms(1) Some show ?thesis by (auto simp: guarded_refused)
next
  case None
  with assms(1) assms(3) [of "l\<lparr>l_active := l_active l + 1\<rparr>"] show ?thesis
    by (auto simp: guarded_runs split: prod.splits)
qed

lemma unwrap_error: "unwrap l xs = Inl e \<Longrightarrow> public_error e"
  by (induction xs) (auto simp: gbind_Inl_iff split: if_splits)

lemma read_body_error: "read_body B fuel ord newReceipt now n st g = Some (ReadDone (Inl e), st', g') \<Longrightarrow> public_error e"
  by (auto simp: read_body_def finish_read_def storageError_def Let_def mapError_public
      split: prod.splits option.splits read_result.splits sum.splits if_splits)

text \<open>C35. Callers see public errors. With the contexts of the standard library, whatever operation of a log
  fails, and for whatever reason, the error it returns carries no sentinel of the dispatcher, and
  one of the store or of the envelopes only together with \<open>ErrCorruptStorage\<close> (apart from
  \<open>ErrNoRewrite\<close> and \<open>ErrValueTooLarge\<close>, which have no public counterpart). When storage corruption is
  reported, every cause the internal error carried is still found in it. A count or an extension that
  is not positive is reported as \<open>ErrInvalidCount\<close> or \<open>ErrInvalidExtension\<close> and changes nothing.\<close>

theorem facade_errors_public:
  assumes ctx: "c = Live \<or> c = Done (ContextError x)" and st: "st = (l, s, db)"
  shows "(Log_Write B c now data st = (Inl e, st') \<longrightarrow> public_error e)
    \<and> (Log_BatchWrite B c now batch st = (Inl e, st') \<longrightarrow> public_error e)
    \<and> (Log_Read B fuel ord newReceipt c now n st g = Some (ReadDone (Inl e), st', g') \<longrightarrow> public_error e)
    \<and> (Log_Commit B ord c now xs st = (Inl e, st') \<longrightarrow> public_error e)
    \<and> (Log_Retry oor ord c now xs st = (Inl e, st') \<longrightarrow> public_error e)
    \<and> (Log_Extend ord c now ext xs st = (Inl e, st') \<longrightarrow> public_error e)
    \<and> (Log_DeadLetter B ord c now t y reason st = (Inl e, st') \<longrightarrow> public_error e)
    \<and> (Log_DeadLetters B c pos n st = (Inl e, st') \<longrightarrow> public_error e)
    \<and> (Log_Requeue B c z st = (Inl e, st') \<longrightarrow> public_error e)
    \<and> (Log_Stats B ord now t st = (Inl e, st') \<longrightarrow> public_error e)
    \<and> (errors_is (mapError err) (TeakError ErrCorruptStorage) \<and> errors_is err i \<longrightarrow> errors_is (mapError err) i)
    \<and> (refusal c l = None \<and> n \<le> 0 \<longrightarrow>
         (\<exists>e. Log_Read B (Suc fuel) ord newReceipt c now n st g = Some (ReadDone (Inl e), st, g) \<and> errors_is e (TeakError ErrInvalidCount))
         \<and> Log_DeadLetters B c pos n st = (Inl (TeakError ErrInvalidCount), st))
    \<and> (refusal c l = None \<and> ext \<le> 0 \<and> unwrap l xs = Inr ds \<longrightarrow>
         (\<exists>e. Log_Extend ord c now ext xs st = (Inl e, st) \<and> errors_is e (TeakError ErrInvalidExtension)))"
proof (intro conjI impI)
  note mp = mapError_public and err = guarded_error [OF _ ctx]
  have live: "Live = Live \<or> Live = Done (ContextError x)" by simp
  show "public_error e" if "Log_Write B c now data st = (Inl e, st')"
    by (rule err [OF that [unfolded st Log_Write_def]])
      (auto simp: failed_op_def storageError_def Let_def mp split: sum.splits prod.splits)
  show "public_error e" if "Log_BatchWrite B c now batch st = (Inl e, st')"
    by (rule err [OF that [unfolded st Log_BatchWrite_def]])
      (auto simp: failed_op_def storageError_def Let_def mp split: sum.splits prod.splits)
  show "public_error e" if "Log_Read B fuel ord newReceipt c now n st g = Some (ReadDone (Inl e), st', g')"
  proof (cases "refusal c l")
    case None
    with that st show ?thesis by (auto simp: Log_Read_def begin_op_refusal dest: read_body_error)
  next
    case (Some e')
    with that st ctx show ?thesis by (auto simp: Log_Read_def begin_op_refusal refusal_def split: if_splits)
  qed
  show "public_error e" if "Log_Commit B ord c now xs st = (Inl e, st')"
    by (rule err [OF that [unfolded st Log_Commit_def]])
      (auto simp: mp dest: unwrap_error split: sum.splits prod.splits option.splits)
  show "public_error e" if "Log_Retry oor ord c now xs st = (Inl e, st')"
    by (rule err [OF that [unfolded st Log_Retry_def]])
      (auto simp: map_result_def mp dest: unwrap_error split: sum.splits prod.splits option.splits)
  show "public_error e" if "Log_Extend ord c now ext xs st = (Inl e, st')"
    by (rule err [OF that [unfolded st Log_Extend_def]])
      (auto simp: map_result_def mp dest: unwrap_error split: sum.splits prod.splits option.splits)
  show "public_error e" if "Log_DeadLetter B ord c now t y reason st = (Inl e, st')"
    by (rule err [OF that [unfolded st Log_DeadLetter_def]])
      (auto simp: map_result_def mp split: sum.splits prod.splits option.splits if_splits)
  show "public_error e" if "Log_DeadLetters B c pos n st = (Inl e, st')"
    by (rule err [OF that [unfolded st Log_DeadLetters_def]])
      (auto simp: failed_op_def storageError_def mp split: sum.splits if_splits)
  show "public_error e" if "Log_Requeue B c z st = (Inl e, st')"
    by (rule err [OF that [unfolded st Log_Requeue_def]])
      (auto simp: failed_op_def storageError_def mp split: sum.splits prod.splits if_splits)
  show "public_error e" if "Log_Stats B ord now t st = (Inl e, st')"
    by (rule guarded_error [OF that [unfolded st Log_Stats_def] live])
      (auto simp: failed_op_def storageError_def Let_def mp split: sum.splits prod.splits)
  show "errors_is (mapError err) i" if "errors_is (mapError err) (TeakError ErrCorruptStorage) \<and> errors_is err i"
    using that mapError_corrupt by blast
  assume "refusal c l = None \<and> n \<le> 0"
  then show "\<exists>e. Log_Read B (Suc fuel) ord newReceipt c now n st g = Some (ReadDone (Inl e), st, g) \<and> errors_is e (TeakError ErrInvalidCount)"
    and "Log_DeadLetters B c pos n st = (Inl (TeakError ErrInvalidCount), st)"
    by (auto simp: st Log_Read_unfold begin_op_refusal finish_read_def mapError_def Log_DeadLetters_def guarded_runs end_op_def Let_def)
next
  assume a: "refusal c l = None \<and> ext \<le> 0 \<and> unwrap l xs = Inr ds"
  have "unwrap (l\<lparr>l_active := k\<rparr>) xs = unwrap l xs" for k by (induction xs) simp_all
  with a show "\<exists>e. Log_Extend ord c now ext xs st = (Inl e, st) \<and> errors_is e (TeakError ErrInvalidExtension)"
    by (simp add: st Log_Extend_def guarded_runs Dispatch_Extend_def map_result_def mapError_def end_op_def)
qed

theorem facade_errors_public_witness:
  "\<exists>e. Log_Read mem_badger 1 id demo_gen Live 100 0 (demo_log, demo_stream, demo_db) 7
       = Some (ReadDone (Inl e), (demo_log, demo_stream, demo_db), 7)
     \<and> errors_is e (TeakError ErrInvalidCount) \<and> public_error e"
proof -
  let ?st = "(demo_log, demo_stream, demo_db)"
  note pub = facade_errors_public [where c = Live and st = ?st and l = demo_log and s = demo_stream and db = demo_db and n = 0
      and B = mem_badger and ord = id and newReceipt = demo_gen and now = 100 and g = 7, OF disjI1 [OF refl] refl]
  obtain e where e: "Log_Read mem_badger (Suc 0) id demo_gen Live 100 0 ?st 7 = Some (ReadDone (Inl e), ?st, 7)"
    "errors_is e (TeakError ErrInvalidCount)"
    using pub [where fuel = 0, THEN conjunct2, THEN conjunct2, THEN conjunct2, THEN conjunct2, THEN conjunct2, THEN conjunct2,
        THEN conjunct2, THEN conjunct2, THEN conjunct2, THEN conjunct2, THEN conjunct2, THEN conjunct1] demo_refusal by auto
  moreover have "public_error e"
    using pub [where fuel = "Suc 0" and e = e and st' = ?st and g' = 7, THEN conjunct2, THEN conjunct2, THEN conjunct1] e(1) by blast
  ultimately show ?thesis by auto
qed

end
