(* ===== verification/Options.thy ===== *)
theory Options
  imports Dispatcher_Inv
begin

text \<open>
  \<open>src/options.go\<close>: the configuration of a factory and of its streams, with the defaults, the
  copy-returning \<open>With\<dots>\<close> methods, the merging of a stream's override with the default, and
  validation. A logger is modelled by whether there is one, since what is logged has no effect
  on the program. \<open>stream_config\<close> and \<open>dispatch_config\<close> are the part of \<open>factory.Open\<close> that turns
  options into the configuration of a dispatcher.
\<close>

section \<open>Data\<close>

record backoffConfig =
  bc_Initial :: duration
  bc_Max :: duration
  bc_Multiplier :: float64

record logConfig =
  lc_PrefetchCapacity :: int
  lc_MaxInFlight :: int
  lc_VisibilityTimeout :: duration
  lc_RetryBackoff :: backoffConfig

type_synonym log_configs = "(bytes \<times> logConfig) list"

record options =
  o_Dir :: bytes
  o_DefaultLog :: logConfig
  o_Logs :: "log_configs option"
  o_Logger :: bool
  o_MaintenanceInterval :: duration
  o_ValueLogGCDiscardRatio :: float64

definition time_Second :: duration where "time_Second = 10 ^ 9"
definition time_Minute :: duration where "time_Minute = 60 * time_Second"

definition defaultPrefetchCapacity :: int where "defaultPrefetchCapacity = 1024"
definition defaultMaxInFlight :: int where "defaultMaxInFlight = 1024"
definition defaultVisibility :: duration where "defaultVisibility = 30 * time_Second"
definition defaultRetryInitial :: duration where "defaultRetryInitial = time_Second"
definition defaultRetryMax :: duration where "defaultRetryMax = time_Minute"
definition defaultRetryMultiplier :: float64 where "defaultRetryMultiplier = Fin 2"

lemmas default_defs = time_Second_def time_Minute_def defaultPrefetchCapacity_def defaultMaxInFlight_def
  defaultVisibility_def defaultRetryInitial_def defaultRetryMax_def defaultRetryMultiplier_def

text \<open>The comparisons of a \<open>float64\<close> that the code uses; with a NaN all of them are false.\<close>

fun f64_eq :: "float64 \<Rightarrow> rat \<Rightarrow> bool" where
  "f64_eq (Fin a) b = (a = b)"
| "f64_eq _ b = False"

fun f64_ge :: "float64 \<Rightarrow> rat \<Rightarrow> bool" where
  "f64_ge (Fin a) b = (b \<le> a)"
| "f64_ge PosInf b = True"
| "f64_ge NegInf b = False"
| "f64_ge NaN b = False"

section \<open>Construction\<close>

definition DefaultLogConfig :: logConfig where
  "DefaultLogConfig =
     \<lparr>lc_PrefetchCapacity = defaultPrefetchCapacity, lc_MaxInFlight = defaultMaxInFlight,
      lc_VisibilityTimeout = defaultVisibility,
      lc_RetryBackoff = \<lparr>bc_Initial = defaultRetryInitial, bc_Max = defaultRetryMax,
                         bc_Multiplier = defaultRetryMultiplier\<rparr>\<rparr>"

definition DefaultOptions :: "bytes \<Rightarrow> options" where
  "DefaultOptions dir =
     \<lparr>o_Dir = dir, o_DefaultLog = DefaultLogConfig, o_Logs = None, o_Logger = False,
      o_MaintenanceInterval = 5 * time_Minute, o_ValueLogGCDiscardRatio = Fin (1 / 2)\<rparr>"

definition WithDir :: "bytes \<Rightarrow> options \<Rightarrow> options" where
  "WithDir dir o' = o'\<lparr>o_Dir := dir\<rparr>"

definition WithLogger :: "bool \<Rightarrow> options \<Rightarrow> options" where
  "WithLogger logger o' = o'\<lparr>o_Logger := logger\<rparr>"

definition WithDefaultLog :: "logConfig \<Rightarrow> options \<Rightarrow> options" where
  "WithDefaultLog config o' = o'\<lparr>o_DefaultLog := config\<rparr>"

text \<open>Ranging over a nil map visits nothing, and looking up in it finds nothing.\<close>

definition logs_of :: "log_configs option \<Rightarrow> log_configs" where
  "logs_of logs = (case logs of None \<Rightarrow> [] | Some m \<Rightarrow> m)"

definition WithLog :: "bytes \<Rightarrow> logConfig \<Rightarrow> options \<Rightarrow> options" where
  "WithLog name config o' = o'\<lparr>o_Logs := Some (AList.update name config (logs_of (o_Logs o')))\<rparr>"

definition WithMaintenanceInterval :: "duration \<Rightarrow> options \<Rightarrow> options" where
  "WithMaintenanceInterval interval o' = o'\<lparr>o_MaintenanceInterval := interval\<rparr>"

definition WithValueLogGCDiscardRatio :: "float64 \<Rightarrow> options \<Rightarrow> options" where
  "WithValueLogGCDiscardRatio ratio o' = o'\<lparr>o_ValueLogGCDiscardRatio := ratio\<rparr>"

definition WithPrefetchCapacity :: "int \<Rightarrow> logConfig \<Rightarrow> logConfig" where
  "WithPrefetchCapacity capacity c = c\<lparr>lc_PrefetchCapacity := capacity\<rparr>"

definition WithMaxInFlight :: "int \<Rightarrow> logConfig \<Rightarrow> logConfig" where
  "WithMaxInFlight maximum c = c\<lparr>lc_MaxInFlight := maximum\<rparr>"

definition WithVisibilityTimeout :: "duration \<Rightarrow> logConfig \<Rightarrow> logConfig" where
  "WithVisibilityTimeout timeout c = c\<lparr>lc_VisibilityTimeout := timeout\<rparr>"

definition WithRetryBackoff :: "backoffConfig \<Rightarrow> logConfig \<Rightarrow> logConfig" where
  "WithRetryBackoff backoff c = c\<lparr>lc_RetryBackoff := backoff\<rparr>"

definition WithInitial :: "duration \<Rightarrow> backoffConfig \<Rightarrow> backoffConfig" where
  "WithInitial initial b = b\<lparr>bc_Initial := initial\<rparr>"

definition WithMax :: "duration \<Rightarrow> backoffConfig \<Rightarrow> backoffConfig" where
  "WithMax maximum b = b\<lparr>bc_Max := maximum\<rparr>"

definition WithMultiplier :: "float64 \<Rightarrow> backoffConfig \<Rightarrow> backoffConfig" where
  "WithMultiplier multiplier b = b\<lparr>bc_Multiplier := multiplier\<rparr>"

section \<open>Defaults and validation\<close>

definition normalizeLogConfig :: "logConfig \<Rightarrow> logConfig" where
  "normalizeLogConfig config =
     (let defaults = DefaultLogConfig;
          config = (if lc_PrefetchCapacity config = 0
                    then config\<lparr>lc_PrefetchCapacity := lc_PrefetchCapacity defaults\<rparr> else config);
          config = (if lc_MaxInFlight config = 0
                    then config\<lparr>lc_MaxInFlight := lc_MaxInFlight defaults\<rparr> else config);
          config = (if lc_VisibilityTimeout config = 0
                    then config\<lparr>lc_VisibilityTimeout := lc_VisibilityTimeout defaults\<rparr> else config);
          config = (if bc_Initial (lc_RetryBackoff config) = 0
                    then config\<lparr>lc_RetryBackoff := (lc_RetryBackoff config)\<lparr>bc_Initial := bc_Initial (lc_RetryBackoff defaults)\<rparr>\<rparr>
                    else config);
          config = (if bc_Max (lc_RetryBackoff config) = 0
                    then config\<lparr>lc_RetryBackoff := (lc_RetryBackoff config)\<lparr>bc_Max := bc_Max (lc_RetryBackoff defaults)\<rparr>\<rparr>
                    else config)
      in if f64_eq (bc_Multiplier (lc_RetryBackoff config)) 0
         then config\<lparr>lc_RetryBackoff := (lc_RetryBackoff config)\<lparr>bc_Multiplier := bc_Multiplier (lc_RetryBackoff defaults)\<rparr>\<rparr>
         else config)"

definition mergeLogConfig :: "logConfig \<Rightarrow> logConfig \<Rightarrow> logConfig" where
  "mergeLogConfig config base =
     (let config = (if lc_PrefetchCapacity config = 0
                    then config\<lparr>lc_PrefetchCapacity := lc_PrefetchCapacity base\<rparr> else config);
          config = (if lc_MaxInFlight config = 0
                    then config\<lparr>lc_MaxInFlight := lc_MaxInFlight base\<rparr> else config);
          config = (if lc_VisibilityTimeout config = 0
                    then config\<lparr>lc_VisibilityTimeout := lc_VisibilityTimeout base\<rparr> else config);
          config = (if bc_Initial (lc_RetryBackoff config) = 0
                    then config\<lparr>lc_RetryBackoff := (lc_RetryBackoff config)\<lparr>bc_Initial := bc_Initial (lc_RetryBackoff base)\<rparr>\<rparr>
                    else config);
          config = (if bc_Max (lc_RetryBackoff config) = 0
                    then config\<lparr>lc_RetryBackoff := (lc_RetryBackoff config)\<lparr>bc_Max := bc_Max (lc_RetryBackoff base)\<rparr>\<rparr>
                    else config)
      in if f64_eq (bc_Multiplier (lc_RetryBackoff config)) 0
         then config\<lparr>lc_RetryBackoff := (lc_RetryBackoff config)\<lparr>bc_Multiplier := bc_Multiplier (lc_RetryBackoff base)\<rparr>\<rparr>
         else config)"

definition validateLogConfig :: "logConfig \<Rightarrow> gerror option" where
  "validateLogConfig config =
     (if lc_PrefetchCapacity config \<le> 0 \<or> lc_MaxInFlight config \<le> 0 \<or> lc_VisibilityTimeout config \<le> 0
         \<or> bc_Initial (lc_RetryBackoff config) < 0
         \<or> bc_Max (lc_RetryBackoff config) < bc_Initial (lc_RetryBackoff config)
         \<or> f64_less (bc_Multiplier (lc_RetryBackoff config)) 1
      then Some (TeakError ErrInvalidOptions) else None)"

fun validate_logs :: "logConfig \<Rightarrow> log_configs \<Rightarrow> gerror option" where
  "validate_logs base [] = None"
| "validate_logs base ((name, config) # rest) =
     (case ValidateStreamName name of
        Some _ \<Rightarrow> Some (Errorf [TeakError ErrInvalidName])
      | None \<Rightarrow>
          (case validateLogConfig (mergeLogConfig config base) of
             Some err \<Rightarrow> Some (Errorf [err])
           | None \<Rightarrow> validate_logs base rest))"

definition validateOptions :: "(log_configs \<Rightarrow> log_configs) \<Rightarrow> options \<Rightarrow> gerror option" where
  "validateOptions ord options' =
     (if o_Dir options' = [] then Some (Errorf [TeakError ErrInvalidOptions])
      else case validateLogConfig (o_DefaultLog options') of
        Some err \<Rightarrow> Some err
      | None \<Rightarrow>
          if o_MaintenanceInterval options' < 0 then Some (Errorf [TeakError ErrInvalidOptions])
          else if f64_le (o_ValueLogGCDiscardRatio options') 0 \<or> f64_ge (o_ValueLogGCDiscardRatio options') 1
          then Some (Errorf [TeakError ErrInvalidOptions])
          else validate_logs (o_DefaultLog options') (ord (logs_of (o_Logs options'))))"

section \<open>The configuration of a stream\<close>

definition stream_config :: "options \<Rightarrow> bytes \<Rightarrow> logConfig" where
  "stream_config options' name =
     (case map_of (logs_of (o_Logs options')) name of
        Some override \<Rightarrow> mergeLogConfig override (o_DefaultLog options')
      | None \<Rightarrow> o_DefaultLog options')"

definition dispatch_config :: "logConfig \<Rightarrow> dconfig" where
  "dispatch_config config =
     \<lparr>PrefetchCapacity = lc_PrefetchCapacity config, MaxInFlight = lc_MaxInFlight config,
      VisibilityTimeout = lc_VisibilityTimeout config,
      RetryInitial = bc_Initial (lc_RetryBackoff config), RetryMax = bc_Max (lc_RetryBackoff config),
      RetryMultiplier = bc_Multiplier (lc_RetryBackoff config)\<rparr>"

section \<open>Lemmas\<close>

text \<open>Field by field, merging takes the value of the override unless it is zero.\<close>

lemma merge_fields:
  "lc_PrefetchCapacity (mergeLogConfig c b) = (if lc_PrefetchCapacity c = 0 then lc_PrefetchCapacity b else lc_PrefetchCapacity c)"
  "lc_MaxInFlight (mergeLogConfig c b) = (if lc_MaxInFlight c = 0 then lc_MaxInFlight b else lc_MaxInFlight c)"
  "lc_VisibilityTimeout (mergeLogConfig c b) = (if lc_VisibilityTimeout c = 0 then lc_VisibilityTimeout b else lc_VisibilityTimeout c)"
  "bc_Initial (lc_RetryBackoff (mergeLogConfig c b)) =
     (if bc_Initial (lc_RetryBackoff c) = 0 then bc_Initial (lc_RetryBackoff b) else bc_Initial (lc_RetryBackoff c))"
  "bc_Max (lc_RetryBackoff (mergeLogConfig c b)) =
     (if bc_Max (lc_RetryBackoff c) = 0 then bc_Max (lc_RetryBackoff b) else bc_Max (lc_RetryBackoff c))"
  "bc_Multiplier (lc_RetryBackoff (mergeLogConfig c b)) =
     (if f64_eq (bc_Multiplier (lc_RetryBackoff c)) 0 then bc_Multiplier (lc_RetryBackoff b) else bc_Multiplier (lc_RetryBackoff c))"
  by (simp_all add: mergeLogConfig_def Let_def)

lemma logConfig_eqI:
  fixes a b :: logConfig
  assumes "lc_PrefetchCapacity a = lc_PrefetchCapacity b" "lc_MaxInFlight a = lc_MaxInFlight b"
    and "lc_VisibilityTimeout a = lc_VisibilityTimeout b"
    and "bc_Initial (lc_RetryBackoff a) = bc_Initial (lc_RetryBackoff b)"
    and "bc_Max (lc_RetryBackoff a) = bc_Max (lc_RetryBackoff b)"
    and "bc_Multiplier (lc_RetryBackoff a) = bc_Multiplier (lc_RetryBackoff b)"
  shows "a = b"
  using assms by (intro logConfig.equality backoffConfig.equality) simp_all

lemma normalize_is_merge: "normalizeLogConfig c = mergeLogConfig c DefaultLogConfig"
  by (simp add: normalizeLogConfig_def mergeLogConfig_def)

lemma merge_twice: "mergeLogConfig (mergeLogConfig c b) b = mergeLogConfig c b"
  by (rule logConfig_eqI) (simp_all add: merge_fields)

lemma merge_assoc: "mergeLogConfig (mergeLogConfig a b) c = mergeLogConfig a (mergeLogConfig b c)"
  by (rule logConfig_eqI) (simp_all add: merge_fields)

lemma validateLogConfig_iff: "validateLogConfig c = None \<longleftrightarrow> config_ok (dispatch_config c)"
  by (auto simp: validateLogConfig_def config_ok_def dispatch_config_def)

lemma DefaultLogConfig_valid: "validateLogConfig DefaultLogConfig = None"
  by (simp add: validateLogConfig_def DefaultLogConfig_def default_defs)

lemma validate_logs_iff:
  "validate_logs base logs = None \<longleftrightarrow>
     (\<forall>(name, config) \<in> set logs. valid_name name \<and> validateLogConfig (mergeLogConfig config base) = None)"
  by (induction base logs rule: validate_logs.induct) (auto simp: valid_name_def split: option.splits)

lemma validateOptions_iff:
  assumes "any_order ord"
  shows "validateOptions ord opts = None \<longleftrightarrow>
     o_Dir opts \<noteq> [] \<and> validateLogConfig (o_DefaultLog opts) = None \<and> 0 \<le> o_MaintenanceInterval opts
     \<and> \<not> f64_le (o_ValueLogGCDiscardRatio opts) 0 \<and> \<not> f64_ge (o_ValueLogGCDiscardRatio opts) 1
     \<and> (\<forall>(name, config) \<in> set (logs_of (o_Logs opts)). valid_name name
          \<and> validateLogConfig (mergeLogConfig config (o_DefaultLog opts)) = None)"
  by (auto simp: validateOptions_def validate_logs_iff any_order_set [OF assms] split: option.splits)

lemma valid_stream_config:
  assumes "any_order ord" "validateOptions ord opts = None"
  shows "config_ok (dispatch_config (stream_config opts name))"
proof (cases "map_of (logs_of (o_Logs opts)) name")
  case None
  with assms show ?thesis by (simp add: stream_config_def validateOptions_iff validateLogConfig_iff)
next
  case (Some override)
  then have "(name, override) \<in> set (logs_of (o_Logs opts))" by (rule map_of_SomeD)
  with assms Some show ?thesis by (auto simp: stream_config_def validateOptions_iff validateLogConfig_iff)
qed

end
