(* ===== verification/Root.thy ===== *)
theory Root
  imports Store Backoff
begin

text \<open>
  The storage root of \<open>src/internal/store/store.go\<close> around \<open>Root_Stream\<close>: opening and closing the
  shared database and one pass of value-log garbage collection. What Badger does in these three
  calls is a parameter, the record \<open>badger_lib\<close>; the call that collects may panic.
\<close>

datatype 'a outcome = Returns 'a | Panics

text \<open>The options that \<open>Open\<close> sets; every other option keeps Badger's default.\<close>

record open_settings =
  os_Dir :: bytes
  os_ValueDir :: bytes
  os_NumVersionsToKeep :: int
  os_SyncWrites :: bool
  os_Logger :: bool

record 'db badger_lib =
  bl_Open :: "open_settings \<Rightarrow> gerror + 'db"
  bl_Close :: "'db \<Rightarrow> gerror option \<times> 'db"
  bl_RunValueLogGC :: "float64 \<Rightarrow> 'db \<Rightarrow> gerror option outcome \<times> 'db"

definition Root_Open :: "'db badger_lib \<Rightarrow> bytes \<Rightarrow> gerror + 'db root" where
  "Root_Open lib dir =
     (if dir = [] then Inl (ErrorText ''store: directory is required'')
      else case bl_Open lib \<lparr>os_Dir = dir, os_ValueDir = dir, os_NumVersionsToKeep = 1,
                             os_SyncWrites = True, os_Logger = False\<rparr> of
             Inl err \<Rightarrow> Inl (Errorf [err])
           | Inr db \<Rightarrow> Inr \<lparr>ro_db = db, ro_closed = False, ro_streams = []\<rparr>)"

definition Root_Close :: "'db badger_lib \<Rightarrow> 'db root \<Rightarrow> gerror option \<times> 'db root" where
  "Root_Close lib r =
     (if ro_closed r then (None, r)
      else let r = r\<lparr>ro_closed := True\<rparr>
           in case bl_Close lib (ro_db r) of (err, db) \<Rightarrow> (err, r\<lparr>ro_db := db\<rparr>))"

definition Root_RunValueLogGC :: "'db badger_lib \<Rightarrow> float64 \<Rightarrow> 'db root \<Rightarrow> gerror option outcome \<times> 'db root" where
  "Root_RunValueLogGC lib discardRatio r =
     (case bl_RunValueLogGC lib discardRatio (ro_db r) of
        (Returns (Some err), db) \<Rightarrow>
          (Returns (Some (if errors_is err (BadgerError BadgerErrNoRewrite) then StoreError StoreErrNoRewrite else err)),
           r\<lparr>ro_db := db\<rparr>)
      | (Returns None, db) \<Rightarrow> (Returns None, r\<lparr>ro_db := db\<rparr>)
      | (Panics, db) \<Rightarrow> (Panics, r\<lparr>ro_db := db\<rparr>))"

text \<open>The promise of these calls: they move files around but keep the contents.\<close>

locale badger_upkeep =
  fixes lib :: "'db badger_lib" and db_view :: "'db \<Rightarrow> bytes \<rightharpoonup> bytes"
  assumes close_view: "bl_Close lib db = (err, db') \<Longrightarrow> db_view db' = db_view db"
    and gc_view: "bl_RunValueLogGC lib ratio db = (res, db') \<Longrightarrow> db_view db' = db_view db"
begin

lemma Root_Close_view:
  assumes "Root_Close lib r = (err, r')"
  shows "ro_closed r' \<and> ro_streams r' = ro_streams r \<and> db_view (ro_db r') = db_view (ro_db r)"
  using assms by (auto simp: Root_Close_def Let_def dest: close_view split: if_splits prod.splits)

lemma Root_GC_view:
  assumes "Root_RunValueLogGC lib ratio r = (res, r')"
  shows "ro_closed r' = ro_closed r \<and> ro_streams r' = ro_streams r \<and> db_view (ro_db r') = db_view (ro_db r)"
  using assms
  by (auto simp: Root_RunValueLogGC_def dest: gc_view split: prod.splits outcome.splits option.splits)

end

text \<open>The in-memory database of \<open>Badger\<close> with a collector that never finds anything to rewrite.\<close>

definition mem_lib :: "kv badger_lib" where
  "mem_lib = \<lparr>bl_Open = (\<lambda>_. Inr []), bl_Close = (\<lambda>db. (None, db)),
     bl_RunValueLogGC = (\<lambda>ratio db. (Returns (Some (BadgerError BadgerErrNoRewrite)), db))\<rparr>"

interpretation mem_upkeep: badger_upkeep mem_lib map_of
  by unfold_locales (simp_all add: mem_lib_def)

end
