(* ===== verification/Factory.thy ===== *)
theory Factory
  imports Log_Refinement Options Root
begin

text \<open>
  \<open>src/factory.go\<close>: the owner of the storage root and of all open logs. A log is identified by the
  address its caller gets; the factory finds it by name, and its \<open>store\<close> pointer reaches the
  stream of the same name in the root. The background goroutine is \<open>maintenanceWorker\<close> over the
  events it selects. \<open>Close\<close> takes several locks and waits in between, so it is given as its
  sections, \<open>close_next\<close>; \<open>Factory_Close\<close> runs them one after the other.
\<close>

section \<open>State\<close>

record 'db factory =
  f_root :: "'db root"
  f_options :: options
  f_closed :: bool
  f_closeDone :: bool
  f_closeErr :: "gerror option"
  f_logs :: "(bytes \<times> logStream) list"
  f_canceled :: bool
  f_maintenanceDone :: bool
  f_gcRuns :: u64
  f_gcRewrites :: u64
  f_gcNoRewrite :: u64
  f_gcErrors :: u64
  f_maintenancePanics :: u64

record factoryStats =
  fs_ValueLogGCRuns :: u64
  fs_ValueLogGCRewrites :: u64
  fs_ValueLogGCNoRewrite :: u64
  fs_ValueLogGCErrors :: u64
  fs_MaintenancePanics :: u64

section \<open>Creation\<close>

definition cloneLogConfigs :: "(log_configs \<Rightarrow> log_configs) \<Rightarrow> log_configs option \<Rightarrow> log_configs option" where
  "cloneLogConfigs ord configs =
     (case configs of
        None \<Rightarrow> None
      | Some configs \<Rightarrow> Some (fold (\<lambda>(name, config) cloned. AList.update name config cloned) (ord configs) []))"

definition normalized_options :: "(log_configs \<Rightarrow> log_configs) \<Rightarrow> options \<Rightarrow> options" where
  "normalized_options ord options' =
     (let options' = options'\<lparr>o_DefaultLog := normalizeLogConfig (o_DefaultLog options')\<rparr>;
          options' = options'\<lparr>o_Logs := cloneLogConfigs ord (o_Logs options')\<rparr>
      in if f64_eq (o_ValueLogGCDiscardRatio options') 0
         then options'\<lparr>o_ValueLogGCDiscardRatio := Fin (1 / 2)\<rparr> else options')"

definition Factory_New :: "'db badger_lib \<Rightarrow> (log_configs \<Rightarrow> log_configs) \<Rightarrow> options \<Rightarrow> gerror + 'db factory" where
  "Factory_New lib ord options' =
     (let options' = normalized_options ord options'
      in case validateOptions ord options' of
           Some err \<Rightarrow> Inl err
         | None \<Rightarrow>
             gbind (Root_Open lib (o_Dir options')) (\<lambda>root.
               Inr \<lparr>f_root = root, f_options = options', f_closed = False, f_closeDone = False, f_closeErr = None,
                    f_logs = [], f_canceled = False, f_maintenanceDone = \<not> 0 < o_MaintenanceInterval options',
                    f_gcRuns = 0, f_gcRewrites = 0, f_gcNoRewrite = 0, f_gcErrors = 0, f_maintenancePanics = 0\<rparr>))"

section \<open>Opening a log\<close>

text \<open>\<open>self\<close> is the address of the log when a new one is allocated; the result is the address of the
  log for this name.\<close>

definition Factory_Open ::
  "('db, 'txn) badger \<Rightarrow> nat \<Rightarrow> ctx \<Rightarrow> bytes \<Rightarrow> 'db factory \<Rightarrow> (gerror + nat) \<times> 'db factory" where
  "Factory_Open B self c name f =
     (case checkContext c of
        Some err \<Rightarrow> (Inl err, f)
      | None \<Rightarrow>
          if f_closed f then (Inl (TeakError ErrClosed), f)
          else case map_of (f_logs f) name of
            Some existing \<Rightarrow> (Inr (l_self existing), f)
          | None \<Rightarrow>
              (case Root_Stream B name (f_root f) of
                 (Inl err, r) \<Rightarrow> (Inl (mapError err), f\<lparr>f_root := r\<rparr>)
               | (Inr persistence, r) \<Rightarrow>
                   (let f = f\<lparr>f_root := r\<rparr>
                    in case New False (dispatch_config (stream_config (f_options f) name)) of
                         Inl err \<Rightarrow> (Inl (mapError err), f)
                       | Inr scheduler \<Rightarrow>
                           (let stream = newLogStream self scheduler
                            in (Inr self, f\<lparr>f_logs := AList.update name stream (f_logs f)\<rparr>)))))"

section \<open>Maintenance\<close>

text \<open>One pass under \<open>gcMu\<close>, and the check before it.\<close>

definition gc_pass :: "'db badger_lib \<Rightarrow> 'db factory \<Rightarrow> gerror option outcome \<times> 'db factory" where
  "gc_pass lib f =
     (let f = f\<lparr>f_gcRuns := f_gcRuns f + 1\<rparr>
      in case Root_RunValueLogGC lib (o_ValueLogGCDiscardRatio (f_options f)) (f_root f) of
           (Panics, r) \<Rightarrow> (Panics, f\<lparr>f_root := r\<rparr>)
         | (Returns None, r) \<Rightarrow> (Returns None, f\<lparr>f_root := r, f_gcRewrites := f_gcRewrites f + 1\<rparr>)
         | (Returns (Some err), r) \<Rightarrow>
             if errors_is err (StoreError StoreErrNoRewrite)
             then (Returns None, f\<lparr>f_root := r, f_gcNoRewrite := f_gcNoRewrite f + 1\<rparr>)
             else (Returns (Some (Errorf [err])), f\<lparr>f_root := r, f_gcErrors := f_gcErrors f + 1\<rparr>))"

definition maintenance_locked :: "'db badger_lib \<Rightarrow> 'db factory \<Rightarrow> gerror option outcome \<times> 'db factory" where
  "maintenance_locked lib f = (if f_closed f then (Returns (Some (TeakError ErrClosed)), f) else gc_pass lib f)"

definition RunMaintenance :: "'db badger_lib \<Rightarrow> ctx \<Rightarrow> 'db factory \<Rightarrow> gerror option outcome \<times> 'db factory" where
  "RunMaintenance lib c f =
     (case checkContext c of
        Some err \<Rightarrow> (Returns (Some err), f)
      | None \<Rightarrow> if f_closed f then (Returns (Some (TeakError ErrClosed)), f) else maintenance_locked lib f)"

definition Factory_Stats :: "'db factory \<Rightarrow> factoryStats" where
  "Factory_Stats f =
     \<lparr>fs_ValueLogGCRuns = f_gcRuns f, fs_ValueLogGCRewrites = f_gcRewrites f, fs_ValueLogGCNoRewrite = f_gcNoRewrite f,
      fs_ValueLogGCErrors = f_gcErrors f, fs_MaintenancePanics = f_maintenancePanics f\<rparr>"

definition runMaintenanceTick :: "'db badger_lib \<Rightarrow> ctx \<Rightarrow> 'db factory \<Rightarrow> bool \<times> 'db factory" where
  "runMaintenanceTick lib c f =
     (case RunMaintenance lib c f of
        (Panics, f) \<Rightarrow> (True, f\<lparr>f_maintenancePanics := f_maintenancePanics f + 1\<rparr>)
      | (Returns None, f) \<Rightarrow> (True, f)
      | (Returns (Some err), f) \<Rightarrow>
          (\<not> errors_is err (TeakError ErrClosed) \<and> \<not> errors_is err (ContextError ContextCanceled), f))"

text \<open>What the \<open>select\<close> of the worker sees, one event after the other. The result says whether the
  worker is still waiting for the next event.\<close>

datatype worker_event = CtxDone | Tick ctx

fun maintenanceWorker :: "'db badger_lib \<Rightarrow> worker_event list \<Rightarrow> 'db factory \<Rightarrow> bool \<times> 'db factory" where
  "maintenanceWorker lib [] f = (True, f)"
| "maintenanceWorker lib (CtxDone # events) f = (False, f)"
| "maintenanceWorker lib (Tick c # events) f =
     (case runMaintenanceTick lib c f of
        (True, f) \<Rightarrow> maintenanceWorker lib events f
      | (False, f) \<Rightarrow> (False, f))"

definition maintenanceLoop :: "'db badger_lib \<Rightarrow> worker_event list \<Rightarrow> 'db factory \<Rightarrow> bool \<times> 'db factory" where
  "maintenanceLoop lib events f =
     (case maintenanceWorker lib events f of
        (True, f) \<Rightarrow> (True, f)
      | (False, f) \<Rightarrow> (False, f\<lparr>f_maintenanceDone := True\<rparr>))"

section \<open>Closing\<close>

datatype close_phase =
    CloseEnter
  | CloseAwait
  | CloseMaintenance "bytes list"
  | CloseLogs "bytes list" "gerror option"
  | CloseStorage "gerror option"
  | CloseFinish "gerror option"
  | CloseReturn "gerror option"

definition first_error :: "gerror option \<Rightarrow> gerror option \<Rightarrow> gerror option" where
  "first_error closeErr err = (if err \<noteq> None \<and> closeErr = None then err else closeErr)"

definition set_log :: "bytes \<Rightarrow> logStream \<Rightarrow> 'db factory \<Rightarrow> 'db factory" where
  "set_log name l f = f\<lparr>f_logs := AList.update name l (f_logs f)\<rparr>"

text \<open>The sections of \<open>Close\<close>: enter, wait for another closer, wait for the maintenance
  worker, close one log after the other, close the storage under \<open>gcMu\<close>, publish the result. A
  section that has to wait leaves its phase as it is. \<open>ord\<close> is the order in which Go ranges
  over the logs.\<close>

fun close_next :: "'db badger_lib \<Rightarrow> (bytes list \<Rightarrow> bytes list) \<Rightarrow> close_phase \<Rightarrow> 'db factory \<Rightarrow> close_phase \<times> 'db factory" where
  "close_next lib ord CloseEnter f =
     (if f_closed f then (CloseAwait, f)
      else let f = f\<lparr>f_closed := True\<rparr>; logs = ord (keys (f_logs f)); f = f\<lparr>f_canceled := True\<rparr>
           in (CloseMaintenance logs, f))"
| "close_next lib ord CloseAwait f = (if f_closeDone f then CloseReturn (f_closeErr f) else CloseAwait, f)"
| "close_next lib ord (CloseMaintenance logs) f =
     (if f_maintenanceDone f then CloseLogs logs None else CloseMaintenance logs, f)"
| "close_next lib ord (CloseLogs [] closeErr) f = (CloseStorage closeErr, f)"
| "close_next lib ord (CloseLogs (name # logs) closeErr) f =
     (case map_of (f_logs f) name of
        None \<Rightarrow> (CloseLogs logs closeErr, f)
      | Some stream \<Rightarrow>
          (case Log_close stream of
             (None, stream) \<Rightarrow> (CloseLogs (name # logs) closeErr, set_log name stream f)
           | (Some err, stream) \<Rightarrow> (CloseLogs logs (first_error closeErr err), set_log name stream f)))"
| "close_next lib ord (CloseStorage closeErr) f =
     (case Root_Close lib (f_root f) of
        (storageErr, r) \<Rightarrow>
          (CloseFinish (first_error closeErr (map_option (\<lambda>err. Errorf [err]) storageErr)), f\<lparr>f_root := r\<rparr>))"
| "close_next lib ord (CloseFinish closeErr) f = (CloseReturn closeErr, f\<lparr>f_closeErr := closeErr, f_closeDone := True\<rparr>)"
| "close_next lib ord (CloseReturn closeErr) f = (CloseReturn closeErr, f)"

text \<open>\<open>None\<close>: the call waits after \<open>fuel\<close> sections.\<close>

fun run_close ::
  "nat \<Rightarrow> 'db badger_lib \<Rightarrow> (bytes list \<Rightarrow> bytes list) \<Rightarrow> close_phase \<Rightarrow> 'db factory
   \<Rightarrow> gerror option option \<times> 'db factory" where
  "run_close fuel lib ord (CloseReturn closeErr) f = (Some closeErr, f)"
| "run_close 0 lib ord phase f = (None, f)"
| "run_close (Suc fuel) lib ord phase f = (case close_next lib ord phase f of (phase, f) \<Rightarrow> run_close fuel lib ord phase f)"

definition Factory_Close ::
  "nat \<Rightarrow> 'db badger_lib \<Rightarrow> (bytes list \<Rightarrow> bytes list) \<Rightarrow> ctx \<Rightarrow> 'db factory \<Rightarrow> gerror option option \<times> 'db factory" where
  "Factory_Close fuel lib ord c f =
     (case checkContext c of
        Some err \<Rightarrow> (Some (Some err), f)
      | None \<Rightarrow> run_close fuel lib ord CloseEnter f)"

end
