(* ===== verification/Factory_System.thy ===== *)
theory Factory_System
  imports Factory
begin

text \<open>
  A factory at work: opening logs, calls on all of them, maintenance passes and the sections of
  \<open>Close\<close>, interleaved in any order. \<open>contents_ok\<close> says that every open log is in the state that
  \<open>System\<close> promises for a single stream, that no two logs share an address, and that the streams
  not opened yet are in order on disk; \<open>phase_ok\<close> says how far \<open>Close\<close> has come. Together they are
  the invariant \<open>fac_inv\<close>.
\<close>

section \<open>Contents\<close>

text \<open>A stream that can be opened: with its schema key written it is well-formed for some tail.\<close>

definition clean :: "(bytes \<rightharpoonup> bytes) \<Rightarrow> bytes \<Rightarrow> bool" where
  "clean v name \<longleftrightarrow> (\<exists>t. stream_wf (v(metaKey name schemaMetaKey \<mapsto> [schemaVersion]))
     \<lparr>s_name = name, s_tail = t, s_beforeCommit = None\<rparr>)"

definition contents_ok :: "(bytes \<rightharpoonup> bytes) \<Rightarrow> (bytes \<rightharpoonup> stream) \<Rightarrow> (bytes \<rightharpoonup> logStream) \<Rightarrow> bool" where
  "contents_ok v streams logs \<longleftrightarrow>
     (\<forall>name s. streams name = Some s \<longrightarrow> s_name s = name \<and> stream_wf v s)
     \<and> (\<forall>name l. logs name = Some l \<longrightarrow>
          (\<exists>s. streams name = Some s \<and> quiet (pending_set v s) (s_tail s) (l_dispatcher l)))
     \<and> (\<forall>m n k l. logs m = Some k \<and> logs n = Some l \<and> l_self k = l_self l \<longrightarrow> m = n)
     \<and> (\<forall>name. valid_name name \<and> streams name = None \<longrightarrow> clean v name)"

lemma same_elsewhere_fun_upd:
  "same_elsewhere n v v' \<Longrightarrow> same_elsewhere n (v(k := x)) (v'(k := x))"
  by (simp add: same_elsewhere_def)

lemma clean_elsewhere:
  assumes "clean v m" "same_elsewhere n v v'" "valid_name n" "n \<noteq> m"
  shows "clean v' m"
proof -
  let ?s = "\<lambda>t. \<lparr>s_name = m, s_tail = t, s_beforeCommit = None\<rparr>"
  obtain t where "stream_wf (v(metaKey m schemaMetaKey \<mapsto> [schemaVersion])) (?s t)"
    using assms(1) by (auto simp: clean_def)
  with same_elsewhere_wf [OF same_elsewhere_fun_upd [OF assms(2)] assms(3), of "?s t"] assms(4)
  show ?thesis unfolding clean_def by auto
qed

lemma contents_streamD: "contents_ok v streams logs \<Longrightarrow> streams n = Some s \<Longrightarrow> s_name s = n \<and> stream_wf v s"
  by (simp add: contents_ok_def)

lemma contents_logD:
  assumes "contents_ok v streams logs" "logs n = Some l"
  obtains s where "streams n = Some s" "s_name s = n" "stream_wf v s" "quiet (pending_set v s) (s_tail s) (l_dispatcher l)"
proof -
  obtain s where s: "streams n = Some s" "quiet (pending_set v s) (s_tail s) (l_dispatcher l)"
    using assms unfolding contents_ok_def by blast
  with contents_streamD [OF assms(1) s(1)] that show thesis by blast
qed

lemma pending_elsewhere:
  assumes "same_elsewhere n v v'" "valid_name n" "stream_wf v s" "n \<noteq> s_name s"
  shows "pending_set v' s = pending_set v s"
proof -
  have "abs_stream v' s = abs_stream v s"
    using same_elsewhere_abs [OF assms(1,2)] assms(3,4) by (auto simp: stream_wf_def)
  then show ?thesis by (simp add: abs_stream_def pending_set_def)
qed

text \<open>A change of the keys of one stream only, which keeps that stream and its log in order.\<close>

lemma contents_call:
  assumes ok: "contents_ok v streams logs" and l: "logs n = Some l" "l_self l' = l_self l" and s: "streams n = Some s"
    and new: "s_name s' = n" "stream_wf v' s'" "quiet (pending_set v' s') (s_tail s') (l_dispatcher l')"
    and else: "same_elsewhere n v v'"
  shows "contents_ok v' (streams(n \<mapsto> s')) (logs(n \<mapsto> l'))"
proof -
  have n: "valid_name n" using new(1,2) by (auto simp: stream_wf_def)
  have "s_name t = m \<and> stream_wf v' t" if "(streams(n \<mapsto> s')) m = Some t" for m t
    using that ok new same_elsewhere_wf [OF else n, of t] by (auto simp: contents_ok_def split: if_splits)
  moreover have "\<exists>t. (streams(n \<mapsto> s')) m = Some t \<and> quiet (pending_set v' t) (s_tail t) (l_dispatcher k)"
    if k: "(logs(n \<mapsto> l')) m = Some k" for m k
  proof (cases "m = n")
    case False
    then have "logs m = Some k" using k by simp
    with ok obtain t where t: "streams m = Some t" "s_name t = m" "stream_wf v t" "quiet (pending_set v t) (s_tail t) (l_dispatcher k)"
      by (rule contents_logD)
    with False pending_elsewhere [OF else n] show ?thesis by auto
  qed (use k new in auto)
  moreover have "m = m'" if "(logs(n \<mapsto> l')) m = Some j" "(logs(n \<mapsto> l')) m' = Some k" "l_self j = l_self k" for m m' j k
  proof -
    have "\<exists>j0 k0. logs m = Some j0 \<and> logs m' = Some k0 \<and> l_self j0 = l_self j \<and> l_self k0 = l_self k"
      using that l by (auto split: if_splits)
    with ok that(3) show ?thesis unfolding contents_ok_def by metis
  qed
  moreover have "clean v' m" if "valid_name m" "(streams(n \<mapsto> s')) m = None" for m
    using that ok clean_elsewhere [OF _ else n] by (auto simp: contents_ok_def split: if_splits)
  ultimately show ?thesis unfolding contents_ok_def by blast
qed

lemma contents_view:
  "contents_ok v streams logs \<Longrightarrow> v' = v \<Longrightarrow> contents_ok v' streams logs"
  by simp

lemma contents_stream:
  assumes ok: "contents_ok v streams logs" and n: "valid_name n" "streams n = None"
    and s: "s_name s = n" "stream_wf v' s" and v': "v' = v(metaKey n schemaMetaKey \<mapsto> [schemaVersion])"
  shows "contents_ok v' (streams(n \<mapsto> s)) logs"
proof -
  have else: "same_elsewhere n v v'" unfolding v' by simp
  have nl: "logs n = None" using ok n(2) unfolding contents_ok_def by (metis not_None_eq)
  have "s_name t = m \<and> stream_wf v' t" if "(streams(n \<mapsto> s)) m = Some t" for m t
    using that ok s same_elsewhere_wf [OF else n(1), of t] by (auto simp: contents_ok_def split: if_splits)
  moreover have "\<exists>t. (streams(n \<mapsto> s)) m = Some t \<and> quiet (pending_set v' t) (s_tail t) (l_dispatcher k)"
    if k: "logs m = Some k" for m k
  proof -
    have m: "m \<noteq> n" using k nl by auto
    obtain t where t: "streams m = Some t" "s_name t = m" "stream_wf v t" "quiet (pending_set v t) (s_tail t) (l_dispatcher k)"
      using ok k by (rule contents_logD)
    with m pending_elsewhere [OF else n(1)] show ?thesis by auto
  qed
  moreover have "clean v' m" if "valid_name m" "(streams(n \<mapsto> s)) m = None" for m
    using that ok clean_elsewhere [OF _ else n(1)] by (auto simp: contents_ok_def split: if_splits)
  moreover have "\<forall>m m' j k. logs m = Some j \<and> logs m' = Some k \<and> l_self j = l_self k \<longrightarrow> m = m'"
    using ok by (simp add: contents_ok_def)
  ultimately show ?thesis unfolding contents_ok_def by blast
qed

lemma contents_log:
  assumes ok: "contents_ok v streams logs" and s: "streams n = Some s"
    and l: "quiet (pending_set v s) (s_tail s) (l_dispatcher l)" "\<forall>m k. logs m = Some k \<longrightarrow> l_self k \<noteq> l_self l"
  shows "contents_ok v streams (logs(n \<mapsto> l))"
proof -
  have "\<exists>t. streams m = Some t \<and> quiet (pending_set v t) (s_tail t) (l_dispatcher k)" if "(logs(n \<mapsto> l)) m = Some k" for m k
    using that ok s l(1) by (cases "m = n") (auto simp: contents_ok_def)
  moreover have "m = m'" if "(logs(n \<mapsto> l)) m = Some j" "(logs(n \<mapsto> l)) m' = Some k" "l_self j = l_self k" for m m' j k
    using that l(2) ok unfolding contents_ok_def by (auto split: if_splits)
  ultimately show ?thesis using ok unfolding contents_ok_def by blast
qed

section \<open>The factory's invariant\<close>

definition factory_inv :: "('db \<Rightarrow> bytes \<rightharpoonup> bytes) \<Rightarrow> 'db factory \<Rightarrow> bool" where
  "factory_inv db_view f \<longleftrightarrow>
     (\<forall>name. config_ok (dispatch_config (stream_config (f_options f) name)))
     \<and> contents_ok (db_view (ro_db (f_root f))) (map_of (ro_streams (f_root f))) (map_of (f_logs f))"

text \<open>A freshly made dispatcher on a well-formed stream is quiescent.\<close>

lemma New_quiet:
  assumes "stream_wf v s" "New False c = Inr d"
  shows "quiet (pending_set v s) (s_tail s) d"
proof -
  have "sys_inv (\<lambda>_ :: unit. v) (sys_open s () d ())" by (rule sys_open_inv) (use assms in auto)
  then show ?thesis by (rule sys_inv_quiescent)
qed

lemma quiescent_sys_inv:
  assumes "stream_wf (db_view db) s" "quiet (pending_set (db_view db) s) (s_tail s) d"
  shows "sys_inv db_view (sys_open s db d g)"
  using assms by (simp add: sys_inv_def Let_def quiet_def)

context badger_store
begin

text \<open>One call on a log: the effects that \<open>contents_call\<close> asks for.\<close>

lemma facade_call_effect:
  assumes "facade_call B oor newReceipt ((l, s, db), g) ((l', s', db'), g')"
    and "stream_wf (db_view db) s" "quiet (pending_set (db_view db) s) (s_tail s) (l_dispatcher l)"
  shows "s_name s' = s_name s" "stream_wf (db_view db') s'" "same_elsewhere (s_name s) (db_view db) (db_view db')"
    "quiet (pending_set (db_view db') s') (s_tail s') (l_dispatcher l')"
proof -
  have run: "(sys_step B oor newReceipt undefined)\<^sup>*\<^sup>* (sys_open s db (l_dispatcher l) g) (sys_open s' db' (l_dispatcher l') g')"
    using facade_call_steps [OF assms(1)] by simp
  have inv: "sys_inv db_view (sys_open s db (l_dispatcher l) g)" using assms(2,3) by (rule quiescent_sys_inv)
  show "s_name s' = s_name s" "same_elsewhere (s_name s) (db_view db) (db_view db')"
    using sys_run_elsewhere [OF run inv] by simp_all
  show "stream_wf (db_view db') s'" "quiet (pending_set (db_view db') s') (s_tail s') (l_dispatcher l')"
    using sys_inv_quiescent [OF sys_run_inv [OF run inv]] by simp_all
qed

lemma facade_call_contents:
  assumes ok: "contents_ok (db_view db) streams logs" and l: "logs n = Some l" and s: "streams n = Some s"
    and call: "facade_call B oor newReceipt ((l, s, db), g) ((l', s', db'), g')"
  shows "contents_ok (db_view db') (streams(n \<mapsto> s')) (logs(n \<mapsto> l'))"
proof -
  obtain s0 where "streams n = Some s0" "s_name s0 = n" "stream_wf (db_view db) s0"
    "quiet (pending_set (db_view db) s0) (s_tail s0) (l_dispatcher l)"
    using ok l by (rule contents_logD)
  with s have st: "s_name s = n" "stream_wf (db_view db) s" "quiet (pending_set (db_view db) s) (s_tail s) (l_dispatcher l)"
    by auto
  note e = facade_call_effect [OF call st(2,3)]
  show ?thesis
    by (rule contents_call [OF ok l facade_call_self [OF call] s]) (use e st(1) in simp_all)
qed

lemma Root_Stream_contents:
  assumes ok: "contents_ok (db_view (ro_db r)) (map_of (ro_streams r)) logs" and run: "Root_Stream B name r = (res, r')"
  shows "contents_ok (db_view (ro_db r')) (map_of (ro_streams r')) logs" "ro_closed r' = ro_closed r"
    "case res of Inl e \<Rightarrow> ro_streams r' = ro_streams r \<and> db_view (ro_db r') = db_view (ro_db r)
       | Inr s \<Rightarrow> valid_name name \<and> map_of (ro_streams r') name = Some s"
proof -
  have "contents_ok (db_view (ro_db r')) (map_of (ro_streams r')) logs \<and> ro_closed r' = ro_closed r
    \<and> (case res of Inl e \<Rightarrow> ro_streams r' = ro_streams r \<and> db_view (ro_db r') = db_view (ro_db r)
       | Inr s \<Rightarrow> valid_name name \<and> map_of (ro_streams r') name = Some s)"
  proof (cases "valid_name name \<and> \<not> ro_closed r \<and> map_of (ro_streams r) name = None")
    case False
    with ok run show ?thesis
      by (auto simp: Root_Stream_def valid_name_def split: option.splits if_splits)
  next
    case True
    then have n: "valid_name name" and none: "map_of (ro_streams r) name = None" by auto
    obtain lr db' where load: "load B name (ro_db r) = (lr, db')" by fastforce
    show ?thesis
    proof (cases lr)
      case (Inl e)
      with True run load load_failed [of name "ro_db r" e db'] ok show ?thesis
        by (auto simp: Root_Stream_def valid_name_def)
    next
      case (Inr tail)
      let ?s = "\<lambda>t. \<lparr>s_name = name, s_tail = t, s_beforeCommit = None\<rparr>"
      have v: "db_view db' = (db_view (ro_db r))(metaKey name schemaMetaKey \<mapsto> [schemaVersion])"
        and lo: "loaded_ok (db_view db') name tail"
        using load_done [OF _ n, of "ro_db r" tail db'] load Inr by auto
      have "clean (db_view (ro_db r)) name" using ok n none by (simp add: contents_ok_def)
      then obtain t where t: "stream_wf (db_view db') (?s t)" unfolding v clean_def by blast
      then have "t = tail" using lo by (auto simp: stream_wf_def loaded_ok_def dest: tail_wf_unique)
      with t have wf: "stream_wf (db_view db') (?s tail)" by simp
      have "r' = r\<lparr>ro_db := db', ro_streams := AList.update name (?s tail) (ro_streams r)\<rparr>" "res = Inr (?s tail)"
        using True run load Inr by (auto simp: Root_Stream_def valid_name_def Let_def)
      with contents_stream [OF ok n none _ wf v] n show ?thesis by (simp add: update_conv')
    qed
  qed
  then show "contents_ok (db_view (ro_db r')) (map_of (ro_streams r')) logs" "ro_closed r' = ro_closed r"
    "case res of Inl e \<Rightarrow> ro_streams r' = ro_streams r \<and> db_view (ro_db r') = db_view (ro_db r)
       | Inr s \<Rightarrow> valid_name name \<and> map_of (ro_streams r') name = Some s"
    by auto
qed

lemma Factory_Open_inv:
  assumes inv: "factory_inv db_view f" and run: "Factory_Open B a c name f = (res, f')"
    and fresh: "\<forall>m k. map_of (f_logs f) m = Some k \<longrightarrow> l_self k \<noteq> a"
  shows "factory_inv db_view f'"
proof (cases "c = Live \<and> \<not> f_closed f \<and> map_of (f_logs f) name = None")
  case False
  with run inv show ?thesis by (cases c) (auto simp: Factory_Open_def split: if_splits option.splits)
next
  case True
  obtain sr r' where st: "Root_Stream B name (f_root f) = (sr, r')" by fastforce
  have ok: "contents_ok (db_view (ro_db (f_root f))) (map_of (ro_streams (f_root f))) (map_of (f_logs f))"
    using inv by (simp add: factory_inv_def)
  note rs = Root_Stream_contents [OF ok st]
  show ?thesis
  proof (cases sr)
    case (Inl e)
    with True run st rs inv show ?thesis by (auto simp: Factory_Open_def factory_inv_def)
  next
    case (Inr s)
    let ?c = "dispatch_config (stream_config (f_options f) name)"
    obtain d where d: "New False ?c = Inr d"
      using inv New_error_iff [of ?c] by (cases "New False ?c") (auto simp: factory_inv_def)
    have s: "map_of (ro_streams r') name = Some s" using rs(3) Inr by simp
    have "quiet (pending_set (db_view (ro_db r')) s) (s_tail s) d"
      using contents_streamD [OF rs(1) s] d by (intro New_quiet) auto
    then have "contents_ok (db_view (ro_db r')) (map_of (ro_streams r')) ((map_of (f_logs f))(name \<mapsto> newLogStream a d))"
      by (intro contents_log [OF rs(1) s]) (use fresh in \<open>auto simp: newLogStream_def\<close>)
    moreover have "f' = f\<lparr>f_root := r', f_logs := AList.update name (newLogStream a d) (f_logs f)\<rparr>"
      using True run st Inr d by (auto simp: Factory_Open_def Let_def)
    ultimately show ?thesis using inv by (simp add: factory_inv_def update_conv')
  qed
qed

end

section \<open>Interleavings\<close>

text \<open>The factory, how far its closer has come, and whether a maintenance pass holds \<open>gcMu\<close>. A pass
  takes the lock and checks \<open>closed\<close> in one step and collects in another: \<open>Close\<close> can begin in
  between. The worker may end at any time.\<close>

record 'db fsys =
  z_fac :: "'db factory"
  z_closer :: close_phase
  z_gcMu :: bool

definition fac_start :: "'db factory \<Rightarrow> 'db fsys" where
  "fac_start f = \<lparr>z_fac = f, z_closer = CloseEnter, z_gcMu = False\<rparr>"

definition set_call :: "bytes \<Rightarrow> logStream \<Rightarrow> stream \<Rightarrow> 'db \<Rightarrow> 'db factory \<Rightarrow> 'db factory" where
  "set_call name l s db f =
     (set_log name l f)\<lparr>f_root := (f_root f)\<lparr>ro_db := db, ro_streams := AList.update name s (ro_streams (f_root f))\<rparr>\<rparr>"

inductive fac_step ::
  "'db badger_lib \<Rightarrow> ('db, 'txn) badger \<Rightarrow> (float64 \<Rightarrow> duration) \<Rightarrow> ('g \<Rightarrow> (gerror + receipt) \<times> 'g)
   \<Rightarrow> 'db fsys \<times> 'g \<Rightarrow> 'db fsys \<times> 'g \<Rightarrow> bool" for lib B oor newReceipt where
  open_log: "\<forall>m k. map_of (f_logs (z_fac z)) m = Some k \<longrightarrow> l_self k \<noteq> a \<Longrightarrow>
     Factory_Open B a c name (z_fac z) = (res, f') \<Longrightarrow> fac_step lib B oor newReceipt (z, g) (z\<lparr>z_fac := f'\<rparr>, g)"
| call: "map_of (f_logs (z_fac z)) name = Some l \<Longrightarrow> map_of (ro_streams (f_root (z_fac z))) name = Some s \<Longrightarrow>
     facade_call B oor newReceipt ((l, s, ro_db (f_root (z_fac z))), g) ((l', s', db'), g') \<Longrightarrow>
     fac_step lib B oor newReceipt (z, g) (z\<lparr>z_fac := set_call name l' s' db' (z_fac z)\<rparr>, g')"
| pass_begin: "\<not> z_gcMu z \<Longrightarrow> \<not> f_closed (z_fac z) \<Longrightarrow> fac_step lib B oor newReceipt (z, g) (z\<lparr>z_gcMu := True\<rparr>, g)"
| pass_run: "z_gcMu z \<Longrightarrow> gc_pass lib (z_fac z) = (res, f') \<Longrightarrow>
     fac_step lib B oor newReceipt (z, g) (z\<lparr>z_fac := f', z_gcMu := False\<rparr>, g)"
| tick_panic: "fac_step lib B oor newReceipt (z, g)
     (z\<lparr>z_fac := (z_fac z)\<lparr>f_maintenancePanics := f_maintenancePanics (z_fac z) + 1\<rparr>\<rparr>, g)"
| worker_ends: "fac_step lib B oor newReceipt (z, g) (z\<lparr>z_fac := (z_fac z)\<lparr>f_maintenanceDone := True\<rparr>\<rparr>, g)"
| close_section: "any_order ord \<Longrightarrow> (\<forall>e. z_closer z = CloseStorage e \<longrightarrow> \<not> z_gcMu z) \<Longrightarrow>
     close_next lib ord (z_closer z) (z_fac z) = (p, f') \<Longrightarrow>
     fac_step lib B oor newReceipt (z, g) (z\<lparr>z_fac := f', z_closer := p\<rparr>, g)"

definition all_stopped :: "'db factory \<Rightarrow> bytes set \<Rightarrow> bool" where
  "all_stopped f except \<longleftrightarrow> (\<forall>name l. map_of (f_logs f) name = Some l \<and> name \<notin> except \<longrightarrow> stopped l)"

fun phase_ok :: "close_phase \<Rightarrow> 'db factory \<Rightarrow> bool" where
  "phase_ok CloseEnter f \<longleftrightarrow> \<not> f_closed f \<and> \<not> ro_closed (f_root f) \<and> \<not> f_closeDone f"
| "phase_ok CloseAwait f \<longleftrightarrow> False"
| "phase_ok (CloseMaintenance ns) f \<longleftrightarrow> f_closed f \<and> \<not> ro_closed (f_root f) \<and> \<not> f_closeDone f
     \<and> dom (map_of (f_logs f)) \<subseteq> set ns"
| "phase_ok (CloseLogs ns err) f \<longleftrightarrow> f_closed f \<and> \<not> ro_closed (f_root f) \<and> \<not> f_closeDone f \<and> all_stopped f (set ns)"
| "phase_ok (CloseStorage err) f \<longleftrightarrow> f_closed f \<and> \<not> ro_closed (f_root f) \<and> \<not> f_closeDone f \<and> all_stopped f {}"
| "phase_ok (CloseFinish err) f \<longleftrightarrow> f_closed f \<and> ro_closed (f_root f) \<and> \<not> f_closeDone f \<and> all_stopped f {}"
| "phase_ok (CloseReturn err) f \<longleftrightarrow> f_closed f \<and> ro_closed (f_root f) \<and> f_closeDone f \<and> f_closeErr f = err \<and> all_stopped f {}"

definition fac_inv :: "('db \<Rightarrow> bytes \<rightharpoonup> bytes) \<Rightarrow> 'db fsys \<Rightarrow> bool" where
  "fac_inv db_view z \<longleftrightarrow> factory_inv db_view (z_fac z) \<and> phase_ok (z_closer z) (z_fac z)
     \<and> (z_gcMu z \<longrightarrow> \<not> ro_closed (f_root (z_fac z)))"

lemma phase_ok_closed: "phase_ok p f \<Longrightarrow> f_closed f \<longleftrightarrow> p \<noteq> CloseEnter"
  by (cases p) auto

lemma phase_ok_root: "phase_ok p f \<Longrightarrow> ro_closed (f_root f) \<Longrightarrow> f_closed f \<and> all_stopped f {}"
  by (cases p) auto

text \<open>What the phases depend on.\<close>

lemma phase_ok_cong:
  assumes "phase_ok p f" "f_closed f' = f_closed f" "ro_closed (f_root f') = ro_closed (f_root f)"
    "f_closeDone f' = f_closeDone f" "f_closeErr f' = f_closeErr f" "dom (map_of (f_logs f')) \<subseteq> dom (map_of (f_logs f))"
    and "\<And>except. all_stopped f except \<Longrightarrow> all_stopped f' except"
  shows "phase_ok p f'"
  using assms by (cases p) auto

lemma all_stopped_update:
  assumes "all_stopped f except" "map_of (f_logs f) name = Some l" "stopped l \<Longrightarrow> stopped l'"
    "map_of (f_logs f') = (map_of (f_logs f))(name \<mapsto> l')"
  shows "all_stopped f' except"
  using assms by (auto simp: all_stopped_def)

section \<open>Every step keeps the invariant\<close>

locale factory_storage = badger_store B db_view txn_view + badger_upkeep lib db_view
  for B :: "('db, 'txn) badger" and db_view txn_view lib
begin

lemma gc_pass_frame:
  assumes "gc_pass lib f = (res, f')"
  shows "f_closed f' = f_closed f \<and> f_closeDone f' = f_closeDone f \<and> f_closeErr f' = f_closeErr f \<and> f_logs f' = f_logs f
    \<and> f_options f' = f_options f \<and> ro_closed (f_root f') = ro_closed (f_root f)
    \<and> ro_streams (f_root f') = ro_streams (f_root f) \<and> db_view (ro_db (f_root f')) = db_view (ro_db (f_root f))"
  using assms
  by (auto simp: gc_pass_def Let_def dest!: Root_GC_view split: prod.splits outcome.splits option.splits if_splits)

lemma factory_inv_frame:
  assumes "factory_inv db_view f" "f_options f' = f_options f" "f_logs f' = f_logs f"
    "ro_streams (f_root f') = ro_streams (f_root f)" "db_view (ro_db (f_root f')) = db_view (ro_db (f_root f))"
  shows "factory_inv db_view f'"
  using assms by (simp add: factory_inv_def)

lemma call_inv:
  assumes "factory_inv db_view f" "map_of (f_logs f) name = Some l" "map_of (ro_streams (f_root f)) name = Some s"
    "facade_call B oor newReceipt ((l, s, ro_db (f_root f)), g) ((l', s', db'), g')"
  shows "factory_inv db_view (set_call name l' s' db' f)"
proof -
  have "contents_ok (db_view (ro_db (f_root f))) (map_of (ro_streams (f_root f))) (map_of (f_logs f))"
    using assms(1) by (simp add: factory_inv_def)
  from facade_call_contents [OF this assms(2-4)] assms(1) show ?thesis
    by (simp add: factory_inv_def set_call_def set_log_def update_conv')
qed

lemma call_phase:
  assumes "phase_ok p f" "map_of (f_logs f) name = Some l"
    "facade_call B oor newReceipt ((l, s, db), g) ((l', s', db'), g')"
  shows "phase_ok p (set_call name l' s' db' f)"
proof (rule phase_ok_cong [OF assms(1)])
  fix except assume a: "all_stopped f except"
  have "stopped l'" if "stopped l" using facade_call_stopped [OF assms(3) that] that by simp
  then show "all_stopped (set_call name l' s' db' f) except"
    by (rule all_stopped_update [OF a assms(2)]) (simp_all add: set_call_def set_log_def update_conv')
qed (use assms(2) in \<open>auto simp: set_call_def set_log_def update_conv'\<close>)

text \<open>Closing a log is the call \<open>Close\<close>, whose effect on the contents is known.\<close>

lemma set_log_close_inv:
  assumes inv: "factory_inv db_view f" and l: "map_of (f_logs f) name = Some l"
  shows "factory_inv db_view (set_log name (close_start l) f)"
proof -
  let ?v = "db_view (ro_db (f_root f))"
  have ok: "contents_ok ?v (map_of (ro_streams (f_root f))) (map_of (f_logs f))" using inv by (simp add: factory_inv_def)
  then obtain s where s: "map_of (ro_streams (f_root f)) name = Some s" using l by (rule contents_logD)
  have "contents_ok ?v ((map_of (ro_streams (f_root f)))(name \<mapsto> s)) ((map_of (f_logs f))(name \<mapsto> close_start l))"
    using facade_call_contents [OF ok l s facade_call.Close [of B undefined undefined]] .
  then have "contents_ok ?v (map_of (ro_streams (f_root f))) ((map_of (f_logs f))(name \<mapsto> close_start l))"
    using s by (simp add: fun_upd_idem)
  with inv show ?thesis by (simp add: factory_inv_def set_log_def update_conv')
qed

lemma close_section_inv:
  assumes inv: "factory_inv db_view f" and ph: "phase_ok p f" and ord: "any_order ord"
    and run: "close_next lib ord p f = (p', f')"
  shows "factory_inv db_view f' \<and> phase_ok p' f'
    \<and> (ro_closed (f_root f') \<longrightarrow> ro_closed (f_root f) \<or> (\<exists>e. p = CloseStorage e))"
proof (cases p)
  case CloseEnter
  then have f': "p' = CloseMaintenance (ord (keys (f_logs f)))" "f' = f\<lparr>f_closed := True, f_canceled := True\<rparr>"
    using run ph by (auto simp: Let_def)
  have "dom (map_of (f_logs f)) = set (ord (keys (f_logs f)))" by (simp add: any_order_set [OF ord] dom_map_of_conv_image_fst)
  with inv ph CloseEnter show ?thesis unfolding f' by (simp add: factory_inv_def)
next
  case (CloseMaintenance ns)
  have "all_stopped f (set ns)" using ph CloseMaintenance by (auto simp: all_stopped_def)
  with CloseMaintenance run inv ph show ?thesis by (auto split: if_splits)
next
  case (CloseLogs ns err)
  show ?thesis
  proof (cases ns)
    case Nil
    with CloseLogs run inv ph show ?thesis by auto
  next
    case (Cons name ns')
    show ?thesis
    proof (cases "map_of (f_logs f) name")
      case None
      with CloseLogs Cons run inv ph show ?thesis by (fastforce simp: all_stopped_def)
    next
      case (Some l)
      have f': "f' = set_log name (close_start l) f" "p' = (if close_returns (close_start l) then CloseLogs ns' (first_error err None) else p)"
        using run CloseLogs Cons Some by (auto simp: Log_close_def Let_def split: if_splits)
      have c: "l_closing (close_start l)" by (simp add: close_start_def Let_def)
      have lg: "map_of (f_logs f') = (map_of (f_logs f))(name \<mapsto> close_start l)"
        unfolding f' by (simp add: set_log_def update_conv')
      have "stopped (close_start l)" if "close_returns (close_start l)" using that c by (simp add: stopped_def close_returns_def)
      with ph CloseLogs Cons have "phase_ok p' f'"
        unfolding f'(2) using lg by (auto simp: all_stopped_def f'(1) set_log_def)
      with set_log_close_inv [OF inv Some] show ?thesis unfolding f'(1) by (simp add: set_log_def)
    qed
  qed
next
  case (CloseStorage err)
  obtain e r where c: "Root_Close lib (f_root f) = (e, r)" by fastforce
  with Root_Close_view [OF c] CloseStorage run ph inv show ?thesis by (auto simp: factory_inv_def all_stopped_def)
qed (use run inv ph in \<open>auto simp: factory_inv_def all_stopped_def\<close>)

lemma Factory_Open_frame:
  assumes "factory_inv db_view f" "Factory_Open B a c name f = (res, f')"
  shows "f_closed f' = f_closed f \<and> f_closeDone f' = f_closeDone f \<and> f_closeErr f' = f_closeErr f
    \<and> ro_closed (f_root f') = ro_closed (f_root f) \<and> (f_closed f \<longrightarrow> f' = f)"
proof -
  obtain sr r' where st: "Root_Stream B name (f_root f) = (sr, r')" by fastforce
  have "ro_closed r' = ro_closed (f_root f)"
    using Root_Stream_contents(2) [OF _ st, of "map_of (f_logs f)"] assms(1) by (simp add: factory_inv_def)
  with assms(2) st show ?thesis
    by (cases c) (auto simp: Factory_Open_def Let_def split: option.splits if_splits sum.splits)
qed

lemma fac_step_inv:
  assumes "fac_step lib B oor newReceipt (z, g) (z', g')" "fac_inv db_view z"
  shows "fac_inv db_view z'"
proof -
  have inv: "factory_inv db_view (z_fac z)" and ph: "phase_ok (z_closer z) (z_fac z)"
    and gc: "z_gcMu z \<longrightarrow> \<not> ro_closed (f_root (z_fac z))"
    using assms(2) by (simp_all add: fac_inv_def)
  from assms(1) show ?thesis
  proof cases
    case (open_log a c name res f')
    note fr = Factory_Open_frame [OF inv open_log(4)]
    have "phase_ok (z_closer z) f'"
    proof (cases "f_closed (z_fac z)")
      case False
      with ph phase_ok_closed [OF ph] fr show ?thesis by simp
    qed (use ph fr in simp)
    with Factory_Open_inv [OF inv open_log(4,3)] fr gc open_log(1) show ?thesis by (simp add: fac_inv_def)
  next
    case (call name l s l' s' db')
    with call_inv [OF inv call(2-4)] call_phase [OF ph call(2,4)] gc show ?thesis
      by (simp add: fac_inv_def) (simp add: set_call_def set_log_def)
  next
    case pass_begin
    with inv ph phase_ok_root [OF ph] show ?thesis by (auto simp: fac_inv_def)
  next
    case (pass_run res f')
    note fr = gc_pass_frame [OF pass_run(4)]
    have "phase_ok (z_closer z) f'" by (rule phase_ok_cong [OF ph]) (use fr in \<open>auto simp: all_stopped_def\<close>)
    moreover have "factory_inv db_view f'" by (rule factory_inv_frame [OF inv]) (use fr in auto)
    ultimately show ?thesis using pass_run(1) by (simp add: fac_inv_def)
  next
    case tick_panic
    have "phase_ok (z_closer z) ((z_fac z)\<lparr>f_maintenancePanics := f_maintenancePanics (z_fac z) + 1\<rparr>)"
      by (rule phase_ok_cong [OF ph]) (auto simp: all_stopped_def)
    with inv gc tick_panic show ?thesis by (simp add: fac_inv_def factory_inv_def)
  next
    case worker_ends
    have "phase_ok (z_closer z) ((z_fac z)\<lparr>f_maintenanceDone := True\<rparr>)"
      by (rule phase_ok_cong [OF ph]) (auto simp: all_stopped_def)
    with inv gc worker_ends show ?thesis by (simp add: fac_inv_def factory_inv_def)
  next
    case (close_section ord p f')
    with close_section_inv [OF inv ph close_section(3,5)] gc show ?thesis by (auto simp: fac_inv_def)
  qed
qed

lemma fac_run_inv:
  assumes "(fac_step lib B oor newReceipt)\<^sup>*\<^sup>* (z, g) (z', g')" "fac_inv db_view z"
  shows "fac_inv db_view z'"
  using assms(1)
proof (induction "(z', g')" arbitrary: z' g' rule: rtranclp_induct)
  case base
  with assms(2) show ?case by simp
next
  case (step y)
  then show ?case by (cases y) (auto dest: fac_step_inv)
qed

text \<open>Once the storage is closed no step reaches it.\<close>

lemma fac_step_after_close:
  assumes "fac_step lib B oor newReceipt (z, g) (z', g')" "fac_inv db_view z" "ro_closed (f_root (z_fac z))"
  shows "ro_db (f_root (z_fac z')) = ro_db (f_root (z_fac z))" "map_of (f_logs (z_fac z')) = map_of (f_logs (z_fac z))"
    "map_of (ro_streams (f_root (z_fac z'))) = map_of (ro_streams (f_root (z_fac z)))"
proof -
  have inv: "factory_inv db_view (z_fac z)" and ph: "phase_ok (z_closer z) (z_fac z)"
    and gc: "z_gcMu z \<longrightarrow> \<not> ro_closed (f_root (z_fac z))"
    using assms(2) by (simp_all add: fac_inv_def)
  have cl: "f_closed (z_fac z)" "all_stopped (z_fac z) {}" using phase_ok_root [OF ph assms(3)] by auto
  from assms(1) have "ro_db (f_root (z_fac z')) = ro_db (f_root (z_fac z)) \<and> map_of (f_logs (z_fac z')) = map_of (f_logs (z_fac z))
    \<and> map_of (ro_streams (f_root (z_fac z'))) = map_of (ro_streams (f_root (z_fac z)))"
  proof cases
    case (open_log a c name res f')
    with Factory_Open_frame [OF inv open_log(4)] cl show ?thesis by simp
  next
    case (call name l s l' s' db')
    have "stopped l" using cl(2) call(2) by (simp add: all_stopped_def)
    from facade_call_stopped [OF call(4) this] call show ?thesis
      by (simp add: set_call_def set_log_def update_conv' fun_upd_idem)
  next
    case pass_run
    with gc assms(3) show ?thesis by simp
  next
    case (close_section ord p f')
    with ph assms(3) show ?thesis by (cases "z_closer z") auto
  qed simp_all
  then show "ro_db (f_root (z_fac z')) = ro_db (f_root (z_fac z))" "map_of (f_logs (z_fac z')) = map_of (f_logs (z_fac z))"
    "map_of (ro_streams (f_root (z_fac z'))) = map_of (ro_streams (f_root (z_fac z)))"
    by simp_all
qed

end

section \<open>A new factory\<close>

lemma clone_lookup:
  assumes "any_order ord" "distinct (keys configs)"
  shows "map_of (logs_of (cloneLogConfigs ord (Some configs))) = map_of configs"
proof -
  have f: "map_of (fold (\<lambda>(name, config) cloned. AList.update name config cloned) xs m) = map_of m ++ map_of (rev xs)" for xs m
    by (induction xs arbitrary: m) (auto simp: update_conv' map_add_def fun_eq_iff split: option.splits)
  have d: "distinct (keys (rev (ord configs)))"
    using assms unfolding any_order_def by (metis distinct_rev mset_eq_imp_distinct_iff mset_map rev_map)
  have "set (rev (ord configs)) = set configs" using any_order_set [OF assms(1)] by simp
  then have "map_of (rev (ord configs)) = map_of configs" using d assms(2) by (metis map_of_inject_set)
  then show ?thesis by (simp add: cloneLogConfigs_def logs_of_def f)
qed

lemma distinct_clone:
  shows "distinct (keys (logs_of (cloneLogConfigs ord configs)))"
proof -
  have "distinct (keys (fold (\<lambda>(name, config) cloned. AList.update name config cloned) xs m))"
    if "distinct (keys m)" for xs :: log_configs and m
    using that by (induction xs arbitrary: m) (auto intro: distinct_update)
  then show ?thesis by (cases configs) (simp_all add: cloneLogConfigs_def logs_of_def)
qed

lemma Factory_New_inv:
  assumes "Factory_New lib ord opts = Inr f" "any_order ord" "\<forall>name. valid_name name \<longrightarrow> clean (db_view (ro_db (f_root f))) name"
  shows "fac_inv db_view (fac_start f)"
proof -
  let ?o = "normalized_options ord opts"
  have v: "validateOptions ord ?o = None" using assms(1) by (auto simp: Factory_New_def Let_def split: option.splits)
  obtain r where r: "Root_Open lib (o_Dir ?o) = Inr r" "f_root f = r" "f_options f = ?o" "f_logs f = []" "\<not> f_closed f" "\<not> f_closeDone f"
    using assms(1) v by (auto simp: Factory_New_def Let_def gbind_Inr_iff)
  have "ro_streams r = [] \<and> \<not> ro_closed r" using r(1) by (auto simp: Root_Open_def split: if_splits sum.splits)
  with r assms(3) valid_stream_config [OF assms(2) v] show ?thesis
    by (simp add: fac_inv_def fac_start_def factory_inv_def contents_ok_def)
qed

interpretation mem_storage: factory_storage mem_badger map_of map_of mem_lib
  by (intro factory_storage.intro mem.badger_store_axioms mem_upkeep.badger_upkeep_axioms)

section \<open>Closing comes to an end\<close>

definition no_calls :: "'db factory \<Rightarrow> bool" where
  "no_calls f \<longleftrightarrow> (\<forall>name l. map_of (f_logs f) name = Some l \<longrightarrow> \<not> 0 < l_active l)"

text \<open>Each log in the list takes one section, when no call is active.\<close>

lemma run_close_logs:
  assumes "no_calls f" "all_stopped f (set ns)"
  shows "\<exists>f'. run_close (length ns + k) lib ord (CloseLogs ns None) f = run_close k lib ord (CloseLogs [] None) f'
    \<and> all_stopped f' {} \<and> f_root f' = f_root f \<and> f_closed f' = f_closed f"
  using assms
proof (induction ns arbitrary: f)
  case Nil
  then show ?case by auto
next
  case (Cons name ns)
  show ?case
  proof (cases "map_of (f_logs f) name")
    case None
    then have "all_stopped f (set ns)" using Cons.prems(2) by (fastforce simp: all_stopped_def)
    with Cons.IH [OF Cons.prems(1)] None show ?thesis by simp
  next
    case (Some l)
    let ?f = "set_log name (close_start l) f"
    have lg: "map_of (f_logs ?f) = (map_of (f_logs f))(name \<mapsto> close_start l)" by (simp add: set_log_def update_conv')
    have st: "l_closing (close_start l)" "\<not> 0 < l_active (close_start l)"
      using Cons.prems(1) Some by (auto simp: close_start_def Let_def no_calls_def)
    then have "Log_close l = (Some None, close_start l)" by (simp add: Log_close_def Let_def close_returns_def)
    moreover have "no_calls ?f" using Cons.prems(1) st by (simp add: no_calls_def lg)
    moreover have "all_stopped ?f (set ns)" using Cons.prems(2) st by (auto simp: all_stopped_def lg stopped_def)
    ultimately show ?thesis using Cons.IH [of ?f] Some by (simp add: first_error_def set_log_def)
  qed
qed

lemma Factory_Close_returns:
  assumes "\<not> f_closed f" "f_maintenanceDone f" "no_calls f" "any_order ord" "Root_Close lib (f_root f) = (e, r)"
  shows "\<exists>f'. Factory_Close (length (f_logs f) + 5) lib ord Live f = (Some (map_option (\<lambda>err. Errorf [err]) e), f')
    \<and> f_closed f' \<and> f_closeDone f' \<and> f_closeErr f' = map_option (\<lambda>err. Errorf [err]) e \<and> f_root f' = r \<and> all_stopped f' {}"
proof -
  let ?ns = "ord (keys (f_logs f))" and ?f = "f\<lparr>f_closed := True, f_canceled := True\<rparr>"
  have "mset ?ns = mset (keys (f_logs f))" using assms(4) by (simp add: any_order_def)
  then have len: "length ?ns = length (f_logs f)" by (metis length_map size_mset)
  have "all_stopped ?f (set ?ns)"
    using any_order_set [OF assms(4)] by (auto simp: all_stopped_def dest: map_of_SomeD) (force dest: map_of_SomeD)
  moreover have "no_calls ?f" using assms(3) by (simp add: no_calls_def)
  ultimately obtain f1 where f1: "run_close (length ?ns + 3) lib ord (CloseLogs ?ns None) ?f = run_close 3 lib ord (CloseLogs [] None) f1"
    "all_stopped f1 {}" "f_root f1 = f_root f" "f_closed f1"
    using run_close_logs [of ?f ?ns 3 lib ord] by auto
  have "Factory_Close (length (f_logs f) + 5) lib ord Live f = run_close (length ?ns + 3) lib ord (CloseLogs ?ns None) ?f"
    using assms(1,2) len by (simp add: Factory_Close_def Let_def eval_nat_numeral)
  with f1 assms(5) show ?thesis by (simp add: eval_nat_numeral first_error_def all_stopped_def)
qed

section \<open>Maintenance\<close>

text \<open>How a tick counts, and when it ends the worker.\<close>

definition gc_balance :: "'db factory \<Rightarrow> u64" where
  "gc_balance f = f_gcRuns f - f_gcRewrites f - f_gcNoRewrite f - f_gcErrors f - f_maintenancePanics f"

lemma tick_balance: "runMaintenanceTick lib c f = (w, f') \<Longrightarrow> gc_balance f' = gc_balance f"
  by (cases c)
    (auto simp: runMaintenanceTick_def RunMaintenance_def maintenance_locked_def gc_pass_def gc_balance_def Let_def
      split: prod.splits outcome.splits option.splits if_splits)

lemma worker_balance: "maintenanceWorker lib events f = (w, f') \<Longrightarrow> gc_balance f' = gc_balance f"
proof (induction lib events f rule: maintenanceWorker.induct)
  case (3 lib c events f)
  then show ?case by (auto split: prod.splits bool.splits dest!: tick_balance)
qed simp_all

text \<open>Badger's collector does not report Teak's own sentinel or a cancelled context.\<close>

definition foreign_errors :: "'db badger_lib \<Rightarrow> bool" where
  "foreign_errors lib \<longleftrightarrow> (\<forall>ratio db err db'. bl_RunValueLogGC lib ratio db = (Returns (Some err), db') \<longrightarrow>
     \<not> errors_is err (TeakError ErrClosed) \<and> \<not> errors_is err (ContextError ContextCanceled))"

lemma tick_survives:
  assumes "foreign_errors lib" "\<not> f_closed f"
  shows "\<exists>f'. runMaintenanceTick lib Live f = (True, f') \<and> \<not> f_closed f' \<and> f_gcRuns f' = f_gcRuns f + 1"
  using assms
  by (auto simp: runMaintenanceTick_def RunMaintenance_def maintenance_locked_def gc_pass_def Root_RunValueLogGC_def
      foreign_errors_def Let_def split: prod.splits outcome.splits option.splits if_splits)

lemma worker_survives:
  assumes "foreign_errors lib" "\<not> f_closed f"
  shows "\<exists>f'. maintenanceWorker lib (replicate n (Tick Live)) f = (True, f') \<and> f_gcRuns f' = f_gcRuns f + word_of_nat n"
  using assms(2)
proof (induction n arbitrary: f)
  case (Suc n)
  obtain f1 where f1: "runMaintenanceTick lib Live f = (True, f1)" "\<not> f_closed f1" "f_gcRuns f1 = f_gcRuns f + 1"
    using tick_survives [OF assms(1) Suc.prems] by blast
  with Suc.IH [OF f1(2)] show ?case by (auto simp: algebra_simps)
qed simp

end
