(* ===== verification/Factory_Props.thy ===== *)
theory Factory_Props
  imports Factory_System Log_Props
begin

text \<open>
  The properties of options and of the factory, with their witnesses on an in-memory database:
  \<open>demo_factory\<close> is a factory just created with the default options and no maintenance worker,
  \<open>demo_opened\<close> the same with one log open.
\<close>

section \<open>Demonstration states\<close>

definition demo_options :: options where
  "demo_options = WithMaintenanceInterval 0 (DefaultOptions (str ''d''))"

lemma demo_validate: "validateOptions id (normalized_options id demo_options) = None"
  by (simp add: demo_options_def WithMaintenanceInterval_def DefaultOptions_def normalized_options_def Let_def
      validateOptions_def DefaultLogConfig_def normalizeLogConfig_def validateLogConfig_def cloneLogConfigs_def logs_of_def
      default_defs str_def)

definition demo_factory :: "kv factory" where
  "demo_factory = \<lparr>f_root = \<lparr>ro_db = [], ro_closed = False, ro_streams = []\<rparr>,
     f_options = normalized_options id demo_options, f_closed = False, f_closeDone = False, f_closeErr = None,
     f_logs = [], f_canceled = False, f_maintenanceDone = True,
     f_gcRuns = 0, f_gcRewrites = 0, f_gcNoRewrite = 0, f_gcErrors = 0, f_maintenancePanics = 0\<rparr>"

lemma demo_factory_New: "Factory_New mem_lib id demo_options = Inr demo_factory"
proof -
  have "o_Dir (normalized_options id demo_options) = str ''d''" "o_MaintenanceInterval (normalized_options id demo_options) = 0"
    by (simp_all add: demo_options_def WithMaintenanceInterval_def DefaultOptions_def normalized_options_def Let_def)
  then show ?thesis using demo_validate by (simp add: Factory_New_def Root_Open_def mem_lib_def demo_factory_def str_def)
qed

lemma clean_empty:
  assumes "valid_name name"
  shows "clean Map.empty name"
proof -
  have "stream_wf [metaKey name schemaMetaKey \<mapsto> [schemaVersion]] \<lparr>s_name = name, s_tail = 0, s_beforeCommit = None\<rparr>"
    using assms by (auto simp: stream_wf_def pending_wf_def dead_wf_def states_disjoint_def tail_wf_def split: if_splits)
  then show ?thesis unfolding clean_def by blast
qed

lemma demo_clean: "\<forall>name. valid_name name \<longrightarrow> clean (map_of (ro_db (f_root demo_factory))) name"
  by (simp add: demo_factory_def clean_empty)

lemma demo_Open:
  obtains f l where "Factory_Open mem_badger 3 Live (str ''q'') demo_factory = (Inr 3, f)"
    "map_of (f_logs f) (str ''q'') = Some l" "l_self l = 3"
proof -
  have "load mem_badger (str ''q'') [] = (Inr 0, demo_db)"
    by (simp add: load_def load_txn_def load_schema_def load_tail_def maxStoredSequence_def
        validateStoredStates_def validate_merge.simps eval_simps demo_db_def)
  moreover have "config_ok (dispatch_config (stream_config (f_options demo_factory) (str ''q'')))"
    using valid_stream_config [OF any_order_id demo_validate] by (simp add: demo_factory_def)
  then obtain d where "New False (dispatch_config (stream_config (f_options demo_factory) (str ''q''))) = Inr d"
    using New_error_iff by (metis isl_def sum.exhaust)
  ultimately have "\<exists>f l. Factory_Open mem_badger 3 Live (str ''q'') demo_factory = (Inr 3, f)
      \<and> map_of (f_logs f) (str ''q'') = Some l \<and> l_self l = 3"
    using demo_name by (simp add: Factory_Open_def Root_Stream_def valid_name_def demo_factory_def newLogStream_def Let_def)
  with that show thesis by blast
qed

lemma demo_open_step:
  obtains f l where "(fac_step mem_lib mem_badger oor demo_gen)\<^sup>*\<^sup>* (fac_start demo_factory, 7) (fac_start f, 7)"
    "map_of (f_logs f) (str ''q'') = Some l" "l_self l = 3"
proof -
  obtain f l where o: "Factory_Open mem_badger 3 Live (str ''q'') demo_factory = (Inr 3, f)" "map_of (f_logs f) (str ''q'') = Some l"
    "l_self l = 3" by (rule demo_Open)
  have "fac_step mem_lib mem_badger oor demo_gen (fac_start demo_factory, 7) ((fac_start demo_factory)\<lparr>z_fac := f\<rparr>, 7)"
    by (rule fac_step.open_log [OF _, of _ 3 mem_badger Live "str ''q''"]) (use o in \<open>simp_all add: fac_start_def demo_factory_def\<close>)
  moreover have "(fac_start demo_factory)\<lparr>z_fac := f\<rparr> = fac_start f" by (simp add: fac_start_def)
  ultimately show thesis using that o(2,3) by auto
qed

section \<open>The factory as a whole\<close>

lemma reachable_inv:
  assumes "badger_store B db_view txn_view" "badger_upkeep lib db_view" "Factory_New lib ord opts = Inr f0" "any_order ord"
    and "\<forall>name. valid_name name \<longrightarrow> clean (db_view (ro_db (f_root f0))) name"
    and "(fac_step lib B oor newReceipt)\<^sup>*\<^sup>* (fac_start f0, g) (z, g')"
  shows "fac_inv db_view z"
proof -
  have "factory_storage B db_view txn_view lib" by (intro factory_storage.intro assms(1,2))
  then show ?thesis by (rule factory_storage.fac_run_inv [OF _ assms(6) Factory_New_inv [where db_view = db_view, OF assms(3-5)]])
qed

text \<open>C3. The factory keeps every log in order. Create a factory on storage in which every stream is in
  order, and let opens, calls on all logs, maintenance passes and the sections of \<open>Close\<close>
  interleave in any order. Then each open log has its own stream, which is well-formed; the log
  tracks pending records of that stream only, and a pending record it does not track will be
  found by a scan that is enabled; and no two logs have the same identity, so a token of one
  is refused by every other.\<close>

theorem factory_history:
  assumes "badger_store B db_view txn_view" "badger_upkeep lib db_view" "Factory_New lib ord opts = Inr f0" "any_order ord"
    and "\<forall>name. valid_name name \<longrightarrow> clean (db_view (ro_db (f_root f0))) name"
    and "(fac_step lib B oor newReceipt)\<^sup>*\<^sup>* (fac_start f0, g) (z, g')"
    and "map_of (f_logs (z_fac z)) name = Some l" "v = db_view (ro_db (f_root (z_fac z)))"
  shows "\<exists>s. map_of (ro_streams (f_root (z_fac z))) name = Some s \<and> s_name s = name \<and> stream_wf v s
    \<and> dom (d_states (l_dispatcher l)) \<subseteq> pending_set v s
    \<and> (\<forall>q \<in> pending_set v s. d_states (l_dispatcher l) q \<noteq> None
         \<or> d_cursor (l_dispatcher l) \<le> q \<and> \<not> d_scanDone (l_dispatcher l) \<and> \<not> d_scanEmpty (l_dispatcher l))
    \<and> (\<forall>m k xs. map_of (f_logs (z_fac z)) m = Some k \<and> m \<noteq> name \<and> (\<exists>x \<in> set xs. td_owner x = Some (l_self l)) \<longrightarrow>
         unwrap k xs = Inl (TeakError ErrInvalidDelivery))"
proof -
  have "fac_inv db_view z" by (rule reachable_inv [OF assms(1-6)])
  then have ok: "contents_ok v (map_of (ro_streams (f_root (z_fac z)))) (map_of (f_logs (z_fac z)))"
    by (simp add: fac_inv_def factory_inv_def assms(8))
  obtain s where s: "map_of (ro_streams (f_root (z_fac z))) name = Some s" "s_name s = name" "stream_wf v s"
    "quiet (pending_set v s) (s_tail s) (l_dispatcher l)"
    using ok assms(7) by (rule contents_logD)
  have "unwrap k xs = Inl (TeakError ErrInvalidDelivery)"
    if "map_of (f_logs (z_fac z)) m = Some k" "m \<noteq> name" "x \<in> set xs" "td_owner x = Some (l_self l)" for m k xs x
  proof -
    have "l_self k \<noteq> l_self l" using ok that(1,2) assms(7) unfolding contents_ok_def by blast
    with that(3,4) show ?thesis by (intro unwrap_foreign) auto
  qed
  with s quiet_tracks [OF s(4)] show ?thesis by blast
qed

theorem factory_history_witness:
  "\<exists>(z :: kv fsys) l s. map_of (f_logs (z_fac z)) (str ''q'') = Some l \<and> l_self l = 3
     \<and> map_of (ro_streams (f_root (z_fac z))) (str ''q'') = Some s \<and> stream_wf (map_of (ro_db (f_root (z_fac z)))) s"
proof -
  obtain f l where f: "(fac_step mem_lib mem_badger (\<lambda>_. 0) demo_gen)\<^sup>*\<^sup>* (fac_start demo_factory, 7) (fac_start f, 7)"
    "map_of (f_logs f) (str ''q'') = Some l" "l_self l = 3" by (rule demo_open_step)
  have lg: "map_of (f_logs (z_fac (fac_start f))) (str ''q'') = Some l" using f(2) by (simp add: fac_start_def)
  from factory_history [OF mem.badger_store_axioms mem_upkeep.badger_upkeep_axioms demo_factory_New any_order_id demo_clean f(1) lg refl]
  obtain s where "map_of (ro_streams (f_root (z_fac (fac_start f)))) (str ''q'') = Some s"
    "stream_wf (map_of (ro_db (f_root (z_fac (fac_start f))))) s" by blast
  with lg f(3) show ?thesis by blast
qed

text \<open>C36. Opening a log. On a reachable factory an open that succeeds returns the log registered
  under the name, which is valid. A log that was open already is returned as it is and nothing
  changes; a new one gets its own address and a dispatcher with nothing tracked, on a stream whose
  tail is the stored one. Every other log and every other stream is as before. An open that
  fails changes no log, no stream and no contents.\<close>

theorem factory_open_correct:
  assumes "badger_store B db_view txn_view" "badger_upkeep lib db_view" "Factory_New lib ord opts = Inr f0" "any_order ord"
    and "\<forall>name. valid_name name \<longrightarrow> clean (db_view (ro_db (f_root f0))) name"
    and "(fac_step lib B oor newReceipt)\<^sup>*\<^sup>* (fac_start f0, g) (z, g')"
    and "f = z_fac z" "Factory_Open B a c name f = (res, f')"
  shows "case res of
      Inl e \<Rightarrow> f_logs f' = f_logs f \<and> ro_streams (f_root f') = ro_streams (f_root f)
        \<and> db_view (ro_db (f_root f')) = db_view (ro_db (f_root f))
    | Inr h \<Rightarrow> (\<exists>l s. map_of (f_logs f') name = Some l \<and> l_self l = h \<and> valid_name name
        \<and> map_of (ro_streams (f_root f')) name = Some s \<and> tail_wf (db_view (ro_db (f_root f'))) name (s_tail s)
        \<and> (map_of (f_logs f) name \<noteq> None \<longrightarrow> f' = f)
        \<and> (map_of (f_logs f) name = None \<longrightarrow> h = a \<and> d_states (l_dispatcher l) = Map.empty \<and> \<not> l_closing l)
        \<and> (\<forall>m. m \<noteq> name \<longrightarrow> map_of (f_logs f') m = map_of (f_logs f) m
             \<and> map_of (ro_streams (f_root f')) m = map_of (ro_streams (f_root f)) m))"
proof -
  have inv: "factory_inv db_view f" using reachable_inv [OF assms(1-6)] by (simp add: fac_inv_def assms(7))
  then have ok: "contents_ok (db_view (ro_db (f_root f))) (map_of (ro_streams (f_root f))) (map_of (f_logs f))"
    and cfg: "config_ok (dispatch_config (stream_config (f_options f) name))" by (simp_all add: factory_inv_def)
  show ?thesis
  proof (cases "c = Live \<and> \<not> f_closed f")
    case False
    with assms(8) show ?thesis by (cases c) (auto simp: Factory_Open_def)
  next
    case live: True
    show ?thesis
    proof (cases "map_of (f_logs f) name")
      case (Some l)
      obtain s where "map_of (ro_streams (f_root f)) name = Some s" "s_name s = name" "stream_wf (db_view (ro_db (f_root f))) s"
        using ok Some by (rule contents_logD)
      with live Some assms(8) show ?thesis by (auto simp: Factory_Open_def stream_wf_def)
    next
      case None
      obtain sr r' where st: "Root_Stream B name (f_root f) = (sr, r')" by fastforce
      note rs = badger_store.Root_Stream_contents [OF assms(1) ok st]
      show ?thesis
      proof (cases sr)
        case (Inl e)
        with live None st rs(3) assms(8) show ?thesis by (auto simp: Factory_Open_def)
      next
        case (Inr s)
        obtain d where d: "New False (dispatch_config (stream_config (f_options f) name)) = Inr d"
          using cfg New_error_iff by (metis isl_def sum.exhaust)
        have f': "res = Inr a" "f' = f\<lparr>f_root := r', f_logs := AList.update name (newLogStream a d) (f_logs f)\<rparr>"
          using live None st Inr d assms(8) by (auto simp: Factory_Open_def Let_def)
        have s: "valid_name name" "map_of (ro_streams r') name = Some s" using rs(3) Inr by simp_all
        then have "tail_wf (db_view (ro_db r')) name (s_tail s)"
          using contents_streamD [OF rs(1) s(2)] by (auto simp: stream_wf_def)
        moreover have "map_of (ro_streams r') m = map_of (ro_streams (f_root f)) m" if "m \<noteq> name" for m
          using st that Inr
          by (auto simp: Root_Stream_def Let_def update_conv' split: option.splits if_splits sum.splits prod.splits)
        ultimately show ?thesis
          using None s New_fields [OF d] unfolding f' by (simp add: update_conv' newLogStream_def)
      qed
    qed
  qed
qed

theorem factory_open_correct_witness:
  "\<exists>f' l. Factory_Open mem_badger 3 Live (str ''q'') demo_factory = (Inr 3, f')
     \<and> map_of (f_logs f') (str ''q'') = Some l \<and> d_states (l_dispatcher l) = Map.empty"
proof -
  obtain f l where o: "Factory_Open mem_badger 3 Live (str ''q'') demo_factory = (Inr 3, f)" by (rule demo_Open)
  have "demo_factory = z_fac (fac_start demo_factory)" "map_of (f_logs demo_factory) (str ''q'') = None"
    by (simp_all add: fac_start_def demo_factory_def)
  with factory_open_correct [OF mem.badger_store_axioms mem_upkeep.badger_upkeep_axioms demo_factory_New any_order_id demo_clean
      rtranclp.rtrancl_refl [of "fac_step mem_lib mem_badger (\<lambda>_. 0) demo_gen" "(fac_start demo_factory, 7)"] _ o] o
  show ?thesis by auto
qed

section \<open>Closing\<close>

text \<open>C13. Closing is safe. However opens, calls, maintenance passes and the sections of \<open>Close\<close>
  interleave, the storage is open whenever a maintenance pass holds its lock, so it is never
  closed in the middle of a pass; and when it is closed, the factory is marked closed and every
  log is closed with no call active. From then on no step whatsoever changes the database, a
  stream or a log, and opening and maintenance are refused with \<open>ErrClosed\<close>.\<close>

theorem factory_close_safe:
  assumes "badger_store B db_view txn_view" "badger_upkeep lib db_view" "Factory_New lib ord opts = Inr f0" "any_order ord"
    and "\<forall>name. valid_name name \<longrightarrow> clean (db_view (ro_db (f_root f0))) name"
    and "(fac_step lib B oor newReceipt)\<^sup>*\<^sup>* (fac_start f0, g) (z, g')"
    and "f = z_fac z"
  shows "(z_gcMu z \<longrightarrow> \<not> ro_closed (f_root f))
    \<and> (ro_closed (f_root f) \<longrightarrow>
         (\<forall>name l. map_of (f_logs f) name = Some l \<longrightarrow> l_closing l \<and> \<not> 0 < l_active l)
         \<and> (\<forall>z' g''. fac_step lib B oor newReceipt (z, g') (z', g'') \<longrightarrow>
              ro_db (f_root (z_fac z')) = ro_db (f_root f) \<and> map_of (f_logs (z_fac z')) = map_of (f_logs f)
              \<and> map_of (ro_streams (f_root (z_fac z'))) = map_of (ro_streams (f_root f)))
         \<and> (\<forall>a name. Factory_Open B a Live name f = (Inl (TeakError ErrClosed), f))
         \<and> RunMaintenance lib Live f = (Returns (Some (TeakError ErrClosed)), f))"
proof -
  have fs: "factory_storage B db_view txn_view lib" by (intro factory_storage.intro assms(1,2))
  have inv: "fac_inv db_view z" by (rule reachable_inv [OF assms(1-6)])
  then have ph: "phase_ok (z_closer z) f" "z_gcMu z \<longrightarrow> \<not> ro_closed (f_root f)" by (simp_all add: fac_inv_def assms(7))
  have "f_closed f \<and> all_stopped f {}" if "ro_closed (f_root f)" using phase_ok_root [OF ph(1) that] .
  moreover have "ro_db (f_root (z_fac z')) = ro_db (f_root f) \<and> map_of (f_logs (z_fac z')) = map_of (f_logs f)
      \<and> map_of (ro_streams (f_root (z_fac z'))) = map_of (ro_streams (f_root f))"
    if "fac_step lib B oor newReceipt (z, g') (z', g'')" "ro_closed (f_root f)" for z' g''
    using factory_storage.fac_step_after_close [OF fs that(1) inv that(2) [unfolded assms(7)]] assms(7) by simp
  ultimately show ?thesis
    using ph(2) unfolding all_stopped_def stopped_def by (auto simp: Factory_Open_def RunMaintenance_def)
qed

text \<open>C37. Closing returns. When the worker has ended and no call is active on any log, \<open>Close\<close>
  returns after as many sections as there are logs and five more. Its result is nil or the error
  of closing the storage, wrapped; the storage has been closed, every log is closed, and a second
  call returns the same result and changes nothing.\<close>

theorem factory_close_returns:
  assumes "\<not> f_closed f" "f_maintenanceDone f" "\<forall>name l. map_of (f_logs f) name = Some l \<longrightarrow> \<not> 0 < l_active l"
    and "any_order ord" "Root_Close lib (f_root f) = (e, r)" "result = map_option (\<lambda>err. Errorf [err]) e"
  shows "\<exists>f'. Factory_Close (length (f_logs f) + 5) lib ord Live f = (Some result, f') \<and> f_root f' = r
    \<and> (\<forall>name l. map_of (f_logs f') name = Some l \<longrightarrow> l_closing l \<and> \<not> 0 < l_active l)
    \<and> Factory_Close 2 lib ord Live f' = (Some result, f')"
proof -
  have "no_calls f" using assms(3) by (simp add: no_calls_def)
  from Factory_Close_returns [OF assms(1,2) this assms(4,5)] obtain f' where
    "Factory_Close (length (f_logs f) + 5) lib ord Live f = (Some result, f')" "f_closed f'" "f_closeDone f'"
    "f_closeErr f' = result" "f_root f' = r" "all_stopped f' {}"
    unfolding assms(6) by blast
  then show ?thesis by (auto simp: all_stopped_def stopped_def Factory_Close_def numeral_2_eq_2)
qed

theorem factory_close_returns_witness:
  "\<exists>f'. Factory_Close 5 mem_lib id Live demo_factory = (Some None, f') \<and> ro_closed (f_root f')
     \<and> Factory_Close 2 mem_lib id Live f' = (Some None, f')"
  using factory_close_returns [of demo_factory id mem_lib None "\<lparr>ro_db = [], ro_closed = True, ro_streams = []\<rparr>" None]
  by (auto simp: demo_factory_def any_order_id Root_Close_def mem_lib_def)

theorem factory_close_safe_witness:
  "\<exists>z. (fac_step mem_lib mem_badger (\<lambda>_. 0) demo_gen)\<^sup>*\<^sup>* (fac_start demo_factory, 7) (z, 7) \<and> ro_closed (f_root (z_fac z))
     \<and> Factory_Open mem_badger 3 Live (str ''q'') (z_fac z) = (Inl (TeakError ErrClosed), z_fac z)"
proof -
  let ?S = "fac_step mem_lib mem_badger (\<lambda>_. 0 :: int) demo_gen"
  let ?z = "\<lambda>f p. \<lparr>z_fac = f, z_closer = p, z_gcMu = False\<rparr>"
  let ?f = "demo_factory\<lparr>f_closed := True, f_canceled := True\<rparr>"
  let ?c = "?f\<lparr>f_root := \<lparr>ro_db = [], ro_closed = True, ro_streams = []\<rparr>\<rparr>"
  have step: "?S (?z f p, 7) (?z f' p', 7)" if "close_next mem_lib id p f = (p', f')" for f p f' p'
    using fac_step.close_section [of id "?z f p" mem_lib p' f' mem_badger "\<lambda>_. 0" demo_gen 7] that
    by (simp add: any_order_id)
  have "?S (fac_start demo_factory, 7) (?z ?f (CloseMaintenance []), 7)"
    unfolding fac_start_def by (rule step) (simp add: demo_factory_def Let_def)
  moreover have "?S (?z ?f (CloseMaintenance []), 7) (?z ?f (CloseLogs [] None), 7)"
    by (rule step) (simp add: demo_factory_def)
  moreover have "?S (?z ?f (CloseLogs [] None), 7) (?z ?f (CloseStorage None), 7)" by (rule step) simp
  moreover have "?S (?z ?f (CloseStorage None), 7) (?z ?c (CloseFinish None), 7)"
    by (rule step) (simp add: demo_factory_def Root_Close_def mem_lib_def first_error_def)
  ultimately have run: "?S\<^sup>*\<^sup>* (fac_start demo_factory, 7) (?z ?c (CloseFinish None), 7)"
    by (meson converse_rtranclp_into_rtranclp r_into_rtranclp)
  from factory_close_safe [OF mem.badger_store_axioms mem_upkeep.badger_upkeep_axioms demo_factory_New any_order_id demo_clean run refl]
  have "Factory_Open mem_badger 3 Live (str ''q'') ?c = (Inl (TeakError ErrClosed), ?c)" by simp
  with run show ?thesis by (intro exI [of _ "?z ?c (CloseFinish None)"]) simp
qed

section \<open>Maintenance\<close>

text \<open>C38. Maintenance is accounted for and survives. Whatever events the worker sees, each pass that
  was started is counted once as a rewrite, as having found nothing, as an error or as a panic, so
  the statistics add up whenever they did before. On an open factory the worker outlives every
  pass that fails or panics: after \<open>n\<close> ticks \<open>n\<close> more passes have run and it is still waiting. A
  tick on a closed factory, or a done context, ends it without a pass.\<close>

theorem maintenance_accounting:
  assumes "maintenanceLoop lib events f = (w, f')" "foreign_errors lib"
    and "f_gcRuns f = f_gcRewrites f + f_gcNoRewrite f + f_gcErrors f + f_maintenancePanics f"
  shows "f_gcRuns f' = f_gcRewrites f' + f_gcNoRewrite f' + f_gcErrors f' + f_maintenancePanics f'
    \<and> (\<not> f_closed f \<and> events = replicate n (Tick Live) \<longrightarrow> w \<and> f_gcRuns f' = f_gcRuns f + word_of_nat n)
    \<and> (events = CtxDone # rest \<or> events = Tick (Done (ContextError ContextCanceled)) # rest \<or> f_closed f \<and> events = Tick Live # rest \<longrightarrow>
         \<not> w \<and> f' = f\<lparr>f_maintenanceDone := True\<rparr>)"
proof -
  obtain w1 f1 where run: "maintenanceWorker lib events f = (w1, f1)" by fastforce
  then have f': "w = w1" "f' = (if w1 then f1 else f1\<lparr>f_maintenanceDone := True\<rparr>)"
    using assms(1) by (auto simp: maintenanceLoop_def split: bool.splits)
  have "gc_balance f' = gc_balance f" using worker_balance [OF run] by (simp add: f' gc_balance_def)
  then have bal: "f_gcRuns f' = f_gcRewrites f' + f_gcNoRewrite f' + f_gcErrors f' + f_maintenancePanics f'"
    using assms(3) by (simp add: gc_balance_def algebra_simps)
  have "w \<and> f_gcRuns f' = f_gcRuns f + word_of_nat n" if "\<not> f_closed f" "events = replicate n (Tick Live)"
    using worker_survives [OF assms(2) that(1), of n] run that(2) f' by auto
  with bal run f' show ?thesis by (auto simp: runMaintenanceTick_def RunMaintenance_def)
qed

text \<open>A collector that fails with an error of its own, then panics for ever.\<close>

definition demo_gc :: "nat badger_lib" where
  "demo_gc = \<lparr>bl_Open = (\<lambda>_. Inr 0), bl_Close = (\<lambda>n. (None, n)),
     bl_RunValueLogGC = (\<lambda>ratio n. if n = 0 then (Returns (Some (ErrorText ''disk'')), 1) else (Panics, n))\<rparr>"

definition demo_gc_factory :: "nat factory" where
  "demo_gc_factory = \<lparr>f_root = \<lparr>ro_db = 0, ro_closed = False, ro_streams = []\<rparr>,
     f_options = demo_options, f_closed = False, f_closeDone = False, f_closeErr = None,
     f_logs = [], f_canceled = False, f_maintenanceDone = False,
     f_gcRuns = 0, f_gcRewrites = 0, f_gcNoRewrite = 0, f_gcErrors = 0, f_maintenancePanics = 0\<rparr>"

theorem maintenance_accounting_witness:
  "\<exists>f'. maintenanceLoop demo_gc (replicate 3 (Tick Live)) demo_gc_factory = (True, f') \<and> f_gcRuns f' = 3
     \<and> f_gcRuns f' = f_gcRewrites f' + f_gcNoRewrite f' + f_gcErrors f' + f_maintenancePanics f'"
proof -
  obtain w f' where run: "maintenanceLoop demo_gc (replicate 3 (Tick Live)) demo_gc_factory = (w, f')" by fastforce
  have "foreign_errors demo_gc" by (auto simp: foreign_errors_def demo_gc_def split: if_splits)
  from maintenance_accounting [OF run this, of 3 "[]"] run show ?thesis by (auto simp: demo_gc_factory_def)
qed

section \<open>Options\<close>

text \<open>C39. Options are resolved and checked up front. \<open>New\<close> fails only when the storage cannot be opened
  or a part of the options is out of range after the defaults are filled in. A factory that was
  created gives each stream its override, completed field by field from the default log, which is
  completed from the built-in defaults; and for every stream the dispatcher accepts that
  configuration, so opening a log never fails on its configuration.\<close>

theorem options_resolved:
  assumes "any_order ord" "distinct (keys (logs_of (o_Logs opts)))" "base = mergeLogConfig (o_DefaultLog opts) DefaultLogConfig"
  shows "case Factory_New lib ord opts of
      Inr f \<Rightarrow> (\<forall>name. stream_config (f_options f) name =
            (case map_of (logs_of (o_Logs opts)) name of None \<Rightarrow> base | Some override \<Rightarrow> mergeLogConfig override base))
        \<and> (\<forall>name. \<not> isl (New False (dispatch_config (stream_config (f_options f) name))))
    | Inl e \<Rightarrow> Root_Open lib (o_Dir opts) = Inl e \<or> o_Dir opts = [] \<or> o_MaintenanceInterval opts < 0
        \<or> f64_less (o_ValueLogGCDiscardRatio opts) 0 \<or> f64_ge (o_ValueLogGCDiscardRatio opts) 1
        \<or> \<not> config_ok (dispatch_config base)
        \<or> (\<exists>name override. map_of (logs_of (o_Logs opts)) name = Some override
             \<and> (\<not> valid_name name \<or> \<not> config_ok (dispatch_config (mergeLogConfig override base))))"
proof -
  let ?o = "normalized_options ord opts"
  have o: "o_Dir ?o = o_Dir opts" "o_DefaultLog ?o = base" "o_MaintenanceInterval ?o = o_MaintenanceInterval opts"
    "o_Logs ?o = cloneLogConfigs ord (o_Logs opts)"
    by (simp_all add: normalized_options_def Let_def assms(3) normalize_is_merge)
  have m: "map_of (logs_of (o_Logs ?o)) = map_of (logs_of (o_Logs opts))"
    unfolding o(4) using clone_lookup [OF assms(1)] assms(2)
    by (cases "o_Logs opts") (simp_all add: cloneLogConfigs_def logs_of_def)
  show ?thesis
  proof (cases "validateOptions ord ?o")
    case None
    then have "config_ok (dispatch_config (stream_config ?o name))" for name by (rule valid_stream_config [OF assms(1)])
    moreover have "stream_config ?o name =
            (case map_of (logs_of (o_Logs opts)) name of None \<Rightarrow> base | Some override \<Rightarrow> mergeLogConfig override base)" for name
      by (simp add: stream_config_def m o(2) split: option.splits)
    ultimately show ?thesis using None o(1)
      by (cases "Root_Open lib (o_Dir opts)") (auto simp: Factory_New_def Let_def New_error_iff)
  next
    case (Some e)
    have "map_of (logs_of (o_Logs opts)) name = Some override" if "(name, override) \<in> set (logs_of (o_Logs ?o))" for name override
      using that m distinct_clone [of ord "o_Logs opts"] o(4) by (metis map_of_eq_Some_iff)
    moreover have r: "f64_le (o_ValueLogGCDiscardRatio ?o) 0 \<Longrightarrow> f64_less (o_ValueLogGCDiscardRatio opts) 0"
      "f64_ge (o_ValueLogGCDiscardRatio ?o) 1 \<Longrightarrow> f64_ge (o_ValueLogGCDiscardRatio opts) 1"
      by (cases "o_ValueLogGCDiscardRatio opts"; auto simp: normalized_options_def Let_def split: if_splits)+
    moreover have "\<not> (validateOptions ord ?o = None)" using Some by simp
    ultimately have "o_Dir opts = [] \<or> o_MaintenanceInterval opts < 0
        \<or> f64_less (o_ValueLogGCDiscardRatio opts) 0 \<or> f64_ge (o_ValueLogGCDiscardRatio opts) 1
        \<or> \<not> config_ok (dispatch_config base)
        \<or> (\<exists>name override. map_of (logs_of (o_Logs opts)) name = Some override
             \<and> (\<not> valid_name name \<or> \<not> config_ok (dispatch_config (mergeLogConfig override base))))"
      unfolding validateOptions_iff [OF assms(1)] o validateLogConfig_iff by force
    with Some show ?thesis by (simp add: Factory_New_def Let_def)
  qed
qed

theorem options_resolved_witness:
  "\<exists>f. Factory_New mem_lib id demo_options = Inr f \<and> stream_config (f_options f) (str ''q'') = DefaultLogConfig"
proof -
  have "mergeLogConfig DefaultLogConfig DefaultLogConfig = DefaultLogConfig"
    by (rule logConfig_eqI) (simp_all add: merge_fields)
  with options_resolved [OF any_order_id, of demo_options DefaultLogConfig mem_lib] show ?thesis
    by (simp add: demo_factory_New) (simp add: demo_options_def WithMaintenanceInterval_def DefaultOptions_def logs_of_def)
qed

end
