(* ===== verification/Typed.thy ===== *)
theory Typed
  imports LogStream
begin

text \<open>
  \<open>src/typed/typed.go\<close>: a log of values over a log of bytes. A codec is provided by the caller; its
  methods return a result, return an error, or panic, and a panic is turned into an error. The
  underlying log is an interface in the code, so here it is the record \<open>raw_log\<close> of its operations
  on some state; \<open>stream_log\<close> is the log of this library seen through it. A read of the
  underlying log that does not come back is \<open>None\<close>.
\<close>

section \<open>Codecs\<close>

datatype ('a, 'p) codec_outcome = CodecOk 'a | CodecErr gerror | CodecPanics 'p

record ('a, 'p) Codec =
  c_Encode :: "'a \<Rightarrow> (bytes, 'p) codec_outcome"
  c_Decode :: "bytes \<Rightarrow> ('a, 'p) codec_outcome"

text \<open>An error of a guarded codec call: the codec's own, or a recovered panic with the name of the
  operation and the recovered value.\<close>

datatype 'p codec_error = CodecError gerror | CodecPanicError string 'p

fun codec_error_is :: "'p codec_error \<Rightarrow> gerror \<Rightarrow> bool" where
  "codec_error_is (CodecError err) target = errors_is err target"
| "codec_error_is (CodecPanicError operation recovered) target = (target = CodecPanic)"

fun guard_codec :: "string \<Rightarrow> ('a, 'p) codec_outcome \<Rightarrow> 'p codec_error + 'a" where
  "guard_codec operation (CodecOk a) = Inr a"
| "guard_codec operation (CodecErr err) = Inl (CodecError err)"
| "guard_codec operation (CodecPanics recovered) = Inl (CodecPanicError operation recovered)"

definition safeEncode :: "('a, 'p) Codec \<Rightarrow> 'a \<Rightarrow> 'p codec_error + bytes" where
  "safeEncode codec v = guard_codec ''encode'' (c_Encode codec v)"

definition safeDecode :: "('a, 'p) Codec \<Rightarrow> bytes \<Rightarrow> 'p codec_error + 'a" where
  "safeDecode codec data = guard_codec ''decode'' (c_Decode codec data)"

text \<open>The codec of \<open>encoding/json\<close>, whose two functions are parameters.\<close>

definition JSONCodec :: "('a \<Rightarrow> gerror + bytes) \<Rightarrow> (bytes \<Rightarrow> gerror + 'a) \<Rightarrow> ('a, 'p) Codec" where
  "JSONCodec Marshal Unmarshal =
     \<lparr>c_Encode = (\<lambda>v. case Marshal v of Inl err \<Rightarrow> CodecErr err | Inr data \<Rightarrow> CodecOk data),
      c_Decode = (\<lambda>data. case Unmarshal data of Inl err \<Rightarrow> CodecErr err | Inr v \<Rightarrow> CodecOk v)\<rparr>"

section \<open>Data\<close>

record 'a tyDelivery =
  ty_Position :: position
  ty_Value :: 'a
  ty_Attempt :: u32
  ty_Deadline :: time
  ty_OriginStream :: bytes
  ty_OriginSeq :: u64
  ty_raw :: tdelivery

record 'a tyDeadLetter =
  tyd_Position :: position
  tyd_Value :: 'a
  tyd_Reason :: bytes
  tyd_CreatedAt :: time
  tyd_DeadLetteredAt :: time
  tyd_OriginStream :: bytes
  tyd_OriginSeq :: u64
  tyd_raw :: deadLetter

record 'p DecodeError =
  de_Deliveries :: "tdelivery list"
  de_Index :: nat
  de_Err :: "'p codec_error"

record 'p DeadLetterDecodeError =
  dde_DeadLetters :: "deadLetter list"
  dde_Index :: nat
  dde_Err :: "'p codec_error"

text \<open>The errors of a typed operation: the underlying log's, a failed encoding, or a failed decoding.\<close>

datatype 'p typed_error =
    RawError gerror
  | EncodeError "'p codec_error"
  | DecodeFailed "'p DecodeError"
  | DeadLetterDecodeFailed "'p DeadLetterDecodeError"

section \<open>The underlying log\<close>

record 'st raw_log =
  raw_Write :: "ctx \<Rightarrow> bytes \<Rightarrow> 'st \<Rightarrow> (gerror + position) \<times> 'st"
  raw_BatchWrite :: "ctx \<Rightarrow> bytes list \<Rightarrow> 'st \<Rightarrow> (gerror + position list) \<times> 'st"
  raw_Read :: "ctx \<Rightarrow> int \<Rightarrow> 'st \<Rightarrow> ((gerror + tdelivery list) \<times> 'st) option"
  raw_Commit :: "ctx \<Rightarrow> tdelivery list \<Rightarrow> 'st \<Rightarrow> (gerror + unit) \<times> 'st"
  raw_Retry :: "ctx \<Rightarrow> tdelivery list \<Rightarrow> 'st \<Rightarrow> (gerror + unit) \<times> 'st"
  raw_Extend :: "ctx \<Rightarrow> duration \<Rightarrow> tdelivery list \<Rightarrow> 'st \<Rightarrow> (gerror + unit) \<times> 'st"
  raw_DeadLetter :: "ctx \<Rightarrow> tdelivery \<Rightarrow> bytes \<Rightarrow> 'st \<Rightarrow> (gerror + unit) \<times> 'st"
  raw_DeadLetters :: "ctx \<Rightarrow> position \<Rightarrow> int \<Rightarrow> 'st \<Rightarrow> (gerror + deadLetter list) \<times> 'st"
  raw_Requeue :: "ctx \<Rightarrow> deadLetter \<Rightarrow> 'st \<Rightarrow> (gerror + position) \<times> 'st"
  raw_Stats :: "'st \<Rightarrow> (gerror + tstats) \<times> 'st"
  raw_Close :: "ctx \<Rightarrow> 'st \<Rightarrow> gerror option option \<times> 'st"

definition with_rng :: "('db lstate \<Rightarrow> 'r \<times> 'db lstate) \<Rightarrow> 'db lstate \<times> 'g \<Rightarrow> 'r \<times> 'db lstate \<times> 'g" where
  "with_rng op x = (case x of (st, g) \<Rightarrow> (case op st of (r, st) \<Rightarrow> (r, (st, g))))"

definition stream_log ::
  "('db, 'txn) badger \<Rightarrow> nat \<Rightarrow> flight_order \<Rightarrow> (float64 \<Rightarrow> duration) \<Rightarrow> ('g \<Rightarrow> (gerror + receipt) \<times> 'g) \<Rightarrow> time
   \<Rightarrow> ('db lstate \<times> 'g) raw_log" where
  "stream_log B fuel ord oor newReceipt now =
     \<lparr>raw_Write = (\<lambda>c data. with_rng (Log_Write B c now data)),
      raw_BatchWrite = (\<lambda>c data. with_rng (Log_BatchWrite B c now data)),
      raw_Read = (\<lambda>c n (st, g). case Log_Read B fuel ord newReceipt c now n st g of
                                  Some (ReadDone r, st, g) \<Rightarrow> Some (r, (st, g)) | _ \<Rightarrow> None),
      raw_Commit = (\<lambda>c xs. with_rng (Log_Commit B ord c now xs)),
      raw_Retry = (\<lambda>c xs. with_rng (Log_Retry oor ord c now xs)),
      raw_Extend = (\<lambda>c e xs. with_rng (Log_Extend ord c now e xs)),
      raw_DeadLetter = (\<lambda>c x reason. with_rng (Log_DeadLetter B ord c now now x reason)),
      raw_DeadLetters = (\<lambda>c lo n. with_rng (Log_DeadLetters B c lo n)),
      raw_Requeue = (\<lambda>c x. with_rng (Log_Requeue B c x)),
      raw_Stats = with_rng (Log_Stats B ord now now),
      raw_Close = (\<lambda>c. with_rng (\<lambda>(l, s, db). case Log_Close c l of (r, l) \<Rightarrow> (r, (l, s, db))))\<rparr>"

section \<open>The typed log\<close>

record ('st, 'a, 'p) tyLog =
  tyl_raw :: "'st raw_log"
  tyl_codec :: "('a, 'p) Codec"

definition Typed_New :: "'st raw_log option \<Rightarrow> ('a, 'p) Codec option \<Rightarrow> gerror + ('st, 'a, 'p) tyLog" where
  "Typed_New raw codec =
     (case (raw, codec) of
        (Some raw, Some codec) \<Rightarrow> Inr \<lparr>tyl_raw = raw, tyl_codec = codec\<rparr>
      | _ \<Rightarrow> Inl (ErrorText ''typed: raw log and codec are required''))"

definition Typed_JSON ::
  "('a \<Rightarrow> gerror + bytes) \<Rightarrow> (bytes \<Rightarrow> gerror + 'a) \<Rightarrow> 'st raw_log option \<Rightarrow> gerror + ('st, 'a, 'p) tyLog" where
  "Typed_JSON Marshal Unmarshal raw = Typed_New raw (Some (JSONCodec Marshal Unmarshal))"

definition raw_result :: "(gerror + 'r) \<times> 'st \<Rightarrow> ('p typed_error + 'r) \<times> 'st" where
  "raw_result x = (case x of (r, st) \<Rightarrow> (map_sum RawError id r, st))"

definition Typed_Write :: "('st, 'a, 'p) tyLog \<Rightarrow> ctx \<Rightarrow> 'a \<Rightarrow> 'st \<Rightarrow> ('p typed_error + position) \<times> 'st" where
  "Typed_Write l c v st =
     (case safeEncode (tyl_codec l) v of
        Inl err \<Rightarrow> (Inl (EncodeError err), st)
      | Inr data \<Rightarrow> raw_result (raw_Write (tyl_raw l) c data st))"

fun encode_values :: "('a, 'p) Codec \<Rightarrow> 'a list \<Rightarrow> 'p codec_error + bytes list" where
  "encode_values codec [] = Inr []"
| "encode_values codec (v # vs) =
     (case safeEncode codec v of
        Inl err \<Rightarrow> Inl err
      | Inr encoded \<Rightarrow> (case encode_values codec vs of Inl err \<Rightarrow> Inl err | Inr data \<Rightarrow> Inr (encoded # data)))"

definition Typed_BatchWrite :: "('st, 'a, 'p) tyLog \<Rightarrow> ctx \<Rightarrow> 'a list \<Rightarrow> 'st \<Rightarrow> ('p typed_error + position list) \<times> 'st" where
  "Typed_BatchWrite l c vs st =
     (case encode_values (tyl_codec l) vs of
        Inl err \<Rightarrow> (Inl (EncodeError err), st)
      | Inr data \<Rightarrow> raw_result (raw_BatchWrite (tyl_raw l) c data st))"

definition typed_delivery :: "tdelivery \<Rightarrow> 'a \<Rightarrow> 'a tyDelivery" where
  "typed_delivery delivery v =
     \<lparr>ty_Position = td_Position delivery, ty_Value = v, ty_Attempt = td_Attempt delivery,
      ty_Deadline = td_Deadline delivery, ty_OriginStream = td_OriginStream delivery,
      ty_OriginSeq = td_OriginSeq delivery, ty_raw = delivery\<rparr>"

fun decode_deliveries ::
  "('a, 'p) Codec \<Rightarrow> tdelivery list \<Rightarrow> nat \<Rightarrow> tdelivery list \<Rightarrow> 'p DecodeError + 'a tyDelivery list" where
  "decode_deliveries codec raw index [] = Inr []"
| "decode_deliveries codec raw index (delivery # rest) =
     (case safeDecode codec (td_Payload delivery) of
        Inl err \<Rightarrow> Inl \<lparr>de_Deliveries = raw, de_Index = index, de_Err = err\<rparr>
      | Inr v \<Rightarrow>
          (case decode_deliveries codec raw (Suc index) rest of
             Inl err \<Rightarrow> Inl err | Inr deliveries \<Rightarrow> Inr (typed_delivery delivery v # deliveries)))"

definition Typed_Read ::
  "('st, 'a, 'p) tyLog \<Rightarrow> ctx \<Rightarrow> int \<Rightarrow> 'st \<Rightarrow> (('p typed_error + 'a tyDelivery list) \<times> 'st) option" where
  "Typed_Read l c n st =
     (case raw_Read (tyl_raw l) c n st of
        None \<Rightarrow> None
      | Some (Inl err, st) \<Rightarrow> Some (Inl (RawError err), st)
      | Some (Inr raw, st) \<Rightarrow>
          (case decode_deliveries (tyl_codec l) raw 0 raw of
             Inl err \<Rightarrow> Some (Inl (DecodeFailed err), st)
           | Inr deliveries \<Rightarrow> Some (Inr deliveries, st)))"

definition Typed_unwrap :: "'a tyDelivery list \<Rightarrow> tdelivery list" where
  "Typed_unwrap deliveries = map ty_raw deliveries"

definition Typed_Commit :: "('st, 'a, 'p) tyLog \<Rightarrow> ctx \<Rightarrow> 'a tyDelivery list \<Rightarrow> 'st \<Rightarrow> (gerror + unit) \<times> 'st" where
  "Typed_Commit l c deliveries = raw_Commit (tyl_raw l) c (Typed_unwrap deliveries)"

definition Typed_Retry :: "('st, 'a, 'p) tyLog \<Rightarrow> ctx \<Rightarrow> 'a tyDelivery list \<Rightarrow> 'st \<Rightarrow> (gerror + unit) \<times> 'st" where
  "Typed_Retry l c deliveries = raw_Retry (tyl_raw l) c (Typed_unwrap deliveries)"

definition Typed_Extend :: "('st, 'a, 'p) tyLog \<Rightarrow> ctx \<Rightarrow> duration \<Rightarrow> 'a tyDelivery list \<Rightarrow> 'st \<Rightarrow> (gerror + unit) \<times> 'st" where
  "Typed_Extend l c extension deliveries = raw_Extend (tyl_raw l) c extension (Typed_unwrap deliveries)"

definition Typed_DeadLetter :: "('st, 'a, 'p) tyLog \<Rightarrow> ctx \<Rightarrow> 'a tyDelivery \<Rightarrow> bytes \<Rightarrow> 'st \<Rightarrow> (gerror + unit) \<times> 'st" where
  "Typed_DeadLetter l c delivery reason = raw_DeadLetter (tyl_raw l) c (ty_raw delivery) reason"

definition typed_dead_letter :: "deadLetter \<Rightarrow> 'a \<Rightarrow> 'a tyDeadLetter" where
  "typed_dead_letter dead v =
     \<lparr>tyd_Position = tl_Position dead, tyd_Value = v, tyd_Reason = tl_Reason dead, tyd_CreatedAt = tl_CreatedAt dead,
      tyd_DeadLetteredAt = tl_DeadLetteredAt dead, tyd_OriginStream = tl_OriginStream dead,
      tyd_OriginSeq = tl_OriginSeq dead, tyd_raw = dead\<rparr>"

fun decode_dead_letters ::
  "('a, 'p) Codec \<Rightarrow> deadLetter list \<Rightarrow> nat \<Rightarrow> deadLetter list \<Rightarrow> 'p DeadLetterDecodeError + 'a tyDeadLetter list" where
  "decode_dead_letters codec raw index [] = Inr []"
| "decode_dead_letters codec raw index (dead # rest) =
     (case safeDecode codec (tl_Payload dead) of
        Inl err \<Rightarrow> Inl \<lparr>dde_DeadLetters = raw, dde_Index = index, dde_Err = err\<rparr>
      | Inr v \<Rightarrow>
          (case decode_dead_letters codec raw (Suc index) rest of
             Inl err \<Rightarrow> Inl err | Inr deadLetters \<Rightarrow> Inr (typed_dead_letter dead v # deadLetters)))"

definition Typed_DeadLetters ::
  "('st, 'a, 'p) tyLog \<Rightarrow> ctx \<Rightarrow> position \<Rightarrow> int \<Rightarrow> 'st \<Rightarrow> ('p typed_error + 'a tyDeadLetter list) \<times> 'st" where
  "Typed_DeadLetters l c lo n st =
     (case raw_DeadLetters (tyl_raw l) c lo n st of
        (Inl err, st) \<Rightarrow> (Inl (RawError err), st)
      | (Inr raw, st) \<Rightarrow>
          (case decode_dead_letters (tyl_codec l) raw 0 raw of
             Inl err \<Rightarrow> (Inl (DeadLetterDecodeFailed err), st)
           | Inr deadLetters \<Rightarrow> (Inr deadLetters, st)))"

definition Typed_Requeue :: "('st, 'a, 'p) tyLog \<Rightarrow> ctx \<Rightarrow> 'a tyDeadLetter \<Rightarrow> 'st \<Rightarrow> (gerror + position) \<times> 'st" where
  "Typed_Requeue l c dead = raw_Requeue (tyl_raw l) c (tyd_raw dead)"

definition Typed_Stats :: "('st, 'a, 'p) tyLog \<Rightarrow> 'st \<Rightarrow> (gerror + tstats) \<times> 'st" where
  "Typed_Stats l = raw_Stats (tyl_raw l)"

definition Typed_Close :: "('st, 'a, 'p) tyLog \<Rightarrow> ctx \<Rightarrow> 'st \<Rightarrow> gerror option option \<times> 'st" where
  "Typed_Close l c = raw_Close (tyl_raw l) c"

section \<open>Lemmas\<close>

lemma safeEncode_iff: "safeEncode codec v = Inr data \<longleftrightarrow> c_Encode codec v = CodecOk data"
  by (cases "c_Encode codec v") (auto simp: safeEncode_def)

lemma safeDecode_iff: "safeDecode codec data = Inr v \<longleftrightarrow> c_Decode codec data = CodecOk v"
  by (cases "c_Decode codec data") (auto simp: safeDecode_def)

lemma safeDecode_error: "safeDecode codec data = Inl err \<Longrightarrow> \<forall>v. c_Decode codec data \<noteq> CodecOk v"
  by (cases "c_Decode codec data") (auto simp: safeDecode_def)

lemma encode_values_iff:
  "encode_values codec vs = Inr data \<longleftrightarrow> list_all2 (\<lambda>v d. c_Encode codec v = CodecOk d) vs data"
proof (induction vs arbitrary: data)
  case (Cons v vs)
  show ?case
    by (cases "c_Encode codec v"; cases "encode_values codec vs")
      (auto simp: safeEncode_def list_all2_Cons1 Cons.IH [symmetric])
qed auto

lemma decode_deliveries_ok:
  "list_all2 (\<lambda>v x. c_Decode codec (td_Payload x) = CodecOk v) vs xs \<Longrightarrow>
     decode_deliveries codec raw i xs = Inr (map2 typed_delivery xs vs)"
proof (induction xs arbitrary: vs i)
  case (Cons x xs)
  then show ?case by (cases vs) (auto simp: safeDecode_iff [symmetric])
qed simp

lemma decode_deliveries_fails:
  assumes "list_all (\<lambda>x. \<exists>v. c_Decode codec (td_Payload x) = CodecOk v) xs" "safeDecode codec (td_Payload y) = Inl err"
  shows "decode_deliveries codec raw i (xs @ y # zs) = Inl \<lparr>de_Deliveries = raw, de_Index = i + length xs, de_Err = err\<rparr>"
  using assms(1)
proof (induction xs arbitrary: i)
  case Nil
  with assms(2) show ?case by simp
next
  case (Cons x xs)
  then show ?case by (auto simp: safeDecode_iff [symmetric])
qed

end
