(* ===== verification/Typed_Props.thy ===== *)
theory Typed_Props
  imports Typed Log_Props
begin

text \<open>
  The property of the typed adapter, with a witness on the demonstration log and a codec of one
  byte that panics on anything else.
\<close>

section \<open>The adapter\<close>

text \<open>C40. The typed log is the byte log under a codec. Let the codec decode what it encodes. When every value
  encodes, a batch write is the byte log's batch write of the encodings; when one of them fails or
  panics, the call fails and the byte log has not been touched. When the byte log delivers
  encodings of values, a read returns exactly these values, in order, and committing what was read
  hands the byte log's own deliveries back to it. When a payload does not decode, the read fails
  with an error that holds all the deliveries and the index of the first such payload, so the leases
  stay in the hands of the caller; and the error is \<open>ErrCodecPanic\<close> when the codec panicked.\<close>

theorem typed_adapter:
  assumes "\<forall>v data. c_Encode (tyl_codec l) v = CodecOk data \<longrightarrow> c_Decode (tyl_codec l) data = CodecOk v"
  shows "(list_all2 (\<lambda>v d. c_Encode (tyl_codec l) v = CodecOk d) vs data \<longrightarrow>
        Typed_BatchWrite l c vs st = raw_result (raw_BatchWrite (tyl_raw l) c data st))
    \<and> ((\<exists>v \<in> set vs. \<forall>d. c_Encode (tyl_codec l) v \<noteq> CodecOk d) \<longrightarrow>
        (\<exists>e. Typed_BatchWrite l c vs st = (Inl (EncodeError e), st)))
    \<and> (raw_Read (tyl_raw l) c n st = Some (Inr xs, st')
        \<and> list_all2 (\<lambda>v x. c_Encode (tyl_codec l) v = CodecOk (td_Payload x)) vs xs \<longrightarrow>
        (\<exists>ys. Typed_Read l c n st = Some (Inr ys, st') \<and> map ty_Value ys = vs
           \<and> Typed_Commit l c ys = raw_Commit (tyl_raw l) c xs))
    \<and> (raw_Read (tyl_raw l) c n st = Some (Inr (good @ bad # rest), st')
        \<and> list_all (\<lambda>x. \<exists>v. c_Decode (tyl_codec l) (td_Payload x) = CodecOk v) good
        \<and> (\<forall>v. c_Decode (tyl_codec l) (td_Payload bad) \<noteq> CodecOk v) \<longrightarrow>
        (\<exists>e. Typed_Read l c n st = Some (Inl (DecodeFailed e), st') \<and> de_Deliveries e = good @ bad # rest
           \<and> de_Index e = length good
           \<and> (\<forall>p. c_Decode (tyl_codec l) (td_Payload bad) = CodecPanics p \<longrightarrow> codec_error_is (de_Err e) CodecPanic)))"
proof (intro conjI impI)
  assume "list_all2 (\<lambda>v d. c_Encode (tyl_codec l) v = CodecOk d) vs data"
  then show "Typed_BatchWrite l c vs st = raw_result (raw_BatchWrite (tyl_raw l) c data st)"
    by (simp add: Typed_BatchWrite_def encode_values_iff [symmetric])
next
  assume bad: "\<exists>v \<in> set vs. \<forall>d. c_Encode (tyl_codec l) v \<noteq> CodecOk d"
  then obtain i where i: "i < length vs" "\<forall>d. c_Encode (tyl_codec l) (vs ! i) \<noteq> CodecOk d" by (auto simp: in_set_conv_nth)
  have "encode_values (tyl_codec l) vs \<noteq> Inr data" for data
    unfolding encode_values_iff using i by (auto dest: list_all2_nthD)
  then show "\<exists>e. Typed_BatchWrite l c vs st = (Inl (EncodeError e), st)"
    by (cases "encode_values (tyl_codec l) vs") (auto simp: Typed_BatchWrite_def)
next
  assume r: "raw_Read (tyl_raw l) c n st = Some (Inr xs, st')
    \<and> list_all2 (\<lambda>v x. c_Encode (tyl_codec l) v = CodecOk (td_Payload x)) vs xs"
  then have len: "length vs = length xs" and "list_all2 (\<lambda>v x. c_Decode (tyl_codec l) (td_Payload x) = CodecOk v) vs xs"
    using assms by (auto simp: list_all2_conv_all_nth)
  from decode_deliveries_ok [OF this(2)] r
  have "Typed_Read l c n st = Some (Inr (map2 typed_delivery xs vs), st')" by (simp add: Typed_Read_def)
  moreover have "map ty_Value (map2 typed_delivery xs vs) = vs" "Typed_unwrap (map2 typed_delivery xs vs) = xs"
    using len by (auto simp: typed_delivery_def Typed_unwrap_def intro: nth_equalityI)
  ultimately show "\<exists>ys. Typed_Read l c n st = Some (Inr ys, st') \<and> map ty_Value ys = vs
      \<and> Typed_Commit l c ys = raw_Commit (tyl_raw l) c xs"
    by (auto simp: Typed_Commit_def)
next
  assume r: "raw_Read (tyl_raw l) c n st = Some (Inr (good @ bad # rest), st')
        \<and> list_all (\<lambda>x. \<exists>v. c_Decode (tyl_codec l) (td_Payload x) = CodecOk v) good
        \<and> (\<forall>v. c_Decode (tyl_codec l) (td_Payload bad) \<noteq> CodecOk v)"
  then obtain e where e: "safeDecode (tyl_codec l) (td_Payload bad) = Inl e"
    by (cases "safeDecode (tyl_codec l) (td_Payload bad)") (auto simp: safeDecode_iff)
  from decode_deliveries_fails [OF _ e, of good] r
  have "Typed_Read l c n st =
      Some (Inl (DecodeFailed \<lparr>de_Deliveries = good @ bad # rest, de_Index = length good, de_Err = e\<rparr>), st')"
    by (simp add: Typed_Read_def)
  moreover have "codec_error_is e CodecPanic" if "c_Decode (tyl_codec l) (td_Payload bad) = CodecPanics p" for p
    using e that by (auto simp: safeDecode_def)
  ultimately show "\<exists>e. Typed_Read l c n st = Some (Inl (DecodeFailed e), st') \<and> de_Deliveries e = good @ bad # rest
           \<and> de_Index e = length good
           \<and> (\<forall>p. c_Decode (tyl_codec l) (td_Payload bad) = CodecPanics p \<longrightarrow> codec_error_is (de_Err e) CodecPanic)"
    by auto
qed

definition demo_codec :: "(8 word, string) Codec" where
  "demo_codec = \<lparr>c_Encode = (\<lambda>w. CodecOk [w]), c_Decode = (\<lambda>data. case data of [w] \<Rightarrow> CodecOk w | _ \<Rightarrow> CodecPanics ''length'')\<rparr>"

definition demo_typed :: "(kv lstate \<times> receipt, 8 word, string) tyLog" where
  "demo_typed = \<lparr>tyl_raw = stream_log mem_badger 3 id (\<lambda>_. 0) demo_gen 100, tyl_codec = demo_codec\<rparr>"

theorem typed_adapter_witness:
  "\<exists>ys st'. Typed_Read demo_typed Live 1 ((demo_log, demo_stream1, demo_db1), 7) = Some (Inr ys, st') \<and> map ty_Value ys = [7]
     \<and> Typed_Commit demo_typed Live ys = raw_Commit (tyl_raw demo_typed) Live [wrap demo_log demo_delivery]"
proof -
  have c: "\<forall>v data. c_Encode (tyl_codec demo_typed) v = CodecOk data \<longrightarrow> c_Decode (tyl_codec demo_typed) data = CodecOk v"
    by (auto simp: demo_typed_def demo_codec_def)
  obtain st' where r: "raw_Read (tyl_raw demo_typed) Live 1 ((demo_log, demo_stream1, demo_db1), 7) =
      Some (Inr [wrap demo_log demo_delivery], st')"
    using demo_read demo_refusal
    by (simp add: demo_typed_def stream_log_def Log_Read_unfold begin_op_refusal finish_read_def wrap_def demo_log_def newLogStream_def
        del: Dispatch_Read.simps)
  have p: "list_all2 (\<lambda>v x. c_Encode (tyl_codec demo_typed) v = CodecOk (td_Payload x)) [7] [wrap demo_log demo_delivery]"
    by (simp add: demo_typed_def demo_codec_def wrap_def demo_delivery_def demo_record_def)
  from typed_adapter [OF c, of "[7]" "[]" Live "((demo_log, demo_stream1, demo_db1), 7)" 1 "[wrap demo_log demo_delivery]" st',
      THEN conjunct2, THEN conjunct2, THEN conjunct1] r p
  show ?thesis by metis
qed

end
