(* ===== verification/Spec2Isabelle.thy ===== *)
theory Spec2Isabelle
  imports Store_Props Dispatch_Props Log_Props Factory_Props Typed_Props
begin

text \<open>
  Teak: a durable work queue with at-least-once delivery on BadgerDB.

  \<^bold>\<open>The program.\<close> A factory (\<open>src/factory.go\<close>) owns one Badger database and hands out logs by name. A log
  (\<open>src/log.go\<close>) is the facade of one stream: it checks the caller's context, counts active calls,
  maps internal errors to public ones and calls two components. The store
  (\<open>src/internal/store\<close>) keeps the stream's pending records, dead letters, tail and schema version as
  keys of the database. The dispatcher (\<open>src/internal/dispatch\<close>) keeps, in memory, which pending
  records are prefetched, leased to a reader or waiting for a retry; a reader's lease expires. The
  options (\<open>src/options.go\<close>) configure both, the public types are in \<open>src/teak.go\<close>, and
  \<open>src/typed/typed.go\<close> puts a codec around a log.

  \<^bold>\<open>Theories.\<close>
  \<^item> \<open>Prelude\<close>: Go integers, times and errors as values (\<open>gerror\<close>, \<open>errors_is\<close>), and shared lemmas.
  \<^item> \<open>Wire\<close>, \<open>Envelope\<close>: big-endian fields and the two record envelopes of \<open>envelope.go\<close>.
  \<^item> \<open>Keys\<close>: the key space of \<open>keys.go\<close>; the locale for a family of sequence keys.
  \<^item> \<open>Badger\<close>: the database as a parameter. Locale \<open>badger_store\<close> states what Teak relies on
    (snapshot transactions, atomic commit, ordered iteration, any call may fail), \<open>badger_reliable\<close>
    that nothing fails; \<open>mem_badger\<close> is an instance of both.
  \<^item> \<open>Store\<close>: the operations of \<open>store.go\<close>. \<open>Store_Refinement\<close>, \<open>Store_Correct\<close>, \<open>Store_Read\<close> and
    \<open>Store_Load\<close> relate them to an abstract queue of pending and dead records with a tail;
    \<open>Store_History\<close> follows a stream through any run. \<open>Root\<close>: opening, closing, collecting.
  \<^item> \<open>RetryHeap\<close>, \<open>Backoff\<close>, \<open>Dispatcher\<close>: \<open>dispatch.go\<close>, one definition per critical section.
    \<open>Dispatcher_Inv\<close>, \<open>Dispatcher_Ops\<close> and \<open>Dispatcher_Take\<close> prove what each section does.
  \<^item> \<open>System\<close>: store and dispatcher of one stream under any interleaving, as the step relation
    \<open>sys_step\<close>, crashes included. \<open>Reader\<close>: the loop of \<open>Read\<close>, and readers that are parked.
  \<^item> \<open>Facade_Errors\<close>, \<open>LogStream\<close>: context check, error mapping and the operations of a log.
    \<open>Log_Refinement\<close>: each call on a log is a sequence of \<open>sys_step\<close>, and of the lifecycle's steps.
  \<^item> \<open>Options\<close>, \<open>Factory\<close>: configuration and the factory. \<open>Factory_System\<close>: many logs, maintenance
    passes and the sections of \<open>Close\<close> under any interleaving, as \<open>fac_step\<close>.
  \<^item> \<open>Typed\<close>: the adapter over an arbitrary byte log and codec.
  \<^item> \<open>Store_Props\<close>, \<open>Dispatch_Props\<close>, \<open>Log_Props\<close>, \<open>Factory_Props\<close>, \<open>Typed_Props\<close>: the properties, each
    after a text that states it, with a witness on a concrete state.

  \<^bold>\<open>How state and operations correspond.\<close> A struct is a record with the same fields (prefixed), a map is
  a function or, where iteration or length matter, an association list. An operation takes the state
  and returns its result with the new state; an error is \<open>Inl\<close> or \<open>Some\<close>. Sequences and counters are
  words of their Go width, \<open>int\<close> is an integer with \<open>wrap_int\<close> where a sum can overflow, times and
  durations are integers in nanoseconds. What the code reads from its environment is an argument:
  the clock, the order in which a map is ranged over (any permutation, \<open>any_order\<close>), the receipt
  generator, the value of an out-of-range float conversion, the address of a new log.

  \<^bold>\<open>What is shown.\<close>
  \<^item> Store: every operation either has the effect of the abstract queue or leaves it as it was; over
    any run each assigned sequence is pending, dead or completed, exactly one of them; streams do not
    interfere; opening restores the tail and refuses inconsistent storage; codecs and keys round-trip.
  \<^item> Dispatcher and system: at every reachable state each pending record is in exactly one lane or
    still to be scanned with scanning enabled; leases are exclusive and bounded; a read decides within
    two rounds and waits only when nothing can be delivered; completions need a live lease and act on
    exactly the leased records; expiry, retry, backoff and the retry heap behave as specified.
  \<^item> Facade and factory: call sequences refine the step system, so they inherit its invariant; refused
    calls have no effect; callers see public errors only; closing is final, never overlaps a maintenance pass and returns when no
    call is active; every pass is counted; options are resolved and checked up front.
  \<^item> Typed adapter: values round-trip and a codec failure loses no delivery.
  \<^item> Three theorems describe behaviour that the code's comments do not promise: one notification wakes
    one reader only, so a second reader can stay blocked after \<open>Close\<close> (\<open>one_token_one_reader\<close>); with
    all slots taken and a retry due a reader does not wait (\<open>due_retry_busy_wait\<close>); and very large
    capacities overflow the tracking limit (\<open>tracked_limit_overflow\<close>).

  \<^bold>\<open>Fuel.\<close> \<open>Dispatch_Read\<close> runs its loop with fuel; two rounds are proved to be enough without
  interference (\<open>read_progress\<close>). \<open>run_close\<close> counts the sections of \<open>Close\<close>; the number of logs and five
  more are enough (\<open>factory_close_returns\<close>). Every other recursion is structural or has a measure.

  \<^bold>\<open>Not modelled.\<close> Badger itself and \<open>encoding/json\<close> are parameters. Log output, error message texts and
  the accessors \<open>Name\<close> and \<open>Raw\<close> have no effect on the state. Goroutine scheduling appears as
  interleaving of critical sections: data races inside a section are excluded by the mutexes of the
  code. Allocation failures and slices longer than the address space are left out. The memory
  sharing of payload slices between caller and log is not modelled: payloads are values.
\<close>

end
